(* ===== verification/Prelude.thy ===== *)
theory Prelude
  imports Main "HOL-Library.Word" "HOL-Library.Sublist"
begin

text \<open>
  Prelude of the development: the C++ integer conversions the sources use, the names of the
  collections of rules the component theories fill, and the few generic facts on lists and on
  function updates that several components share.
\<close>

section \<open>Collections of rules\<close>

named_theorems ec_simps \<open>characteristic equations of error codes\<close>
named_theorems chain_simps \<open>equations of pointer chains on a heap\<close>
named_theorems frame_simps \<open>what an update of one object leaves unchanged\<close>

section \<open>C++ integers\<close>

text \<open>
  A value of type \<open>int\<close> is an \<^typ>\<open>int\<close> in the range of 32 bits; \<open>static_cast<int>\<close> of a wider
  value keeps the low 32 bits and reads them in two's complement. \<open>std::size_t\<close> is 64 bits wide.
\<close>

definition int_max :: int where
  "int_max = 2147483647"

definition int_min :: int where
  "int_min = - 2147483648"

definition cast_int :: "int \<Rightarrow> int" where
  "cast_int x = signed_take_bit 31 x"

definition size_max :: int where
  "size_max = 18446744073709551615"

lemma cast_int_id: "int_min \<le> x \<Longrightarrow> x \<le> int_max \<Longrightarrow> cast_int x = x"
  by (simp add: cast_int_def int_min_def int_max_def signed_take_bit_int_eq_self)

lemma cast_int_range: "int_min \<le> cast_int x \<and> cast_int x \<le> int_max"
  using signed_take_bit_int_greater_eq_minus_exp [of 31 x] signed_take_bit_int_less_exp [of 31 x]
  by (simp add: cast_int_def int_min_def int_max_def)

section \<open>Addresses\<close>

text \<open>Objects are named by their address, a number; the null pointer is 0.\<close>

type_synonym addr = nat

section \<open>Lists\<close>

lemma prefix_concat_filter:
  "prefix xs (concat ys) \<Longrightarrow> prefix xs (concat (ys @ zs))"
  by (auto simp: prefix_def)

lemma filter_snoc_other [simp]: "\<not> P x \<Longrightarrow> filter P (xs @ [x]) = filter P xs"
  by simp

lemma distinct_rev_append: "distinct (rev xs @ ys) = distinct (xs @ ys)"
  by simp

end
