(* ===== verification/Cpp_Strings.thy ===== *)
theory Cpp_Strings
  imports Prelude
begin

text \<open>
  The operations of \<open>std::string\<close> the sources call, on lists of characters: searching for the first
  or last character outside a set (\<open>npos\<close> is \<^const>\<open>None\<close>), searching for a block of characters,
  and erasing at either end. A \<open>char\<close> of the model is one byte.
\<close>

section \<open>Searching\<close>

fun first_index :: "('a \<Rightarrow> bool) \<Rightarrow> 'a list \<Rightarrow> nat option" where
  "first_index P [] = None"
| "first_index P (x # xs) = (if P x then Some 0 else map_option Suc (first_index P xs))"

definition find_first_not_of :: "string \<Rightarrow> string \<Rightarrow> nat option" where
  "find_first_not_of s cs = first_index (\<lambda>c. c \<notin> set cs) s"

definition find_last_not_of :: "string \<Rightarrow> string \<Rightarrow> nat option" where
  "find_last_not_of s cs =
     map_option (\<lambda>i. length s - Suc i) (first_index (\<lambda>c. c \<notin> set cs) (rev s))"

definition find_char :: "string \<Rightarrow> char \<Rightarrow> nat option" where
  "find_char s c = first_index (\<lambda>x. x = c) s"

text \<open>
  \<open>s.find(p, 0, n)\<close> looks for the first position where the \<open>n\<close> characters of the block \<open>p\<close> stand;
  the block is given as a list here, its length is \<open>n\<close>.
\<close>

fun find_block :: "string \<Rightarrow> string \<Rightarrow> nat option" where
  "find_block [] p = (if p = [] then Some 0 else None)"
| "find_block (c # cs) p =
     (if take (length p) (c # cs) = p then Some 0 else map_option Suc (find_block cs p))"

lemma first_index_None: "first_index P xs = None \<longleftrightarrow> (\<forall>x \<in> set xs. \<not> P x)"
  by (induction xs) auto

lemma first_index_Some:
  "first_index P xs = Some i \<Longrightarrow> i = length (takeWhile (\<lambda>x. \<not> P x) xs) \<and> i < length xs"
  by (induction xs arbitrary: i) (auto split: if_splits)

lemma first_index_conv:
  "first_index P xs =
     (if list_all (\<lambda>x. \<not> P x) xs then None else Some (length (takeWhile (\<lambda>x. \<not> P x) xs)))"
  by (induction xs) auto

lemma find_block_None: "p \<noteq> [] \<Longrightarrow> \<not> set p \<subseteq> set s \<Longrightarrow> find_block s p = None"
proof (induction s)
  case Nil
  then show ?case by simp
next
  case (Cons c cs)
  have "take (length p) (c # cs) \<noteq> p"
    using Cons.prems(2) set_take_subset [of "length p" "c # cs"] by auto
  moreover have "\<not> set p \<subseteq> set cs"
    using Cons.prems(2) by auto
  ultimately show ?case
    using Cons.prems(1) Cons.IH by simp
qed

section \<open>Erasing at the ends\<close>

lemma drop_first_index:
  "first_index P xs = Some i \<Longrightarrow> drop i xs = dropWhile (\<lambda>x. \<not> P x) xs"
  using first_index_Some [of P xs i] by (simp add: dropWhile_eq_drop)

lemma take_first_index:
  "first_index P xs = Some i \<Longrightarrow> take i xs = takeWhile (\<lambda>x. \<not> P x) xs"
  using first_index_Some [of P xs i] takeWhile_eq_take [of "\<lambda>x. \<not> P x" xs] by simp

lemma take_last_index:
  assumes "first_index P (rev xs) = Some i"
  shows "take (Suc (length xs - Suc i)) xs = rev (dropWhile (\<lambda>x. \<not> P x) (rev xs))"
proof -
  from first_index_Some [OF assms] have i: "i < length xs" by simp
  then have "Suc (length xs - Suc i) = length xs - i" by simp
  then show ?thesis
    by (metis assms drop_first_index rev_drop rev_rev_ident length_rev)
qed

end
