(* ===== verification/Errors.thy ===== *)
theory Errors
  imports Cpp_Strings
begin

text \<open>
  The error codes of the library: \<open>ice/error.hpp\<close> and \<open>ice/error.cpp\<close>. An error code is a number
  together with the category it belongs to; the three categories of the library give it a text.
\<close>

section \<open>Error codes and categories\<close>

text \<open>
  \<open>std::error_code\<close> is a value and a pointer to a category. Categories are compared by address,
  so each category object is one constructor; \<open>Std_system_category\<close> is the category of a default
  constructed error code.
\<close>

datatype error_category =
    Std_system_category
  | Native_category
  | System_category
  | Domain_category
  | Ssh_domain_category

record error_code =
  ec_value :: int
  ec_category :: error_category

definition no_error :: error_code where
  "no_error = \<lparr>ec_value = 0, ec_category = Std_system_category\<rparr>"

text \<open>\<open>explicit operator bool\<close>: an error code is true when its value is not zero.\<close>

definition failed :: "error_code \<Rightarrow> bool" where
  "failed ec \<longleftrightarrow> ec_value ec \<noteq> 0"

datatype errc = Eof | Invalid_address | Version_mismatch

fun errc_value :: "errc \<Rightarrow> int" where
  "errc_value Eof = 1"
| "errc_value Invalid_address = 2"
| "errc_value Version_mismatch = 3"

text \<open>
  The argument of \<open>make_error_code\<close> selects the category by its type: \<open>std::errc\<close>, the library's
  own \<open>errc\<close>, an error code, or any other integral type (an \<open>errno\<close> or a \<open>GetLastError\<close> value).
\<close>

datatype error_value =
    Std_errc int
  | Ice_errc errc
  | Error_code error_code
  | Other_value int

fun make_error_code :: "error_value \<Rightarrow> error_code" where
  "make_error_code (Std_errc ev) = \<lparr>ec_value = cast_int ev, ec_category = System_category\<rparr>"
| "make_error_code (Ice_errc ev) =
     \<lparr>ec_value = cast_int (errc_value ev), ec_category = Domain_category\<rparr>"
| "make_error_code (Error_code ev) = ev"
| "make_error_code (Other_value ev) = \<lparr>ec_value = cast_int ev, ec_category = Native_category\<rparr>"

definition make_error_code_in :: "int \<Rightarrow> error_category \<Rightarrow> error_code" where
  "make_error_code_in ev category = \<lparr>ec_value = cast_int ev, ec_category = category\<rparr>"

lemma not_failed_no_error [ec_simps, simp]: "\<not> failed no_error"
  by (simp add: failed_def no_error_def)

lemma failed_ice_errc [ec_simps, simp]: "failed (make_error_code (Ice_errc e))"
  by (cases e) (simp_all add: failed_def cast_int_def)

lemma failed_other_value [ec_simps]: "failed (make_error_code (Other_value v)) \<longleftrightarrow> cast_int v \<noteq> 0"
  by (simp add: failed_def)

lemma failed_in [ec_simps]: "failed (make_error_code_in v c) \<longleftrightarrow> cast_int v \<noteq> 0"
  by (simp add: failed_def make_error_code_in_def)

section \<open>Messages\<close>

text \<open>
  \<open>native_category::format\<close>: trim blanks and line ends in front, cut at the first full stop, trim
  behind, then lower the case up to the first byte that is not printable ASCII. The comparisons
  with \<open>' '\<close> and \<open>'~'\<close> are false for every byte above 127, whether \<open>char\<close> is signed or not.
\<close>

definition tolower :: "char \<Rightarrow> char" where
  "tolower c = (if 65 \<le> (of_char c :: nat) \<and> (of_char c :: nat) \<le> 90
     then char_of ((of_char c :: nat) + 32) else c)"

definition printable_ascii :: "char \<Rightarrow> bool" where
  "printable_ascii c \<longleftrightarrow> 32 \<le> (of_char c :: nat) \<and> (of_char c :: nat) \<le> 126"

fun lower_ascii :: "bool \<Rightarrow> string \<Rightarrow> string" where
  "lower_ascii ascii [] = []"
| "lower_ascii ascii (c # cs) =
     (if ascii \<and> printable_ascii c then tolower c # lower_ascii ascii cs
      else c # lower_ascii False cs)"

definition blanks :: string where
  "blanks = [CHR 0x0D, CHR 0x0A, CHR '' '']"

definition native_format :: "string \<Rightarrow> string" where
  "native_format str =
     (let s1 = (case find_first_not_of str blanks of Some pos \<Rightarrow> drop pos str | None \<Rightarrow> str);
          s2 = (case find_char s1 (CHR ''.'') of Some pos \<Rightarrow> take pos s1 | None \<Rightarrow> s1);
          s3 = (case find_last_not_of s2 blanks of Some pos \<Rightarrow> take (Suc pos) s2 | None \<Rightarrow> s2)
      in lower_ascii True s3)"

definition native_message :: "(int \<Rightarrow> string) \<Rightarrow> int \<Rightarrow> string" where
  "native_message os_message ev = native_format (os_message ev)"

fun domain_message :: "int \<Rightarrow> string" where
  "domain_message ev =
     (if ev = errc_value Eof then ''end of file''
      else if ev = errc_value Invalid_address then ''invalid address''
      else if ev = errc_value Version_mismatch then ''version mismatch''
      else ''unknown error'')"

section \<open>The canonical form of a native message\<close>

text \<open>
  The three searches of \<^const>\<open>native_format\<close> are a trim in front, a cut and a trim behind; a string
  that is all blank is left as it is by both trims.
\<close>

definition blank :: "char \<Rightarrow> bool" where
  "blank c \<longleftrightarrow> c \<in> set blanks"

definition trim_front :: "string \<Rightarrow> string" where
  "trim_front s = (if list_all blank s then s else dropWhile blank s)"

definition trim_back :: "string \<Rightarrow> string" where
  "trim_back s = (if list_all blank s then s else rev (dropWhile blank (rev s)))"

lemma blank_abs: "(\<lambda>c. c \<in> set blanks) = blank"
  by (simp add: blank_def [abs_def])

lemma all_blank_iff: "first_index (\<lambda>c. c \<notin> set blanks) s = None \<longleftrightarrow> list_all blank s"
  by (auto simp: first_index_None list_all_iff blank_def)

lemma front_step:
  "(case find_first_not_of s blanks of Some pos \<Rightarrow> drop pos s | None \<Rightarrow> s) = trim_front s"
  using all_blank_iff [of s] drop_first_index [of "\<lambda>c. c \<notin> set blanks" s]
  by (auto simp: find_first_not_of_def trim_front_def blank_abs split: option.splits)

lemma dot_step:
  "(case find_char s (CHR ''.'') of Some pos \<Rightarrow> take pos s | None \<Rightarrow> s) =
     takeWhile (\<lambda>c. c \<noteq> CHR ''.'') s"
proof (cases "find_char s (CHR ''.'')")
  case None
  then have "\<forall>c \<in> set s. c \<noteq> CHR ''.''"
    by (simp add: find_char_def first_index_None)
  then have "takeWhile (\<lambda>c. c \<noteq> CHR ''.'') s = s"
    by (simp only: takeWhile_eq_all_conv)
  then show ?thesis by (simp only: None option.case)
next
  case (Some i)
  then show ?thesis
    using take_first_index [of "\<lambda>x. x = CHR ''.''" s i] by (simp add: find_char_def)
qed

lemma back_step:
  "(case find_last_not_of s blanks of Some pos \<Rightarrow> take (Suc pos) s | None \<Rightarrow> s) = trim_back s"
  using all_blank_iff [of "rev s"] take_last_index [of "\<lambda>c. c \<notin> set blanks" s]
  by (auto simp: find_last_not_of_def trim_back_def blank_abs split: option.splits)

lemma native_format_eq:
  "native_format str =
     lower_ascii True (trim_back (takeWhile (\<lambda>c. c \<noteq> CHR ''.'') (trim_front str)))"
  by (simp only: native_format_def Let_def front_step dot_step back_step)

lemma tolower_cases:
  "tolower c = c \<or>
   (65 \<le> (of_char c :: nat) \<and> (of_char c :: nat) \<le> 90 \<and>
    of_char (tolower c) = (of_char c :: nat) + 32)"
  by (simp add: tolower_def)

lemma tolower_fixes:
  assumes "(of_char d :: nat) < 65"
  shows "tolower c = d \<longleftrightarrow> c = d"
  using tolower_cases [of c] assms tolower_def [of d] by auto

lemma blank_codes: "blank c \<Longrightarrow> (of_char c :: nat) < 65"
  by (auto simp: blank_def blanks_def)

lemma blank_tolower [simp]: "blank (tolower c) \<longleftrightarrow> blank c"
  using tolower_fixes [of "tolower c" c] tolower_fixes [of c c] blank_codes [of c]
    blank_codes [of "tolower c"]
  by metis

lemma tolower_idem: "tolower (tolower c) = tolower c"
  using tolower_cases [of c] by (auto simp: tolower_def)

lemma printable_tolower [simp]: "printable_ascii (tolower c) \<longleftrightarrow> printable_ascii c"
  using tolower_cases [of c] by (auto simp: printable_ascii_def)

lemma lower_ascii_idem: "lower_ascii a (lower_ascii a s) = lower_ascii a s"
  by (induction s arbitrary: a) (auto simp: tolower_idem)

lemma lower_ascii_blank: "map blank (lower_ascii a s) = map blank s"
  by (induction s arbitrary: a) auto

lemma tolower_dot: "tolower c = CHR ''.'' \<longleftrightarrow> c = CHR ''.''"
  by (rule tolower_fixes) simp

lemma lower_ascii_dot: "CHR ''.'' \<in> set (lower_ascii a s) \<longleftrightarrow> CHR ''.'' \<in> set s"
  by (induction s arbitrary: a) (auto simp: tolower_dot eq_commute [of "CHR ''.''"])

definition trimmed :: "string \<Rightarrow> bool" where
  "trimmed s \<longleftrightarrow> list_all (\<lambda>b. b) (map blank s) \<or>
     (\<not> hd (map blank s) \<and> \<not> last (map blank s))"

lemma trimmed_lower [simp]: "trimmed (lower_ascii a s) \<longleftrightarrow> trimmed s"
  by (simp only: trimmed_def lower_ascii_blank)

lemma trimmed_iff:
  "trimmed s \<longleftrightarrow> list_all blank s \<or> (s \<noteq> [] \<and> \<not> blank (hd s) \<and> \<not> blank (last s))"
  by (cases "s = []") (auto simp: trimmed_def list_all_iff hd_map last_map)

lemma hd_dropWhile_blank: "\<not> list_all blank s \<Longrightarrow> \<not> blank (hd (dropWhile blank s))"
  by (metis dropWhile_eq_Nil_conv hd_dropWhile list_all_iff)

lemma hd_rev_dropWhile:
  "\<not> list_all blank u \<Longrightarrow> hd (rev (dropWhile blank (rev u))) = hd u"
proof -
  assume u: "\<not> list_all blank u"
  have "u = rev (dropWhile blank (rev u)) @ rev (takeWhile blank (rev u))"
    by (metis rev_append rev_rev_ident takeWhile_dropWhile_id)
  moreover have "rev (dropWhile blank (rev u)) \<noteq> []"
    using u by (auto simp: list_all_iff dropWhile_eq_Nil_conv)
  ultimately show ?thesis by (metis hd_append2)
qed

lemma trimmed_trim_back: "list_all blank u \<or> \<not> blank (hd u) \<Longrightarrow> trimmed (trim_back u)"
  using hd_rev_dropWhile [of u] hd_dropWhile_blank [of "rev u"]
  by (auto simp: trimmed_iff trim_back_def last_rev list_all_iff dropWhile_eq_Nil_conv)

lemma hd_takeWhile_front:
  "\<not> list_all blank (takeWhile P (trim_front s)) \<Longrightarrow> \<not> blank (hd (takeWhile P (trim_front s)))"
proof -
  assume nb: "\<not> list_all blank (takeWhile P (trim_front s))"
  then have ne: "takeWhile P (trim_front s) \<noteq> []" by auto
  from nb have s: "\<not> list_all blank s"
    by (auto simp: trim_front_def list_all_iff dest!: set_takeWhileD split: if_splits)
  then have "\<not> blank (hd (trim_front s))"
    by (simp add: trim_front_def hd_dropWhile_blank)
  with ne show ?thesis by (cases "trim_front s") (auto split: if_splits)
qed

lemma trimmed_native_format: "trimmed (native_format s)"
  using hd_takeWhile_front [of "\<lambda>c. c \<noteq> CHR ''.''" s]
  by (auto simp: native_format_eq intro!: trimmed_trim_back)

lemma set_trim_back: "set (trim_back s) \<subseteq> set s"
  by (auto simp: trim_back_def dest: set_dropWhileD)

lemma native_format_no_dot: "CHR ''.'' \<notin> set (native_format s)"
  using set_trim_back set_takeWhileD by (fastforce simp: native_format_eq lower_ascii_dot)

lemma dropWhile_fixed: "s \<noteq> [] \<Longrightarrow> \<not> P (hd s) \<Longrightarrow> dropWhile P s = s"
  by (cases s) auto

lemma trimmed_fixed: "trimmed s \<Longrightarrow> trim_front s = s \<and> trim_back s = s"
  using dropWhile_fixed [of s blank] dropWhile_fixed [of "rev s" blank]
  by (auto simp: trimmed_iff trim_front_def trim_back_def hd_rev)

text \<open>
  The text of a native error is canonical, whatever the operating system says: it holds no full
  stop, has no blank or line end at either end (unless it is all blank), and formatting it again
  changes nothing.
\<close>

theorem native_format_canonical:
  "CHR ''.'' \<notin> set (native_format s) \<and> trimmed (native_format s) \<and>
   native_format (native_format s) = native_format s"
proof -
  let ?t = "native_format s"
  have dot: "takeWhile (\<lambda>c. c \<noteq> CHR ''.'') ?t = ?t"
    using native_format_no_dot [of s] by (auto simp: takeWhile_eq_all_conv)
  have low: "lower_ascii True ?t = ?t"
    by (simp add: native_format_eq lower_ascii_idem)
  have "native_format ?t = ?t"
    using trimmed_fixed [OF trimmed_native_format [of s]] dot low
    by (simp only: native_format_eq [of ?t])
  then show ?thesis
    by (simp add: native_format_no_dot trimmed_native_format)
qed

text \<open>
  The three error numbers of the library have three different texts, none of them the text of
  an unknown number, and a code made from one of them is an error of the domain category.
\<close>

theorem domain_message_distinct:
  "domain_message (ec_value (make_error_code (Ice_errc e))) \<noteq> ''unknown error'' \<and>
   ec_category (make_error_code (Ice_errc e)) = Domain_category \<and>
   failed (make_error_code (Ice_errc e)) \<and>
   (domain_message (ec_value (make_error_code (Ice_errc e))) =
      domain_message (ec_value (make_error_code (Ice_errc f))) \<longleftrightarrow> e = f)"
  by (cases e; cases f) (simp_all add: cast_int_def failed_def)

end
