(* ===== verification/System_Messages.thy ===== *)
theory System_Messages
  imports Errors
begin

text \<open>
  The texts of \<open>system_category::message\<close> in \<open>ice/error.cpp\<close>: a table in the order of the comparisons,
  and what the order does to enumerators that share a number on Linux.
\<close>

text \<open>
  \<open>system_category::message\<close> compares the value with the enumerators of \<open>std::errc\<close> in the order of
  the source and returns the text of the first that matches. The numbers behind the enumerators
  belong to the platform: \<open>errno_of\<close> gives them.
\<close>

datatype (plugins only: ) std_errc =
    Address_family_not_supported
  | Address_in_use
  | Address_not_available
  | Already_connected
  | Argument_list_too_long
  | Argument_out_of_domain
  | Bad_address
  | Bad_file_descriptor
  | Bad_message
  | Broken_pipe
  | Connection_aborted
  | Connection_already_in_progress
  | Connection_refused
  | Connection_reset
  | Cross_device_link
  | Destination_address_required
  | Device_or_resource_busy
  | Directory_not_empty
  | Executable_format_error
  | File_exists
  | File_too_large
  | Filename_too_long
  | Function_not_supported
  | Host_unreachable
  | Identifier_removed
  | Illegal_byte_sequence
  | Inappropriate_io_control_operation
  | Interrupted
  | Invalid_argument
  | Invalid_seek
  | Io_error
  | Is_a_directory
  | Message_size
  | Network_down
  | Network_reset
  | Network_unreachable
  | No_buffer_space
  | No_child_process
  | No_link
  | No_lock_available
  | No_message_available
  | No_message
  | No_protocol_option
  | No_space_on_device
  | No_stream_resources
  | No_such_device_or_address
  | No_such_device
  | No_such_file_or_directory
  | No_such_process
  | Not_a_directory
  | Not_a_socket
  | Not_a_stream
  | Not_connected
  | Not_enough_memory
  | Not_supported
  | Operation_canceled
  | Operation_in_progress
  | Operation_not_permitted
  | Operation_not_supported
  | Operation_would_block
  | Owner_dead
  | Permission_denied
  | Protocol_error
  | Protocol_not_supported
  | Read_only_file_system
  | Resource_deadlock_would_occur
  | Resource_unavailable_try_again
  | Result_out_of_range
  | State_not_recoverable
  | Stream_timeout
  | Text_file_busy
  | Timed_out
  | Too_many_files_open_in_system
  | Too_many_files_open
  | Too_many_links
  | Too_many_symbolic_link_levels
  | Value_too_large
  | Wrong_protocol_type

definition std_errc_order :: "std_errc list" where
  "std_errc_order =
    [Address_family_not_supported,
     Address_in_use,
     Address_not_available,
     Already_connected,
     Argument_list_too_long,
     Argument_out_of_domain,
     Bad_address,
     Bad_file_descriptor,
     Bad_message,
     Broken_pipe,
     Connection_aborted,
     Connection_already_in_progress,
     Connection_refused,
     Connection_reset,
     Cross_device_link,
     Destination_address_required,
     Device_or_resource_busy,
     Directory_not_empty,
     Executable_format_error,
     File_exists,
     File_too_large,
     Filename_too_long,
     Function_not_supported,
     Host_unreachable,
     Identifier_removed,
     Illegal_byte_sequence,
     Inappropriate_io_control_operation,
     Interrupted,
     Invalid_argument,
     Invalid_seek,
     Io_error,
     Is_a_directory,
     Message_size,
     Network_down,
     Network_reset,
     Network_unreachable,
     No_buffer_space,
     No_child_process,
     No_link,
     No_lock_available,
     No_message_available,
     No_message,
     No_protocol_option,
     No_space_on_device,
     No_stream_resources,
     No_such_device_or_address,
     No_such_device,
     No_such_file_or_directory,
     No_such_process,
     Not_a_directory,
     Not_a_socket,
     Not_a_stream,
     Not_connected,
     Not_enough_memory,
     Not_supported,
     Operation_canceled,
     Operation_in_progress,
     Operation_not_permitted,
     Operation_not_supported,
     Operation_would_block,
     Owner_dead,
     Permission_denied,
     Protocol_error,
     Protocol_not_supported,
     Read_only_file_system,
     Resource_deadlock_would_occur,
     Resource_unavailable_try_again,
     Result_out_of_range,
     State_not_recoverable,
     Stream_timeout,
     Text_file_busy,
     Timed_out,
     Too_many_files_open_in_system,
     Too_many_files_open,
     Too_many_links,
     Too_many_symbolic_link_levels,
     Value_too_large,
     Wrong_protocol_type]"

primrec std_errc_text :: "std_errc \<Rightarrow> string" where
  "std_errc_text Address_family_not_supported = ''address family not supported''"
| "std_errc_text Address_in_use = ''address in use''"
| "std_errc_text Address_not_available = ''address not available''"
| "std_errc_text Already_connected = ''already connected''"
| "std_errc_text Argument_list_too_long = ''argument list too long''"
| "std_errc_text Argument_out_of_domain = ''argument out of domain''"
| "std_errc_text Bad_address = ''bad address''"
| "std_errc_text Bad_file_descriptor = ''bad file descriptor''"
| "std_errc_text Bad_message = ''bad message''"
| "std_errc_text Broken_pipe = ''broken pipe''"
| "std_errc_text Connection_aborted = ''connection aborted''"
| "std_errc_text Connection_already_in_progress = ''connection already in progress''"
| "std_errc_text Connection_refused = ''connection refused''"
| "std_errc_text Connection_reset = ''connection reset''"
| "std_errc_text Cross_device_link = ''cross device link''"
| "std_errc_text Destination_address_required = ''destination address required''"
| "std_errc_text Device_or_resource_busy = ''device or resource busy''"
| "std_errc_text Directory_not_empty = ''directory not empty''"
| "std_errc_text Executable_format_error = ''executable format error''"
| "std_errc_text File_exists = ''file exists''"
| "std_errc_text File_too_large = ''file too large''"
| "std_errc_text Filename_too_long = ''filename too long''"
| "std_errc_text Function_not_supported = ''function not supported''"
| "std_errc_text Host_unreachable = ''host unreachable''"
| "std_errc_text Identifier_removed = ''identifier removed''"
| "std_errc_text Illegal_byte_sequence = ''illegal byte sequence''"
| "std_errc_text Inappropriate_io_control_operation = ''inappropriate io control operation''"
| "std_errc_text Interrupted = ''interrupted''"
| "std_errc_text Invalid_argument = ''invalid argument''"
| "std_errc_text Invalid_seek = ''invalid seek''"
| "std_errc_text Io_error = ''io error''"
| "std_errc_text Is_a_directory = ''is a directory''"
| "std_errc_text Message_size = ''message size''"
| "std_errc_text Network_down = ''network down''"
| "std_errc_text Network_reset = ''network reset''"
| "std_errc_text Network_unreachable = ''network unreachable''"
| "std_errc_text No_buffer_space = ''no buffer space''"
| "std_errc_text No_child_process = ''no child process''"
| "std_errc_text No_link = ''no link''"
| "std_errc_text No_lock_available = ''no lock available''"
| "std_errc_text No_message_available = ''no message available''"
| "std_errc_text No_message = ''no message''"
| "std_errc_text No_protocol_option = ''no protocol option''"
| "std_errc_text No_space_on_device = ''no space on device''"
| "std_errc_text No_stream_resources = ''no stream resources''"
| "std_errc_text No_such_device_or_address = ''no such device or address''"
| "std_errc_text No_such_device = ''no such device''"
| "std_errc_text No_such_file_or_directory = ''no such file or directory''"
| "std_errc_text No_such_process = ''no such process''"
| "std_errc_text Not_a_directory = ''not a directory''"
| "std_errc_text Not_a_socket = ''not a socket''"
| "std_errc_text Not_a_stream = ''not a stream''"
| "std_errc_text Not_connected = ''not connected''"
| "std_errc_text Not_enough_memory = ''not enough memory''"
| "std_errc_text Not_supported = ''not supported''"
| "std_errc_text Operation_canceled = ''operation canceled''"
| "std_errc_text Operation_in_progress = ''operation in progress''"
| "std_errc_text Operation_not_permitted = ''operation not permitted''"
| "std_errc_text Operation_not_supported = ''operation not supported''"
| "std_errc_text Operation_would_block = ''operation would block''"
| "std_errc_text Owner_dead = ''owner dead''"
| "std_errc_text Permission_denied = ''permission denied''"
| "std_errc_text Protocol_error = ''protocol error''"
| "std_errc_text Protocol_not_supported = ''protocol not supported''"
| "std_errc_text Read_only_file_system = ''read only file system''"
| "std_errc_text Resource_deadlock_would_occur = ''resource deadlock would occur''"
| "std_errc_text Resource_unavailable_try_again = ''resource unavailable try again''"
| "std_errc_text Result_out_of_range = ''result out of range''"
| "std_errc_text State_not_recoverable = ''state not recoverable''"
| "std_errc_text Stream_timeout = ''stream timeout''"
| "std_errc_text Text_file_busy = ''text file busy''"
| "std_errc_text Timed_out = ''timed out''"
| "std_errc_text Too_many_files_open_in_system = ''too many files open in system''"
| "std_errc_text Too_many_files_open = ''too many files open''"
| "std_errc_text Too_many_links = ''too many links''"
| "std_errc_text Too_many_symbolic_link_levels = ''too many symbolic link levels''"
| "std_errc_text Value_too_large = ''value too large''"
| "std_errc_text Wrong_protocol_type = ''wrong protocol type''"

primrec linux_errno :: "std_errc \<Rightarrow> int" where
  "linux_errno Address_family_not_supported = 97"
| "linux_errno Address_in_use = 98"
| "linux_errno Address_not_available = 99"
| "linux_errno Already_connected = 106"
| "linux_errno Argument_list_too_long = 7"
| "linux_errno Argument_out_of_domain = 33"
| "linux_errno Bad_address = 14"
| "linux_errno Bad_file_descriptor = 9"
| "linux_errno Bad_message = 74"
| "linux_errno Broken_pipe = 32"
| "linux_errno Connection_aborted = 103"
| "linux_errno Connection_already_in_progress = 114"
| "linux_errno Connection_refused = 111"
| "linux_errno Connection_reset = 104"
| "linux_errno Cross_device_link = 18"
| "linux_errno Destination_address_required = 89"
| "linux_errno Device_or_resource_busy = 16"
| "linux_errno Directory_not_empty = 39"
| "linux_errno Executable_format_error = 8"
| "linux_errno File_exists = 17"
| "linux_errno File_too_large = 27"
| "linux_errno Filename_too_long = 36"
| "linux_errno Function_not_supported = 38"
| "linux_errno Host_unreachable = 113"
| "linux_errno Identifier_removed = 43"
| "linux_errno Illegal_byte_sequence = 84"
| "linux_errno Inappropriate_io_control_operation = 25"
| "linux_errno Interrupted = 4"
| "linux_errno Invalid_argument = 22"
| "linux_errno Invalid_seek = 29"
| "linux_errno Io_error = 5"
| "linux_errno Is_a_directory = 21"
| "linux_errno Message_size = 90"
| "linux_errno Network_down = 100"
| "linux_errno Network_reset = 102"
| "linux_errno Network_unreachable = 101"
| "linux_errno No_buffer_space = 105"
| "linux_errno No_child_process = 10"
| "linux_errno No_link = 67"
| "linux_errno No_lock_available = 37"
| "linux_errno No_message_available = 61"
| "linux_errno No_message = 42"
| "linux_errno No_protocol_option = 92"
| "linux_errno No_space_on_device = 28"
| "linux_errno No_stream_resources = 63"
| "linux_errno No_such_device_or_address = 6"
| "linux_errno No_such_device = 19"
| "linux_errno No_such_file_or_directory = 2"
| "linux_errno No_such_process = 3"
| "linux_errno Not_a_directory = 20"
| "linux_errno Not_a_socket = 88"
| "linux_errno Not_a_stream = 60"
| "linux_errno Not_connected = 107"
| "linux_errno Not_enough_memory = 12"
| "linux_errno Not_supported = 95"
| "linux_errno Operation_canceled = 125"
| "linux_errno Operation_in_progress = 115"
| "linux_errno Operation_not_permitted = 1"
| "linux_errno Operation_not_supported = 95"
| "linux_errno Operation_would_block = 11"
| "linux_errno Owner_dead = 130"
| "linux_errno Permission_denied = 13"
| "linux_errno Protocol_error = 71"
| "linux_errno Protocol_not_supported = 93"
| "linux_errno Read_only_file_system = 30"
| "linux_errno Resource_deadlock_would_occur = 35"
| "linux_errno Resource_unavailable_try_again = 11"
| "linux_errno Result_out_of_range = 34"
| "linux_errno State_not_recoverable = 131"
| "linux_errno Stream_timeout = 62"
| "linux_errno Text_file_busy = 26"
| "linux_errno Timed_out = 110"
| "linux_errno Too_many_files_open_in_system = 23"
| "linux_errno Too_many_files_open = 24"
| "linux_errno Too_many_links = 31"
| "linux_errno Too_many_symbolic_link_levels = 40"
| "linux_errno Value_too_large = 75"
| "linux_errno Wrong_protocol_type = 91"

definition system_message :: "(std_errc \<Rightarrow> int) \<Rightarrow> int \<Rightarrow> string" where
  "system_message errno_of ev =
     (case List.find (\<lambda>e. errno_of e = ev) std_errc_order of
        Some e \<Rightarrow> std_errc_text e
      | None \<Rightarrow> ''unknown error'')"

text \<open>
  On Linux every enumerator of the table gets its own text, except the two whose number an
  earlier enumerator has taken: \<open>EOPNOTSUPP\<close> is reported as \<open>ENOTSUP\<close> and \<open>EAGAIN\<close> as \<open>EWOULDBLOCK\<close>.
\<close>

theorem system_message_linux:
  "system_message linux_errno (linux_errno e) =
     (case e of
        Operation_not_supported \<Rightarrow> std_errc_text Not_supported
      | Resource_unavailable_try_again \<Rightarrow> std_errc_text Operation_would_block
      | _ \<Rightarrow> std_errc_text e)"
  by (cases e) (simp_all add: system_message_def std_errc_order_def)

end
