(* ===== verification/Result.thy ===== *)
theory Result
  imports Errors "HOL-Library.Monad_Syntax"
begin

text \<open>
  \<open>ice/result.hpp\<close>: a value or an error code in one union. The storage is modelled with the union's
  active member, destroyed members included, so that a read of a destroyed object is visible:
  \<^const>\<open>None\<close> stands for undefined behaviour or a failed assertion.
\<close>

section \<open>The storage\<close>

datatype 'a slot = Value_alive 'a | Error_alive error_code | Destroyed

record 'a result_storage =
  member :: "'a slot"
  has_value :: bool

definition storage_of_value :: "'a \<Rightarrow> 'a result_storage" where
  "storage_of_value v = \<lparr>member = Value_alive v, has_value = True\<rparr>"

definition storage_of_error :: "error_code \<Rightarrow> 'a result_storage" where
  "storage_of_error e = \<lparr>member = Error_alive e, has_value = False\<rparr>"

text \<open>The destructor destroys the member that \<open>has_value\<close> names.\<close>

fun storage_destroy :: "'a result_storage \<Rightarrow> 'a result_storage option" where
  "storage_destroy s =
     (if has_value s
      then (case member s of Value_alive v \<Rightarrow> Some (s\<lparr>member := Destroyed\<rparr>) | _ \<Rightarrow> None)
      else (case member s of Error_alive e \<Rightarrow> Some (s\<lparr>member := Destroyed\<rparr>) | _ \<Rightarrow> None))"

text \<open>
  Placement new from another storage: the copy and the move constructors. \<open>moved v\<close> is what a move
  leaves behind in the source.
\<close>

fun storage_copy :: "'a result_storage \<Rightarrow> 'a result_storage option" where
  "storage_copy other =
     (if has_value other
      then (case member other of Value_alive v \<Rightarrow> Some (storage_of_value v) | _ \<Rightarrow> None)
      else (case member other of Error_alive e \<Rightarrow> Some (storage_of_error e) | _ \<Rightarrow> None))"

fun storage_move ::
    "('a \<Rightarrow> 'a) \<Rightarrow> 'a result_storage \<Rightarrow> ('a result_storage \<times> 'a result_storage) option" where
  "storage_move moved other =
     (if has_value other
      then (case member other of
              Value_alive v \<Rightarrow> Some (storage_of_value v, other\<lparr>member := Value_alive (moved v)\<rparr>)
            | _ \<Rightarrow> None)
      else (case member other of
              Error_alive e \<Rightarrow> Some (storage_of_error e, other)
            | _ \<Rightarrow> None))"

text \<open>
  The assignment operators work on two objects in memory, which may be the same one: the member of
  the target is destroyed, then \<open>has_value\<close> is copied, then the new member is built from the source.
\<close>

definition storage_assign ::
    "(nat \<Rightarrow> 'a result_storage) \<Rightarrow> nat \<Rightarrow> nat \<Rightarrow> (nat \<Rightarrow> 'a result_storage) option" where
  "storage_assign mem this other =
     do {
       dead \<leftarrow> storage_destroy (mem this);
       let mem1 = mem(this := dead);
       let mem2 = mem1(this := (mem1 this)\<lparr>has_value := has_value (mem1 other)\<rparr>);
       new \<leftarrow> storage_copy (mem2 other);
       Some (mem2(this := new))
     }"

definition storage_move_assign ::
    "('a \<Rightarrow> 'a) \<Rightarrow> (nat \<Rightarrow> 'a result_storage) \<Rightarrow> nat \<Rightarrow> nat \<Rightarrow>
     (nat \<Rightarrow> 'a result_storage) option" where
  "storage_move_assign moved mem this other =
     do {
       dead \<leftarrow> storage_destroy (mem this);
       let mem1 = mem(this := dead);
       let mem2 = mem1(this := (mem1 this)\<lparr>has_value := has_value (mem1 other)\<rparr>);
       (new, left) \<leftarrow> storage_move moved (mem2 other);
       Some ((mem2(other := left))(this := new))
     }"

definition storage_wf :: "'a result_storage \<Rightarrow> bool" where
  "storage_wf s \<longleftrightarrow> (\<exists>v. s = storage_of_value v) \<or> (\<exists>e. s = storage_of_error e)"

section \<open>The class\<close>

fun res_deref :: "'a result_storage \<Rightarrow> 'a option" where
  "res_deref r =
     (if has_value r then (case member r of Value_alive v \<Rightarrow> Some v | _ \<Rightarrow> None) else None)"

datatype exception = System_error error_code string

text \<open>\<open>value()\<close> throws, when exceptions are on; the outer option is the read of the union.\<close>

fun res_value :: "'a result_storage \<Rightarrow> (exception + 'a) option" where
  "res_value r =
     (if \<not> has_value r
      then (case member r of
              Error_alive e \<Rightarrow> Some (Inl (System_error e ''bad result''))
            | _ \<Rightarrow> None)
      else (case member r of Value_alive v \<Rightarrow> Some (Inr v) | _ \<Rightarrow> None))"

fun res_error :: "'a result_storage \<Rightarrow> error_code option" where
  "res_error r =
     (if has_value r then Some no_error
      else (case member r of Error_alive e \<Rightarrow> Some e | _ \<Rightarrow> None))"

text \<open>The comparisons; \<open>eq\<close> and \<open>ne\<close> are the operators of the value types.\<close>

definition res_eq ::
    "('a \<Rightarrow> 'b \<Rightarrow> bool) \<Rightarrow> 'a result_storage \<Rightarrow> 'b result_storage \<Rightarrow> bool option" where
  "res_eq eq lhs rhs =
     (if has_value lhs \<noteq> has_value rhs then Some False
      else if \<not> has_value lhs
      then do { e \<leftarrow> res_error lhs; f \<leftarrow> res_error rhs; Some (e = f) }
      else do { v \<leftarrow> res_deref lhs; w \<leftarrow> res_deref rhs; Some (eq v w) })"

definition res_ne ::
    "('a \<Rightarrow> 'b \<Rightarrow> bool) \<Rightarrow> 'a result_storage \<Rightarrow> 'b result_storage \<Rightarrow> bool option" where
  "res_ne ne lhs rhs =
     (if has_value lhs \<noteq> has_value rhs then Some True
      else if \<not> has_value lhs
      then do { e \<leftarrow> res_error lhs; f \<leftarrow> res_error rhs; Some (e \<noteq> f) }
      else do { v \<leftarrow> res_deref lhs; w \<leftarrow> res_deref rhs; Some (ne v w) })"

definition res_eq_value :: "('a \<Rightarrow> 'u \<Rightarrow> bool) \<Rightarrow> 'a result_storage \<Rightarrow> 'u \<Rightarrow> bool option" where
  "res_eq_value eq x v = (if has_value x then map_option (\<lambda>w. eq w v) (res_deref x) else Some False)"

definition res_ne_value :: "('a \<Rightarrow> 'u \<Rightarrow> bool) \<Rightarrow> 'a result_storage \<Rightarrow> 'u \<Rightarrow> bool option" where
  "res_ne_value ne x v = (if has_value x then map_option (\<lambda>w. ne w v) (res_deref x) else Some True)"

definition res_eq_error :: "'a result_storage \<Rightarrow> error_code \<Rightarrow> bool option" where
  "res_eq_error x e = (if has_value x then Some False else map_option (\<lambda>f. f = e) (res_error x))"

section \<open>The specialisation for \<open>void\<close>\<close>

text \<open>\<open>has_value_\<close> has the default initialiser \<open>true\<close>, and no constructor overrides it.\<close>

record void_result =
  vr_has_value :: bool
  vr_error :: error_code

definition void_result_ok :: void_result where
  "void_result_ok = \<lparr>vr_has_value = True, vr_error = no_error\<rparr>"

definition void_result_of_error :: "error_code \<Rightarrow> void_result" where
  "void_result_of_error e = \<lparr>vr_has_value = True, vr_error = e\<rparr>"

definition void_result_value :: "void_result \<Rightarrow> exception + unit" where
  "void_result_value r =
     (if \<not> vr_has_value r then Inl (System_error (vr_error r) ''bad result'') else Inr ())"

section \<open>What a result holds\<close>

text \<open>The abstraction of a storage: an error code or a value, and nothing once it is destroyed.\<close>

fun res_view :: "'a result_storage \<Rightarrow> (error_code + 'a) option" where
  "res_view s =
     (case member s of
        Value_alive v \<Rightarrow> if has_value s then Some (Inr v) else None
      | Error_alive e \<Rightarrow> if has_value s then None else Some (Inl e)
      | Destroyed \<Rightarrow> None)"

lemma storage_wf_view: "storage_wf s \<longleftrightarrow> res_view s \<noteq> None"
  by (cases s; cases "member s")
     (auto simp: storage_wf_def storage_of_value_def storage_of_error_def)

lemma view_of_value [simp]: "res_view (storage_of_value v) = Some (Inr v)"
  by (simp add: storage_of_value_def)

lemma view_of_error [simp]: "res_view (storage_of_error e) = Some (Inl e)"
  by (simp add: storage_of_error_def)

lemma wf_of_value [simp]: "storage_wf (storage_of_value v)"
  by (auto simp: storage_wf_def)

lemma wf_of_error [simp]: "storage_wf (storage_of_error e)"
  by (auto simp: storage_wf_def)

declare res_view.simps [simp del]

lemma storage_cases [consumes 1, case_names ok bad]:
  assumes "storage_wf s"
  obtains (ok) v where "s = storage_of_value v" | (bad) e where "s = storage_of_error e"
  using assms by (auto simp: storage_wf_def)

lemma storage_destroy_wf:
  "storage_wf s \<Longrightarrow> storage_destroy s = Some \<lparr>member = Destroyed, has_value = has_value s\<rparr>"
  by (cases s rule: storage_cases) (simp_all add: storage_of_value_def storage_of_error_def)

lemma storage_copy_wf: "storage_wf s \<Longrightarrow> storage_copy s = Some s"
  by (cases s rule: storage_cases) (simp_all add: storage_of_value_def storage_of_error_def)

lemma storage_copy_destroyed: "storage_copy \<lparr>member = Destroyed, has_value = h\<rparr> = None"
  by simp

lemma storage_move_destroyed: "storage_move moved \<lparr>member = Destroyed, has_value = h\<rparr> = None"
  by simp

lemmas storage_steps =
  storage_destroy_wf storage_copy_wf storage_copy_destroyed storage_move_destroyed

declare storage_destroy.simps [simp del] storage_copy.simps [simp del] storage_move.simps [simp del]

text \<open>
  Assigning one result to another copies it, whatever the two hold: the target then holds what
  the source holds, and no other object changes.
\<close>

theorem storage_assign_copies:
  assumes "storage_wf (mem a)" and "storage_wf (mem b)" and "a \<noteq> b"
  shows "storage_assign mem a b = Some (mem(a := mem b))"
  using assms by (simp add: storage_assign_def Let_def storage_steps)

theorem storage_assign_copies_witness:
  "storage_assign ((\<lambda>_. storage_of_value (3::int))(1 := storage_of_error no_error)) 0 1 =
     Some ((\<lambda>_. storage_of_value 3)(1 := storage_of_error no_error, 0 := storage_of_error no_error))"
  by (subst storage_assign_copies) auto

text \<open>
  Assigning a result to itself is undefined: the operators do not test for it, destroy the
  member and then construct the new one from the destroyed one.
\<close>

theorem storage_self_assign_undefined:
  assumes "storage_wf (mem a)"
  shows "storage_assign mem a a = None \<and> storage_move_assign moved mem a a = None"
  using assms by (simp add: storage_assign_def storage_move_assign_def Let_def storage_steps)

theorem storage_self_assign_undefined_witness:
  "storage_assign (\<lambda>_. storage_of_value (3::int)) 0 0 = None \<and>
   storage_move_assign id (\<lambda>_. storage_of_value (3::int)) 0 0 = None"
  by (rule storage_self_assign_undefined) simp

text \<open>
  Two results are equal exactly when they hold the same: both a value and the values are equal,
  or both the same error; and \<open>!=\<close> is the negation of \<open>==\<close>.
\<close>

theorem res_eq_view:
  assumes "storage_wf l" and "storage_wf r"
  shows "res_eq (=) l r = Some (res_view l = res_view r) \<and>
         res_ne (\<noteq>) l r = map_option Not (res_eq (=) l r)"
  using assms
  by (auto simp: storage_wf_def res_eq_def res_ne_def storage_of_value_def storage_of_error_def
        res_view.simps)

theorem res_eq_view_witness:
  "res_eq (=) (storage_of_value (3::int)) (storage_of_error no_error) = Some False \<and>
   res_ne (\<noteq>) (storage_of_value (3::int)) (storage_of_error no_error) = Some True"
  using res_eq_view [of "storage_of_value (3::int)" "storage_of_error no_error"] by auto

text \<open>
  \<open>value()\<close> of a live result gives the value or throws the error it holds, never anything else,
  and \<open>error()\<close> is the error held, or no error; an error whose value is zero still throws.
\<close>

theorem res_value_error:
  assumes "storage_wf r"
  shows "(\<exists>v. res_view r = Some (Inr v) \<and> res_value r = Some (Inr v) \<and>
              res_error r = Some no_error \<and> res_deref r = Some v) \<or>
         (\<exists>e. res_view r = Some (Inl e) \<and> res_deref r = None \<and> res_error r = Some e \<and>
              res_value r = Some (Inl (System_error e ''bad result'')))"
  using assms
  by (cases r rule: storage_cases)
     (auto simp: storage_of_value_def storage_of_error_def res_view.simps)

theorem res_value_error_witness:
  "res_value (storage_of_error no_error :: int result_storage) =
     Some (Inl (System_error no_error ''bad result''))"
  using res_value_error [of "storage_of_error no_error :: int result_storage"]
  by (simp del: res_value.simps)

text \<open>
  A \<open>result<void>\<close> made from an error claims to hold a value: the test is true and \<open>value()\<close> does
  not throw, although \<open>error()\<close> returns the error. A \<open>result\<close> of any other type made from the same
  error reports it.
\<close>

theorem void_result_hides_error:
  "vr_has_value (void_result_of_error e) \<and> void_result_value (void_result_of_error e) = Inr () \<and>
   vr_error (void_result_of_error e) = e \<and>
   \<not> has_value (storage_of_error e :: 'a result_storage) \<and>
   res_value (storage_of_error e :: 'a result_storage) =
     Some (Inl (System_error e ''bad result''))"
  by (simp add: void_result_of_error_def void_result_value_def storage_of_error_def)

end
