(* ===== verification/Result_Copies.thy ===== *)
theory Result_Copies
  imports Result
begin

text \<open>
  Which copies and moves \<open>result<T>\<close> has (\<open>ice/result.hpp\<close>, with the base classes \<open>delete_...\<close> of
  \<open>ice/utility.hpp\<close>), and which constructor a copy selects: the variadic constructor takes part in the
  choice, and wins where its parameter fits better.
\<close>

section \<open>Special members\<close>

text \<open>
  A special member can be used, is deleted explicitly, or is defaulted but defined as deleted. Overload
  resolution selects a member that is deleted explicitly, which is then an error, but ignores a move
  operation that is defaulted and deleted: an rvalue is then copied.
\<close>

datatype special = Move_constructor | Copy_constructor | Move_assignment | Copy_assignment

datatype availability = Usable | Deleted | Ignored

type_synonym members = "special \<Rightarrow> availability"

fun copy_of :: "special \<Rightarrow> special" where
  "copy_of Move_constructor = Copy_constructor"
| "copy_of Move_assignment = Copy_assignment"
| "copy_of m = m"

text \<open>
  \<open>supports\<close> is what the traits \<open>is_move_constructible_v\<close> and so on test: that the operation from an
  rvalue, or from a constant lvalue, selects a member that can be used.
\<close>

definition supports :: "members \<Rightarrow> special \<Rightarrow> bool" where
  "supports c m \<longleftrightarrow> c m = Usable \<or> c m = Ignored \<and> c (copy_of m) = Usable"

text \<open>The four base classes; the argument is the trait, their second template parameter.\<close>

definition delete_move_constructor :: "bool \<Rightarrow> members" where
  "delete_move_constructor trait = (\<lambda>_. Usable)(Move_constructor := if trait then Usable else Deleted)"

definition delete_copy_constructor :: "bool \<Rightarrow> members" where
  "delete_copy_constructor trait = (\<lambda>_. Usable)(Copy_constructor := if trait then Usable else Deleted)"

definition delete_move_assignment :: "bool \<Rightarrow> members" where
  "delete_move_assignment trait = (\<lambda>_. Usable)(Move_assignment := if trait then Usable else Deleted)"

definition delete_copy_assignment :: "bool \<Rightarrow> members" where
  "delete_copy_assignment trait = (\<lambda>_. Usable)(Copy_assignment := if trait then Usable else Deleted)"

text \<open>
  Members defaulted on their first declaration, in a class with given subobjects: usable if every
  subobject supports them, otherwise deleted; of these the move operations are ignored.
\<close>

definition defaulted :: "members list \<Rightarrow> members" where
  "defaulted subobjects m =
     (if \<forall>c\<in>set subobjects. supports c m then Usable
      else if m = Move_constructor \<or> m = Move_assignment then Ignored else Deleted)"

text \<open>The storage defines all four members itself; \<open>result<void>\<close> has only trivial members.\<close>

definition storage_members :: members where
  "storage_members = (\<lambda>_. Usable)"

definition result_members :: "members \<Rightarrow> members" where
  "result_members T =
     defaulted
       [delete_move_constructor (supports T Move_constructor),
        delete_copy_constructor (supports T Copy_constructor),
        delete_move_assignment (supports T Move_assignment),
        delete_copy_assignment (supports T Copy_assignment),
        storage_members]"

lemma supports_mixins [simp]:
  "supports (delete_move_constructor t) m \<longleftrightarrow> (m = Move_constructor \<longrightarrow> t)"
  "supports (delete_copy_constructor t) m \<longleftrightarrow> (m = Copy_constructor \<longrightarrow> t)"
  "supports (delete_move_assignment t) m \<longleftrightarrow> (m = Move_assignment \<longrightarrow> t)"
  "supports (delete_copy_assignment t) m \<longleftrightarrow> (m = Copy_assignment \<longrightarrow> t)"
  "supports storage_members m"
  by (simp_all add: supports_def storage_members_def delete_move_constructor_def
      delete_copy_constructor_def delete_move_assignment_def delete_copy_assignment_def)

text \<open>
  A result can be copied exactly when its value can; it can be moved when its value can be moved or
  copied, so also when the value's move operation is deleted and its copy is not.
\<close>

theorem result_supports:
  "supports (result_members T) m \<longleftrightarrow> supports T m \<or> supports T (copy_of m)"
  by (cases m; simp add: result_members_def defaulted_def supports_def [of "defaulted _"])

corollary result_supports_same:
  "(supports T (copy_of m) \<Longrightarrow> supports T m) \<Longrightarrow> supports (result_members T) m \<longleftrightarrow> supports T m"
  by (auto simp: result_supports)

lemma result_moves_by_copy:
  assumes "T Move_constructor = Deleted" and "T Copy_constructor = Usable"
  shows "supports (result_members T) Move_constructor" and "\<not> supports T Move_constructor"
  using assms by (simp_all add: result_supports) (simp_all add: supports_def)

section \<open>The constructor that a copy selects\<close>

text \<open>
  The argument is another result of the same type, of one of the value categories. The variadic
  constructor takes part when the value type can be constructed from such an argument. Its parameter
  is then a reference of exactly that type: it is the better choice for a modifiable lvalue, since the copy
  constructor adds \<open>const\<close>, and for a constant rvalue, since the copy constructor's parameter is an lvalue
  reference. In the other two cases a constructor that is not a template has the same parameter.
\<close>

datatype category = Lvalue | Const_lvalue | Rvalue | Const_rvalue

definition variadic_wins :: "category \<Rightarrow> bool" where
  "variadic_wins c \<longleftrightarrow> c = Lvalue \<or> c = Const_rvalue"

text \<open>
  \<open>conversion\<close> is how a value is constructed from a result, \<^const>\<open>None\<close> if it is not: direct
  initialisation considers \<open>explicit operator bool\<close>, but only for the type \<open>bool\<close>. The second component is
  the argument afterwards.
\<close>

definition result_of_result ::
    "('a result_storage \<Rightarrow> 'a) option \<Rightarrow> ('a \<Rightarrow> 'a) \<Rightarrow> category \<Rightarrow> 'a result_storage \<Rightarrow>
     ('a result_storage \<times> 'a result_storage) option" where
  "result_of_result conversion moved c other =
     (if variadic_wins c \<and> conversion \<noteq> None
      then map_option (\<lambda>convert. (storage_of_value (convert other), other)) conversion
      else if c = Rvalue then storage_move moved other
      else map_option (\<lambda>new. (new, other)) (storage_copy other))"

definition bool_conversion :: "(bool result_storage \<Rightarrow> bool) option" where
  "bool_conversion = Some has_value"

lemma has_value_made [simp]: "has_value (storage_of_value v)" "\<not> has_value (storage_of_error e)"
  by (simp_all add: storage_of_value_def storage_of_error_def)

lemma storage_move_wf: "storage_wf s \<Longrightarrow> \<exists>left. storage_move moved s = Some (s, left)"
  by (cases s rule: storage_cases)
     (simp_all add: storage_of_value_def storage_of_error_def storage_move.simps)

text \<open>
  A result made from another result of its type holds what that one held, as long as values can not
  be constructed from results. But \<open>bool\<close> can: a \<open>result<bool>\<close> made from a modifiable one, or from a
  constant rvalue, instead holds whether the other holds a value: an error becomes the value false, and
  the value false becomes true.
\<close>

theorem result_copy_exact:
  assumes "storage_wf other" and "storage_wf b"
  shows "(\<exists>left. result_of_result None moved c other = Some (other, left)) \<and>
         (\<exists>left. result_of_result bool_conversion id c b =
            Some (if c = Lvalue \<or> c = Const_rvalue then storage_of_value (has_value b) else b, left))"
proof -
  from storage_move_wf [OF assms(1)] have
    "\<exists>left. result_of_result None moved c other = Some (other, left)"
    using assms(1) by (simp add: result_of_result_def storage_copy_wf)
  moreover from storage_move_wf [OF assms(2)] have
    "\<exists>left. result_of_result bool_conversion id c b =
       Some (if c = Lvalue \<or> c = Const_rvalue then storage_of_value (has_value b) else b, left)"
    using assms(2) by (simp add: result_of_result_def bool_conversion_def variadic_wins_def storage_copy_wf)
  ultimately show ?thesis by blast
qed

theorem result_copy_exact_witness:
  "(\<exists>left. result_of_result bool_conversion id Lvalue (storage_of_value False) = Some (storage_of_value True, left)) \<and>
   (\<exists>left. result_of_result bool_conversion id Lvalue (storage_of_error no_error) = Some (storage_of_value False, left)) \<and>
   (\<exists>left. result_of_result bool_conversion id Const_lvalue (storage_of_value False) = Some (storage_of_value False, left))"
  using result_copy_exact [OF wf_of_value [of "0::int"] wf_of_value [of False], of id Lvalue]
    result_copy_exact [OF wf_of_value [of "0::int"] wf_of_error [of no_error], of id Lvalue]
    result_copy_exact [OF wf_of_value [of "0::int"] wf_of_value [of False], of id Const_lvalue]
  by simp

end
