(* ===== verification/Process_Path.thy ===== *)
theory Process_Path
  imports Prelude
begin

text \<open>
  \<open>process::path\<close> (\<open>ice/process.cpp\<close>) on the three systems. Paths are lists of characters; the calls of the
  system, and \<open>canonical\<close> of the standard library, are parameters.
\<close>

section \<open>Windows\<close>

text \<open>
  \<open>GetModuleFileNameW\<close> with a buffer of a given size, when the last error of the thread is the second
  argument: the buffer and the size it returns, and the last error afterwards. The loop grows the
  buffer by \<open>MAX_PATH\<close> as long as the last error says that it was too small.
\<close>

type_synonym 'c module_file_name = "nat \<Rightarrow> int \<Rightarrow> 'c list \<times> nat \<times> int"

definition max_path :: nat where
  "max_path = 260"

definition insufficient_buffer :: int where
  "insufficient_buffer = 122"

partial_function (option) module_path_loop ::
    "'c module_file_name \<Rightarrow> nat \<Rightarrow> int \<Rightarrow> ('c list \<times> nat) option" where
  "module_path_loop get n err =
     (let (str, k, err') = get (n + max_path) err
      in if err' = insufficient_buffer then module_path_loop get (n + max_path) err' else Some (str, k))"

definition windows_path ::
    "('c list \<Rightarrow> 'x + 'c list) \<Rightarrow> 'c module_file_name \<Rightarrow> int \<Rightarrow> ('x + 'c list) option" where
  "windows_path canonical get err =
     (case module_path_loop get 0 err of
        None \<Rightarrow> None
      | Some (str, n) \<Rightarrow> Some (canonical (take n str)))"

text \<open>
  What the documentation says of the call, for the path \<open>p\<close>: a buffer that also has room for the
  terminating zero receives the path, and its length is returned; a smaller one is filled with the
  beginning of the path, its size is returned, and the last error is set. Whether a call that succeeds
  touches the last error is not said: it becomes \<open>reset err\<close>.
\<close>

definition documented :: "'c list \<Rightarrow> 'c \<Rightarrow> (int \<Rightarrow> int) \<Rightarrow> 'c module_file_name" where
  "documented p zero reset n err =
     (if length p < n then (p @ replicate (n - length p) zero, length p, reset err)
      else (take (n - 1) p @ [zero], n, insufficient_buffer))"

lemma module_path_found:
  assumes "\<And>err. reset err \<noteq> insufficient_buffer"
  shows "\<exists>fill. module_path_loop (documented p zero reset) n err = Some (p @ fill, length p)"
proof (induction "length p - n" arbitrary: n err rule: less_induct)
  case less
  show ?case
  proof (cases "length p < n + max_path")
    case True
    with assms show ?thesis by (subst module_path_loop.simps) (auto simp: documented_def)
  next
    case False
    then have "length p - (n + max_path) < length p - n" by (simp add: max_path_def)
    from less [OF this] False show ?thesis by (subst module_path_loop.simps) (auto simp: documented_def)
  qed
qed

text \<open>If calls that succeed clear the last error, every path is found, in buffers however small.\<close>

lemma windows_path_found:
  assumes "\<And>err. reset err \<noteq> insufficient_buffer"
  shows "windows_path canonical (documented p zero reset) err = Some (canonical p)"
  using module_path_found [of reset p zero 0 err, OF assms] by (auto simp: windows_path_def)

text \<open>
  If they leave it alone, a path that fits into the first buffer is found, unless the last error was
  already that of a small buffer. Otherwise the error of the first call stays, and the loop goes on
  growing the buffer: it has no end of its own.
\<close>

lemma module_path_stale:
  assumes "reset insufficient_buffer = insufficient_buffer"
  shows "module_path_loop (documented p zero reset) n insufficient_buffer = None"
proof -
  have "\<not> (get = documented p zero reset \<and> err = insufficient_buffer)"
    if "module_path_loop get n err = Some y" for get n err y
  proof (rule module_path_loop.raw_induct
      [where P = "\<lambda>get n err y. \<not> (get = documented p zero reset \<and> err = insufficient_buffer)", OF _ that])
    fix loop :: "'a module_file_name \<Rightarrow> nat \<Rightarrow> int \<Rightarrow> ('a list \<times> nat) option" and get n err y
    assume "\<And>get n err y. loop get n err = Some y \<Longrightarrow>
        \<not> (get = documented p zero reset \<and> err = insufficient_buffer)"
      and "(let (str, k, err') = get (n + max_path) err
            in if err' = insufficient_buffer then loop get (n + max_path) err' else Some (str, k)) = Some y"
    then show "\<not> (get = documented p zero reset \<and> err = insufficient_buffer)"
      using assms by (fastforce simp: documented_def split: if_splits)
  qed
  then show ?thesis by (metis not_None_eq)
qed

lemma windows_long_path_runs_on:
  assumes "reset insufficient_buffer = insufficient_buffer" and "max_path \<le> length p"
  shows "windows_path canonical (documented p zero reset) err = None"
proof -
  have "module_path_loop (documented p zero reset) 0 err = None"
    using assms(2) module_path_stale [of reset, OF assms(1)]
    by (subst module_path_loop.simps) (simp add: documented_def)
  then show ?thesis by (simp add: windows_path_def)
qed

section \<open>Linux\<close>

text \<open>The path is empty when \<open>realpath\<close> fails; the string it allocates is freed.\<close>

definition linux_path :: "'c list option \<Rightarrow> 'c list" where
  "linux_path realpath = (case realpath of None \<Rightarrow> [] | Some str \<Rightarrow> str)"

section \<open>FreeBSD\<close>

text \<open>
  Two calls of \<open>sysctl\<close>: the first with no buffer tells the size, the second, with a buffer of a given
  size, the size and the buffer.
\<close>

definition freebsd_path :: "int \<times> nat \<Rightarrow> (nat \<Rightarrow> int \<times> nat \<times> 'c list) \<Rightarrow> 'c list" where
  "freebsd_path first second =
     (let (rc, len) = first
      in if rc = 0
         then (let (rc', len', str) = second len
               in if rc' = 0 then take (if len' > 0 then len' - 1 else 0) str else [])
         else [])"

text \<open>\<open>sysctl\<close> as documented: the size counts the terminating zero, and a small buffer is an error.\<close>

definition sysctl_path :: "'c list \<Rightarrow> 'c \<Rightarrow> nat \<Rightarrow> int \<times> nat \<times> 'c list" where
  "sysctl_path p zero n =
     (if length p < n then (0, Suc (length p), p @ [zero] @ replicate (n - Suc (length p)) zero) else (-1, n, take n p))"

text \<open>
  The path is found; when the program is renamed between the two calls, the new name is found if it is
  not longer than the old one, and otherwise the path is empty.
\<close>

lemma freebsd_path_found:
  "freebsd_path (0, Suc (length p)) (sysctl_path q zero) = (if length q \<le> length p then q else [])"
  by (simp add: freebsd_path_def sysctl_path_def)

end
