(* ===== verification/Handle.thy ===== *)
theory Handle
  imports Prelude "HOL-Library.Multiset"
begin

text \<open>
  \<open>ice/handle.hpp\<close>: the owning handle every descriptor of the library lives in. Handle objects are
  addressed, so that an operation may name the same object twice; the state records which objects
  are alive, the raw value each one holds, and every call of the close functor \<open>C\<close>.
\<close>

section \<open>Handle objects\<close>

record 'h handles =
  obj :: "addr \<rightharpoonup> 'h"
  closed :: "'h list"

definition no_handles :: "'h handles" where
  "no_handles = \<lparr>obj = Map.empty, closed = []\<rparr>"

definition hvalid :: "'h \<Rightarrow> 'h \<Rightarrow> bool" where
  "hvalid invalid value \<longleftrightarrow> value \<noteq> invalid"

definition hstore :: "addr \<Rightarrow> 'h \<Rightarrow> 'h handles \<Rightarrow> 'h handles" where
  "hstore a v w = w\<lparr>obj := (obj w)(a \<mapsto> v)\<rparr>"

text \<open>\<open>C{}(*this)\<close>, guarded by \<open>valid()\<close> as in \<open>reset\<close>.\<close>

definition hclose :: "'h \<Rightarrow> 'h \<Rightarrow> 'h handles \<Rightarrow> 'h handles" where
  "hclose invalid v w = (if hvalid invalid v then w\<lparr>closed := closed w @ [v]\<rparr> else w)"

text \<open>
  Constructors need raw storage, every other operation a live object; \<^const>\<open>None\<close> is the undefined
  behaviour of breaking that.
\<close>

definition handle_default :: "'h \<Rightarrow> addr \<Rightarrow> 'h handles \<Rightarrow> 'h handles option" where
  "handle_default invalid a w = (if obj w a = None then Some (hstore a invalid w) else None)"

definition handle_of_value :: "addr \<Rightarrow> 'h \<Rightarrow> 'h handles \<Rightarrow> 'h handles option" where
  "handle_of_value a v w = (if obj w a = None then Some (hstore a v w) else None)"

definition handle_release :: "'h \<Rightarrow> addr \<Rightarrow> 'h handles \<Rightarrow> ('h \<times> 'h handles) option" where
  "handle_release invalid a w =
     (case obj w a of None \<Rightarrow> None | Some value \<Rightarrow> Some (value, hstore a invalid w))"

definition handle_move :: "'h \<Rightarrow> addr \<Rightarrow> addr \<Rightarrow> 'h handles \<Rightarrow> 'h handles option" where
  "handle_move invalid a other w =
     (case handle_release invalid other w of
        None \<Rightarrow> None
      | Some (value, w1) \<Rightarrow> handle_of_value a value w1)"

definition handle_swap :: "addr \<Rightarrow> addr \<Rightarrow> 'h handles \<Rightarrow> 'h handles option" where
  "handle_swap a other w =
     (case obj w other of
        None \<Rightarrow> None
      | Some value \<Rightarrow>
          (case obj w a of
             None \<Rightarrow> None
           | Some mine \<Rightarrow> Some (hstore a value (hstore other mine w))))"

definition handle_reset :: "'h \<Rightarrow> addr \<Rightarrow> 'h \<Rightarrow> 'h handles \<Rightarrow> 'h handles option" where
  "handle_reset invalid a value w =
     (case obj w a of None \<Rightarrow> None | Some mine \<Rightarrow> Some (hstore a value (hclose invalid mine w)))"

definition handle_destroy :: "'h \<Rightarrow> addr \<Rightarrow> 'h handles \<Rightarrow> 'h handles option" where
  "handle_destroy invalid a w =
     (case handle_reset invalid a invalid w of
        None \<Rightarrow> None
      | Some w1 \<Rightarrow> Some (w1\<lparr>obj := (obj w1)(a := None)\<rparr>))"

text \<open>
  Move assignment: a temporary takes the value of \<open>other\<close>, swaps it with that of the target, and its
  destructor closes what the target held. The temporary is the local variable \<open>value\<close>, then \<open>old\<close>.
\<close>

definition handle_assign :: "'h \<Rightarrow> addr \<Rightarrow> addr \<Rightarrow> 'h handles \<Rightarrow> 'h handles option" where
  "handle_assign invalid a other w =
     (case handle_release invalid other w of
        None \<Rightarrow> None
      | Some (value, w1) \<Rightarrow>
          (case obj w1 a of
             None \<Rightarrow> None
           | Some old \<Rightarrow> Some (hclose invalid old (hstore a value w1))))"

section \<open>Sequences of operations\<close>

datatype 'h handle_op =
    Default addr
  | Of_value addr 'h
  | Move addr addr
  | Assign addr addr
  | Swap addr addr
  | Release addr
  | Reset addr 'h
  | Destroy addr

text \<open>
  The ghost part of a run: the resources handed to handles so far and those released to the caller.
\<close>

record 'h accounts = "'h handles" +
  acquired :: "'h list"
  released :: "'h list"

definition lift_op ::
    "('h handles \<Rightarrow> 'h handles option) \<Rightarrow> 'h accounts \<Rightarrow> 'h accounts option" where
  "lift_op f s =
     (case f (handles.truncate s) of
        None \<Rightarrow> None
      | Some w \<Rightarrow> Some (s\<lparr>obj := obj w, closed := closed w\<rparr>))"

definition gain :: "'h \<Rightarrow> 'h \<Rightarrow> 'h accounts \<Rightarrow> 'h accounts" where
  "gain invalid v s = (if hvalid invalid v then s\<lparr>acquired := acquired s @ [v]\<rparr> else s)"

fun handle_step :: "'h \<Rightarrow> 'h accounts \<Rightarrow> 'h handle_op \<Rightarrow> 'h accounts option" where
  "handle_step i s (Default a) = lift_op (handle_default i a) s"
| "handle_step i s (Of_value a v) = map_option (gain i v) (lift_op (handle_of_value a v) s)"
| "handle_step i s (Move a b) = lift_op (handle_move i a b) s"
| "handle_step i s (Assign a b) = lift_op (handle_assign i a b) s"
| "handle_step i s (Swap a b) = lift_op (handle_swap a b) s"
| "handle_step i s (Release a) =
     (case handle_release i a (handles.truncate s) of
        None \<Rightarrow> None
      | Some (v, w) \<Rightarrow>
          Some (if hvalid i v then s\<lparr>obj := obj w, released := released s @ [v]\<rparr>
                else s\<lparr>obj := obj w\<rparr>))"
| "handle_step i s (Reset a v) = map_option (gain i v) (lift_op (handle_reset i a v) s)"
| "handle_step i s (Destroy a) = lift_op (handle_destroy i a) s"

fun handle_run :: "'h \<Rightarrow> 'h accounts \<Rightarrow> 'h handle_op list \<Rightarrow> 'h accounts option" where
  "handle_run i s [] = Some s"
| "handle_run i s (p # ps) =
     (case handle_step i s p of None \<Rightarrow> None | Some t \<Rightarrow> handle_run i t ps)"

definition start_accounts :: "'h accounts" where
  "start_accounts = \<lparr>obj = Map.empty, closed = [], acquired = [], released = []\<rparr>"

text \<open>The resources that operations bring in: the operating system never hands one out twice.\<close>

fun op_gains :: "'h \<Rightarrow> 'h handle_op \<Rightarrow> 'h list" where
  "op_gains i (Of_value a v) = (if hvalid i v then [v] else [])"
| "op_gains i (Reset a v) = (if hvalid i v then [v] else [])"
| "op_gains i _ = []"

definition run_gains :: "'h \<Rightarrow> 'h handle_op list \<Rightarrow> 'h list" where
  "run_gains i ps = concat (map (op_gains i) ps)"

section \<open>Ownership\<close>

definition held :: "'h \<Rightarrow> (addr \<rightharpoonup> 'h) \<Rightarrow> 'h set" where
  "held i m = {v. hvalid i v \<and> (\<exists>a. m a = Some v)}"

definition sole_owner :: "'h \<Rightarrow> (addr \<rightharpoonup> 'h) \<Rightarrow> bool" where
  "sole_owner i m \<longleftrightarrow>
     (\<forall>a b v. m a = Some v \<longrightarrow> m b = Some v \<longrightarrow> hvalid i v \<longrightarrow> a = b)"

text \<open>
  The invariant: every valid value is held by one object at most; what was closed, what was released
  and what is held are disjoint and make up what was acquired; nothing was closed or released twice.
\<close>

definition accounts_ok :: "'h \<Rightarrow> 'h accounts \<Rightarrow> bool" where
  "accounts_ok i s \<longleftrightarrow>
     sole_owner i (obj s) \<and>
     distinct (closed s @ released s) \<and>
     set (closed s @ released s) \<inter> held i (obj s) = {} \<and>
     set (acquired s) = set (closed s @ released s) \<union> held i (obj s)"

lemma accounts_ok_start: "accounts_ok i start_accounts"
  by (simp add: accounts_ok_def start_accounts_def held_def sole_owner_def)

lemmas handle_defs =
  handle_default_def handle_of_value_def handle_release_def handle_move_def handle_swap_def
  handle_reset_def handle_destroy_def handle_assign_def hstore_def hclose_def lift_op_def
  handles.truncate_def gain_def

section \<open>Every operation keeps the accounts\<close>

definition empty_slot :: "'h \<Rightarrow> (addr \<rightharpoonup> 'h) \<Rightarrow> addr \<Rightarrow> bool" where
  "empty_slot i m a \<longleftrightarrow> m a = None \<or> m a = Some i"

text \<open>The elementary changes of the object store; every operation is a few of them.\<close>

lemma held_blank:
  "empty_slot i m a \<Longrightarrow> x = None \<or> x = Some i \<Longrightarrow> held i (m(a := x)) = held i m"
  by (auto simp: held_def empty_slot_def hvalid_def) (metis option.distinct(1) option.inject)+

lemma sole_owner_blank: "sole_owner i m \<Longrightarrow> x = None \<or> x = Some i \<Longrightarrow> sole_owner i (m(a := x))"
  by (auto simp: sole_owner_def hvalid_def)

lemma held_swap: "m b = Some v \<Longrightarrow> m a = Some u \<Longrightarrow> held i (m(b \<mapsto> u, a \<mapsto> v)) = held i m"
  by (auto simp: held_def) (metis option.inject)+

lemma sole_owner_swap:
  assumes "sole_owner i m" and "m b = Some v" and "m a = Some u"
  shows "sole_owner i (m(b \<mapsto> u, a \<mapsto> v))"
proof -
  let ?f = "\<lambda>x. if x = a then b else if x = b then a else x"
  have swap: "(m(b \<mapsto> u, a \<mapsto> v)) x = m (?f x)" for x
    using assms(2,3) by auto
  have inj: "?f x = ?f y \<Longrightarrow> x = y" for x y
    by (auto split: if_splits)
  show ?thesis
    using assms(1) inj unfolding sole_owner_def swap by blast
qed

lemma held_gain:
  "empty_slot i m a \<Longrightarrow> hvalid i v \<Longrightarrow> held i (m(a \<mapsto> v)) = insert v (held i m)"
  by (auto simp: held_def empty_slot_def hvalid_def) (metis option.distinct(1) option.inject)+

lemma sole_owner_gain: "sole_owner i m \<Longrightarrow> v \<notin> held i m \<Longrightarrow> sole_owner i (m(a \<mapsto> v))"
  by (auto simp: sole_owner_def held_def)

lemma held_lose:
  "sole_owner i m \<Longrightarrow> m a = Some v \<Longrightarrow> hvalid i v \<Longrightarrow> held i (m(a \<mapsto> i)) = held i m - {v}"
  by (auto simp: held_def sole_owner_def hvalid_def) (metis option.inject)+

lemma held_member: "m a = Some v \<Longrightarrow> hvalid i v \<Longrightarrow> v \<in> held i m"
  by (auto simp: held_def)

lemma ok_fields:
  "accounts_ok i s \<Longrightarrow> obj t = obj s \<Longrightarrow> closed t = closed s \<Longrightarrow> released t = released s \<Longrightarrow>
   acquired t = acquired s \<Longrightarrow> accounts_ok i t"
  by (simp add: accounts_ok_def)

lemma ok_blank:
  "accounts_ok i s \<Longrightarrow> empty_slot i (obj s) a \<Longrightarrow> x = None \<or> x = Some i \<Longrightarrow>
   accounts_ok i (s\<lparr>obj := (obj s)(a := x)\<rparr>)"
  by (simp add: accounts_ok_def held_blank sole_owner_blank)

lemma ok_swap:
  "accounts_ok i s \<Longrightarrow> obj s b = Some v \<Longrightarrow> obj s a = Some u \<Longrightarrow>
   accounts_ok i (s\<lparr>obj := (obj s)(b \<mapsto> u, a \<mapsto> v)\<rparr>)"
  by (simp add: accounts_ok_def held_swap sole_owner_swap)

lemma ok_close:
  "accounts_ok i s \<Longrightarrow> obj s a = Some v \<Longrightarrow> hvalid i v \<Longrightarrow>
   accounts_ok i (s\<lparr>obj := (obj s)(a \<mapsto> i), closed := closed s @ [v]\<rparr>)"
  using held_member [of "obj s" a v i]
  by (auto simp: accounts_ok_def held_lose sole_owner_blank)

lemma ok_release:
  "accounts_ok i s \<Longrightarrow> obj s a = Some v \<Longrightarrow> hvalid i v \<Longrightarrow>
   accounts_ok i (s\<lparr>obj := (obj s)(a \<mapsto> i), released := released s @ [v]\<rparr>)"
  using held_member [of "obj s" a v i]
  by (auto simp: accounts_ok_def held_lose sole_owner_blank)

lemma ok_gain:
  "accounts_ok i s \<Longrightarrow> empty_slot i (obj s) a \<Longrightarrow> hvalid i v \<Longrightarrow> v \<notin> set (acquired s) \<Longrightarrow>
   accounts_ok i (s\<lparr>obj := (obj s)(a \<mapsto> v), acquired := acquired s @ [v]\<rparr>)"
  by (auto simp: accounts_ok_def held_gain sole_owner_gain)

lemma ok_reset_invalid:
  assumes "accounts_ok i s" and "obj s a = Some v"
  shows "accounts_ok i (if hvalid i v
           then s\<lparr>obj := (obj s)(a \<mapsto> i), closed := closed s @ [v]\<rparr>
           else s\<lparr>obj := (obj s)(a \<mapsto> i)\<rparr>)"
  using assms ok_close [OF assms] ok_blank [of i s a "Some i"]
  by (auto simp: empty_slot_def hvalid_def)


lemma handle_step_ok:
  assumes "accounts_ok i s" and "handle_step i s p = Some t"
    and "set (op_gains i p) \<inter> set (acquired s) = {}"
  shows "accounts_ok i t \<and> acquired t = acquired s @ op_gains i p"
proof (cases p)
  case (Default a)
  with assms show ?thesis
    using ok_blank [of i s a "Some i"]
    by (auto simp: handle_defs empty_slot_def split: if_splits)
next
  case (Of_value a v)
  with assms show ?thesis
    using ok_blank [of i s a "Some i"] ok_gain [of i s a v]
    by (auto simp: handle_defs empty_slot_def hvalid_def split: if_splits)
next
  case (Move a b)
  then obtain v where v: "obj s b = Some v" and a: "obj s a = None" and ab: "a \<noteq> b"
    and t: "t = s\<lparr>obj := (obj s)(b \<mapsto> i, a \<mapsto> v)\<rparr>"
    using assms(2) by (auto simp: handle_defs split: option.splits if_splits)
  let ?s = "s\<lparr>obj := (obj s)(a \<mapsto> i)\<rparr>"
  have "accounts_ok i ?s"
    using assms(1) a by (simp add: ok_blank empty_slot_def)
  from ok_swap [OF this, of b v a i] v a ab t Move show ?thesis
    by (simp add: fun_upd_twist)
next
  case (Assign a b)
  then obtain v u where v: "obj s b = Some v" and u: "obj s a = Some u"
    using assms(2) by (auto simp: handle_defs split: option.splits if_splits)
  show ?thesis
  proof (cases "a = b")
    case True
    with Assign assms v have "t = s"
      by (auto simp: handle_defs hvalid_def map_upd_triv)
    with Assign assms show ?thesis by simp
  next
    case False
    let ?s = "if hvalid i u then s\<lparr>obj := (obj s)(a \<mapsto> i), closed := closed s @ [u]\<rparr>
              else s\<lparr>obj := (obj s)(a \<mapsto> i)\<rparr>"
    have "accounts_ok i ?s"
      by (rule ok_reset_invalid [OF assms(1) u])
    from ok_swap [OF this, of b v a i] v u False Assign assms show ?thesis
      by (auto simp: handle_defs fun_upd_twist elim!: ok_fields split: if_splits)
  qed
next
  case (Swap a b)
  with assms show ?thesis
    using ok_swap [OF assms(1)]
    by (auto simp: handle_defs split: option.splits)
next
  case (Release a)
  with assms show ?thesis
    using ok_release [OF assms(1)] ok_blank [OF assms(1), of a "Some i"]
    by (auto simp: handle_defs empty_slot_def hvalid_def split: option.splits if_splits)
next
  case (Reset a v)
  then obtain u where u: "obj s a = Some u"
    using assms(2) by (auto simp: handle_defs split: option.splits if_splits)
  let ?s = "if hvalid i u then s\<lparr>obj := (obj s)(a \<mapsto> i), closed := closed s @ [u]\<rparr>
            else s\<lparr>obj := (obj s)(a \<mapsto> i)\<rparr>"
  have "accounts_ok i ?s"
    by (rule ok_reset_invalid [OF assms(1) u])
  note ok = this
  show ?thesis
  proof (cases "hvalid i v")
    case True
    have "accounts_ok i (?s\<lparr>obj := (obj ?s)(a \<mapsto> v), acquired := acquired ?s @ [v]\<rparr>)"
      using True Reset assms(3) by (intro ok_gain ok) (auto simp: empty_slot_def)
    then have "accounts_ok i t"
      by (rule ok_fields) (use u True Reset assms(2) in \<open>auto simp: handle_defs\<close>)
    with True Reset u assms(2) show ?thesis by (auto simp: handle_defs)
  next
    case False
    from ok have "accounts_ok i t"
      by (rule ok_fields) (use u False Reset assms(2) in \<open>auto simp: handle_defs hvalid_def\<close>)
    with False Reset u assms(2) show ?thesis by (auto simp: handle_defs)
  qed
next
  case (Destroy a)
  then obtain u where u: "obj s a = Some u"
    using assms(2) by (auto simp: handle_defs split: option.splits if_splits)
  let ?s = "if hvalid i u then s\<lparr>obj := (obj s)(a \<mapsto> i), closed := closed s @ [u]\<rparr>
            else s\<lparr>obj := (obj s)(a \<mapsto> i)\<rparr>"
  have "accounts_ok i ?s"
    by (rule ok_reset_invalid [OF assms(1) u])
  from ok_blank [OF this, of a None] u Destroy assms show ?thesis
    by (auto simp: handle_defs empty_slot_def elim!: ok_fields split: if_splits)
qed

lemma handle_run_ok:
  assumes "accounts_ok i s" and "handle_run i s ps = Some t"
    and "distinct (acquired s @ run_gains i ps)"
  shows "accounts_ok i t \<and> acquired t = acquired s @ run_gains i ps"
  using assms
proof (induction ps arbitrary: s)
  case Nil
  then show ?case by (simp add: run_gains_def)
next
  case (Cons p ps)
  from Cons.prems(2) obtain u where u: "handle_step i s p = Some u" and t: "handle_run i u ps = Some t"
    by (auto split: option.splits)
  have "set (op_gains i p) \<inter> set (acquired s) = {}"
    using Cons.prems(3) by (auto simp: run_gains_def)
  from handle_step_ok [OF Cons.prems(1) u this] have ok: "accounts_ok i u"
    and acq: "acquired u = acquired s @ op_gains i p" by auto
  from Cons.IH [OF ok t] Cons.prems(3) acq show ?case
    by (simp add: run_gains_def)
qed

text \<open>
  C26: However handles are constructed, moved, swapped, reset, released and destroyed, no resource is
  held by two handles, none is closed while a handle still holds it, and none is closed twice, as
  long as the system hands out each resource once.
\<close>

theorem handles_close_once:
  assumes "handle_run invalid start_accounts ps = Some t"
    and "distinct (run_gains invalid ps)"
  shows "distinct (closed t) \<and> set (closed t) \<inter> held invalid (obj t) = {} \<and>
         sole_owner invalid (obj t) \<and>
         set (run_gains invalid ps) = set (closed t) \<union> set (released t) \<union> held invalid (obj t)"
  using handle_run_ok [OF accounts_ok_start assms(1)] assms(2)
  by (auto simp: accounts_ok_def start_accounts_def)

definition handle_example :: "int handle_op list" where
  "handle_example =
     [Of_value 0 7, Of_value 1 8, Assign 0 1, Assign 0 0, Default 2, Swap 0 2, Reset 2 9, Destroy 0,
      Destroy 1, Destroy 2]"

theorem handles_close_once_witness:
  "\<exists>t. handle_run (-1) start_accounts handle_example = Some t \<and> closed t = [7, 8, 9] \<and>
       distinct (closed t)"
proof -
  let ?t = "\<lparr>obj = Map.empty, closed = [7, 8, 9], acquired = [7, 8, 9], released = []\<rparr> :: int accounts"
  have run: "handle_run (-1) start_accounts handle_example = Some ?t"
    by (simp add: handle_example_def start_accounts_def handle_defs hvalid_def)
  have "distinct (run_gains (-1) handle_example)"
    by (simp add: handle_example_def run_gains_def hvalid_def)
  from handles_close_once [OF run this] run show ?thesis by auto
qed

text \<open>
  C25: Once every handle object of a run is destroyed, every resource the run acquired was closed or
  given back by \<open>release\<close>, each exactly once: nothing leaks.
\<close>

theorem handles_no_leak:
  assumes "handle_run invalid start_accounts ps = Some t"
    and "distinct (run_gains invalid ps)" and "obj t = Map.empty"
  shows "mset (run_gains invalid ps) = mset (closed t @ released t)"
proof -
  have ok: "accounts_ok invalid t" and acq: "acquired t = run_gains invalid ps"
    using handle_run_ok [OF accounts_ok_start assms(1)] assms(2)
    by (auto simp: start_accounts_def)
  have "held invalid (obj t) = {}"
    using assms(3) by (simp add: held_def)
  with ok acq assms(2) show ?thesis
    by (intro set_eq_iff_mset_eq_distinct [THEN iffD1]) (auto simp: accounts_ok_def)
qed

theorem handles_no_leak_witness:
  "mset (run_gains (-1) handle_example) = mset [7, 8, 9 :: int]"
proof -
  let ?t = "\<lparr>obj = Map.empty, closed = [7, 8, 9], acquired = [7, 8, 9], released = []\<rparr> :: int accounts"
  have run: "handle_run (-1) start_accounts handle_example = Some ?t"
    by (simp add: handle_example_def start_accounts_def handle_defs hvalid_def)
  have "distinct (run_gains (-1) handle_example)"
    by (simp add: handle_example_def run_gains_def hvalid_def)
  from handles_no_leak [OF run this] show ?thesis by simp
qed

end
