(* ===== verification/Chain.thy ===== *)
theory Chain
  imports Prelude
begin

text \<open>
  Intrusive singly linked lists: the nodes of the scheduler's queue and of the mutex's waiters hold
  the address of the next node themselves. Both components push in front of such a chain and later
  reverse it in place; the chain predicate and the reversal loop are here.
\<close>

section \<open>Chains on a heap of \<open>next\<close> fields\<close>

fun chain :: "(addr \<Rightarrow> addr) \<Rightarrow> addr \<Rightarrow> addr list \<Rightarrow> bool" where
  "chain nx p [] \<longleftrightarrow> p = 0"
| "chain nx p (a # as) \<longleftrightarrow> p = a \<and> a \<noteq> 0 \<and> chain nx (nx a) as"

lemma chain_frame [simp, frame_simps]:
  "a \<notin> set as \<Longrightarrow> chain (nx(a := v)) p as = chain nx p as"
  by (induction as arbitrary: p) auto

lemma chain_null [simp, chain_simps]: "chain nx 0 as \<longleftrightarrow> as = []"
  by (cases as) auto

lemma chain_nonnull: "p \<noteq> 0 \<Longrightarrow> chain nx p as \<longleftrightarrow> (\<exists>bs. as = p # bs \<and> chain nx (nx p) bs)"
  by (cases as) auto

lemma chain_notin_null: "chain nx p as \<Longrightarrow> 0 \<notin> set as"
  by (induction as arbitrary: p) auto

lemma chain_cong: "(\<And>a. a \<in> set as \<Longrightarrow> nx a = ny a) \<Longrightarrow> chain nx p as = chain ny p as"
  by (induction as arbitrary: p) auto

lemma chain_unique: "chain nx p as \<Longrightarrow> chain nx p bs \<Longrightarrow> as = bs"
  by (induction as arbitrary: p bs) (auto simp: chain_nonnull)

section \<open>Reversal in place\<close>

text \<open>
  One turn of the loop \<open>next = head->next.exchange(prev); prev = head; head = next\<close>, and the loop,
  which may not return on an arbitrary heap: then it is \<^const>\<open>None\<close>.
\<close>

definition reverse_step :: "(addr \<Rightarrow> addr) \<Rightarrow> addr \<Rightarrow> addr \<Rightarrow> (addr \<Rightarrow> addr) \<times> addr \<times> addr" where
  "reverse_step nx prev head = (nx(head := prev), head, nx head)"

partial_function (option) reverse_loop ::
    "(addr \<Rightarrow> addr) \<Rightarrow> addr \<Rightarrow> addr \<Rightarrow> ((addr \<Rightarrow> addr) \<times> addr) option" where
  "reverse_loop nx prev head =
     (if head = 0 then Some (nx, prev)
      else (case reverse_step nx prev head of (nx', prev', head') \<Rightarrow> reverse_loop nx' prev' head'))"

lemma reverse_step_chains:
  assumes "chain nx prev ys" and "chain nx head xs" and "head \<noteq> 0" and "distinct (xs @ ys)"
    and "reverse_step nx prev head = (nx', prev', head')"
  shows "\<exists>zs. xs = head # zs \<and> prev' = head \<and> chain nx' prev' (head # ys) \<and> chain nx' head' zs"
  using assms by (auto simp: chain_nonnull reverse_step_def)

lemma reverse_loop_chain:
  assumes "chain nx prev ys" and "chain nx head xs" and "distinct (xs @ ys)"
  shows "\<exists>nx' p. reverse_loop nx prev head = Some (nx', p) \<and> chain nx' p (rev xs @ ys) \<and>
                 (\<forall>a. a \<notin> set xs \<longrightarrow> nx' a = nx a)"
  using assms
proof (induction xs arbitrary: nx prev head ys)
  case Nil
  then show ?case by (simp add: reverse_loop.simps)
next
  case (Cons x xs)
  let ?nx = "nx(head := prev)"
  have h: "head = x" "x \<noteq> 0" using Cons.prems by auto
  have "chain ?nx head (x # ys)" "chain ?nx (nx head) xs" "distinct (xs @ x # ys)"
    using Cons.prems by auto
  from Cons.IH [OF this] obtain nx' p where
    "reverse_loop ?nx head (nx head) = Some (nx', p)" "chain nx' p (rev xs @ x # ys)"
    "\<forall>a. a \<notin> set xs \<longrightarrow> nx' a = ?nx a" by blast
  with h show ?case
    by (intro exI [of _ nx'] exI [of _ p])
       (auto simp: reverse_loop.simps [of nx prev x] reverse_step_def)
qed

end
