(* ===== verification/Scheduler.thy ===== *)
theory Scheduler
  imports Chain
begin

text \<open>
  \<open>ice/scheduler.hpp\<close>: suspended coroutines post themselves to a lock-free stack, and whoever runs
  the scheduler takes the whole stack, reverses it and resumes the coroutines. First the operations
  run on their own, then all threads at once, one atomic access per step.
\<close>

section \<open>The scheduler and the awaitable\<close>

text \<open>
  \<open>head_\<close> and the \<open>next\<close> field of every \<open>schedule\<close> object, by address. All accesses are atomic.
\<close>

record sched =
  shead :: addr
  snext :: "addr \<Rightarrow> addr"

definition new_sched :: sched where
  "new_sched = \<lparr>shead = 0, snext = (\<lambda>_. 0)\<rparr>"

text \<open>
  The awaitable \<open>schedule\<close>: ready at once when the caller already runs on the scheduler and does not
  insist on posting; otherwise \<open>await_suspend\<close> posts the awaitable itself.
\<close>

definition schedule_ready :: "bool \<Rightarrow> bool \<Rightarrow> bool" where
  "schedule_ready is_current post = (\<not> post \<and> is_current)"

section \<open>The operations on their own\<close>

definition post_store :: "addr \<Rightarrow> addr \<Rightarrow> sched \<Rightarrow> sched" where
  "post_store node head s = s\<lparr>snext := (snext s)(node := head)\<rparr>"

text \<open>
  \<open>compare_exchange_weak\<close>: whether it succeeded, what the expected value is afterwards, and the new
  state. It may fail although the values agree (\<open>spurious\<close>).
\<close>

definition post_cas :: "bool \<Rightarrow> addr \<Rightarrow> addr \<Rightarrow> sched \<Rightarrow> bool \<times> addr \<times> sched" where
  "post_cas spurious head node s =
     (if shead s = head \<and> \<not> spurious then (True, head, s\<lparr>shead := node\<rparr>)
      else (False, shead s, s))"

text \<open>
  \<open>post\<close> without other threads; the list says which attempts of the exchange fail spuriously.
\<close>

fun post_loop :: "bool list \<Rightarrow> addr \<Rightarrow> addr \<Rightarrow> sched \<Rightarrow> sched" where
  "post_loop [] node head s = snd (snd (post_cas False head node (post_store node head s)))"
| "post_loop (f # fs) node head s =
     (case post_cas f head node (post_store node head s) of
        (True, _, t) \<Rightarrow> t
      | (False, head', t) \<Rightarrow> post_loop fs node head' t)"

definition post :: "bool list \<Rightarrow> addr \<Rightarrow> sched \<Rightarrow> sched" where
  "post fails node s = post_loop fails node (shead s) s"

text \<open>\<open>acquire\<close>: take the stack; a stack of two or more is reversed, so the oldest comes first.\<close>

definition acquire :: "sched \<Rightarrow> (addr \<times> sched) option" where
  "acquire s =
     (let head = shead s; s1 = s\<lparr>shead := 0\<rparr>
      in if head = 0 \<or> snext s1 head = 0 then Some (head, s1)
         else (case reverse_loop (snext s1) 0 head of
                 None \<Rightarrow> None
               | Some (nx, prev) \<Rightarrow> Some (prev, s1\<lparr>snext := nx\<rparr>)))"

text \<open>
  \<open>process\<close>: take the stack and resume the nodes in turn. What a resumed coroutine does to the
  scheduler and to the rest of the world is the parameter \<open>resume\<close>.
\<close>

partial_function (option) process_loop ::
    "(addr \<Rightarrow> sched \<times> 'w \<Rightarrow> sched \<times> 'w) \<Rightarrow> addr \<Rightarrow> sched \<times> 'w \<Rightarrow> (sched \<times> 'w) option" where
  "process_loop resume head s =
     (if head = 0 then Some s
      else (let next_node = snext (fst s) head in process_loop resume next_node (resume head s)))"

definition process ::
    "(addr \<Rightarrow> sched \<times> 'w \<Rightarrow> sched \<times> 'w) \<Rightarrow> sched \<times> 'w \<Rightarrow> (sched \<times> 'w) option" where
  "process resume s =
     (case acquire (fst s) of
        None \<Rightarrow> None
      | Some (head, t) \<Rightarrow> process_loop resume head (t, snd s))"

text \<open>The abstract content of a scheduler: the posted nodes, oldest first.\<close>

definition queued :: "sched \<Rightarrow> addr list \<Rightarrow> bool" where
  "queued s xs \<longleftrightarrow> chain (snext s) (shead s) (rev xs) \<and> distinct xs"

lemma queued_new: "queued new_sched []"
  by (simp add: queued_def new_sched_def)

lemma post_loop_queued:
  "queued s xs \<Longrightarrow> node \<noteq> 0 \<Longrightarrow> node \<notin> set xs \<Longrightarrow> head = shead s \<Longrightarrow>
   queued (post_loop fails node head s) (xs @ [node])"
proof (induction fails arbitrary: s head)
  case Nil
  then show ?case
    by (simp add: queued_def post_cas_def post_store_def)
next
  case (Cons f fs)
  let ?s = "post_store node head s"
  have q: "queued ?s xs"
    using Cons.prems by (simp add: queued_def post_store_def)
  show ?case
  proof (cases f)
    case True
    then have "post_loop (f # fs) node head s = post_loop fs node (shead ?s) ?s"
      by (simp add: post_cas_def)
    with Cons.IH [OF q Cons.prems(2,3) refl] show ?thesis by simp
  next
    case False
    with Cons.prems show ?thesis
      by (simp add: post_cas_def queued_def post_store_def)
  qed
qed

lemma post_queued:
  "queued s xs \<Longrightarrow> node \<noteq> 0 \<Longrightarrow> node \<notin> set xs \<Longrightarrow> queued (post fails node s) (xs @ [node])"
  by (simp add: post_def post_loop_queued)

lemma acquire_queued:
  assumes "queued s xs"
  shows "\<exists>head t. acquire s = Some (head, t) \<and> chain (snext t) head xs \<and> queued t []"
proof (cases "shead s = 0 \<or> snext s (shead s) = 0")
  case True
  then have "rev xs = [] \<or> (\<exists>a. rev xs = [a])"
    using assms by (cases "rev xs") (auto simp: queued_def)
  with True assms show ?thesis
    by (auto simp: acquire_def Let_def queued_def)
next
  case False
  have "chain (snext s) 0 []" "chain (snext s) (shead s) (rev xs)" "distinct (rev xs @ [])"
    using assms by (auto simp: queued_def)
  from reverse_loop_chain [OF this] False show ?thesis
    by (auto simp: acquire_def Let_def queued_def)
qed

text \<open>
  The coroutines after the one being resumed are still suspended, so nothing writes their \<open>next\<close>
  fields: the frame condition on \<open>resume\<close>. It may write any other node, the resumed one included.
\<close>

definition keeps_waiting :: "(addr \<Rightarrow> sched \<times> 'w \<Rightarrow> sched \<times> 'w) \<Rightarrow> addr list \<Rightarrow> bool" where
  "keeps_waiting resume xs \<longleftrightarrow>
     (\<forall>ys a zs. xs = ys @ a # zs \<longrightarrow>
        (\<forall>p. \<forall>b \<in> set zs. snext (fst (resume a p)) b = snext (fst p) b))"

lemma keeps_waiting_Cons:
  assumes "keeps_waiting resume (a # xs)"
  shows "keeps_waiting resume xs" and "b \<in> set xs \<Longrightarrow> snext (fst (resume a p)) b = snext (fst p) b"
proof -
  show "keeps_waiting resume xs"
    unfolding keeps_waiting_def
    by (metis assms append_Cons keeps_waiting_def)
  show "b \<in> set xs \<Longrightarrow> snext (fst (resume a p)) b = snext (fst p) b"
    using assms unfolding keeps_waiting_def by (metis append_Nil)
qed

lemma process_loop_fold:
  "chain (snext (fst p)) head xs \<Longrightarrow> keeps_waiting resume xs \<Longrightarrow>
   process_loop resume head p = Some (fold resume xs p)"
proof (induction xs arbitrary: head p)
  case Nil
  then show ?case by (simp add: process_loop.simps)
next
  case (Cons a xs)
  then have h: "head = a" "a \<noteq> 0" and c: "chain (snext (fst p)) (snext (fst p) a) xs"
    by auto
  have "chain (snext (fst (resume a p))) (snext (fst p) a) xs"
    using c keeps_waiting_Cons(2) [OF Cons.prems(2)]
    by (subst chain_cong [of _ _ "snext (fst p)"]) auto
  from Cons.IH [OF this keeps_waiting_Cons(1) [OF Cons.prems(2)]] h show ?case
    by (simp add: process_loop.simps [of resume a p])
qed

text \<open>
  C4: \<open>process\<close> always returns; it resumes exactly the coroutines that were posted before it took the
  stack, in the order they were posted, and leaves for the next round what they post meanwhile.
\<close>

theorem process_resumes_in_order:
  assumes "queued s xs" and "keeps_waiting resume xs"
  shows "\<exists>head t. acquire s = Some (head, t) \<and> queued t [] \<and>
                  process resume (s, w) = Some (fold resume xs (t, w))"
proof -
  obtain head t where "acquire s = Some (head, t)" "chain (snext t) head xs" "queued t []"
    using acquire_queued [OF assms(1)] by blast
  then show ?thesis
    using process_loop_fold [of "(t, w)" head xs resume] assms(2)
    by (auto simp: process_def)
qed

text \<open>Three posts, one of them after two failed attempts; the resumed coroutines log their address.\<close>

definition log_resume :: "addr \<Rightarrow> sched \<times> addr list \<Rightarrow> sched \<times> addr list" where
  "log_resume a p = (fst p, snd p @ [a])"

theorem process_resumes_in_order_witness:
  "\<exists>t. process log_resume (post [] 30 (post [True, True] 20 (post [] 10 new_sched)), []) =
         Some (t, [10, 20, 30])"
proof -
  have q: "queued (post [] 30 (post [True, True] 20 (post [] 10 new_sched))) [10, 20, 30]"
    using post_queued [OF post_queued [OF post_queued [OF queued_new]],
      of 10 20 30 "[]" "[True, True]" "[]"] by simp
  have k: "keeps_waiting log_resume [10, 20, 30]"
    by (simp add: keeps_waiting_def log_resume_def)
  from process_resumes_in_order [OF q k, of "[]"] show ?thesis
    by (auto simp: log_resume_def)
qed

end
