(* ===== verification/Scheduler_Threads.thy ===== *)
theory Scheduler_Threads
  imports Scheduler
begin

text \<open>
  The scheduler of \<open>ice/scheduler.hpp\<close> with any number of threads posting and any number of threads
  running it. One step is one atomic access; posters and workers interleave freely, and the weak
  exchange may fail at any time. Each access is sequentially consistent in the model.
\<close>

section \<open>Threads\<close>

text \<open>
  Where a thread stands in \<open>post\<close>: the node it posts and the value of \<open>head\<close> it last saw, before and
  after it stored that value in the node.
\<close>

datatype poster_pc = P_idle | P_loaded addr addr | P_stored addr addr

text \<open>
  Where a thread stands in \<open>acquire\<close> and \<open>process\<close>: after the exchange; in the reversal loop with
  \<open>prev\<close> and \<open>head\<close>; at the head of the loop that resumes; about to resume a node with the successor
  it loaded before.
\<close>

datatype worker_pc =
    W_idle
  | W_taken addr
  | W_reverse addr addr
  | W_run addr
  | W_resume addr addr

text \<open>Ghost: who may write the \<open>next\<close> field of a node.\<close>

datatype node_owner = Free | Posting nat | Queued | Working nat

text \<open>
  Below \<open>poster\<close> and \<open>worker\<close>, ghost state: the owner of every node, the nodes on the stack from the
  head on, what each worker still has to resume and what it has resumed, all nodes in the order of
  their successful exchange, and the batches taken, with the worker that took them.
\<close>

record sched_sys = sched +
  poster :: "nat \<Rightarrow> poster_pc"
  worker :: "nat \<Rightarrow> worker_pc"
  owner :: "addr \<Rightarrow> node_owner"
  stack :: "addr list"
  pending :: "nat \<Rightarrow> addr list"
  resumed :: "nat \<Rightarrow> addr list"
  posted :: "addr list"
  batches :: "(nat \<times> addr list) list"

definition init_sys :: sched_sys where
  "init_sys =
     \<lparr>shead = 0, snext = (\<lambda>_. 0), poster = (\<lambda>_. P_idle), worker = (\<lambda>_. W_idle),
      owner = (\<lambda>_. Free), stack = [], pending = (\<lambda>_. []), resumed = (\<lambda>_. []), posted = [],
      batches = []\<rparr>"

section \<open>Steps\<close>

inductive sched_step :: "sched_sys \<Rightarrow> sched_sys \<Rightarrow> bool" where
  post_load:
    "poster s t = P_idle \<Longrightarrow> owner s n = Free \<Longrightarrow> n \<noteq> 0 \<Longrightarrow>
     sched_step s (s\<lparr>poster := (poster s)(t := P_loaded n (shead s)),
                     owner := (owner s)(n := Posting t)\<rparr>)"
| post_store:
    "poster s t = P_loaded n h \<Longrightarrow>
     sched_step s (s\<lparr>snext := (snext s)(n := h), poster := (poster s)(t := P_stored n h)\<rparr>)"
| post_cas_ok:
    "poster s t = P_stored n h \<Longrightarrow> shead s = h \<Longrightarrow>
     sched_step s (s\<lparr>shead := n, poster := (poster s)(t := P_idle),
                     owner := (owner s)(n := Queued), stack := n # stack s,
                     posted := posted s @ [n]\<rparr>)"
| post_cas_fail:
    "poster s t = P_stored n h \<Longrightarrow>
     sched_step s (s\<lparr>poster := (poster s)(t := P_loaded n (shead s))\<rparr>)"
| take:
    "worker s w = W_idle \<Longrightarrow>
     sched_step s (s\<lparr>shead := 0, worker := (worker s)(w := W_taken (shead s)),
                     owner := (\<lambda>n. if owner s n = Queued then Working w else owner s n),
                     stack := [], pending := (pending s)(w := rev (stack s)),
                     batches := batches s @ [(w, rev (stack s))]\<rparr>)"
| test_single:
    "worker s w = W_taken h \<Longrightarrow> h = 0 \<or> snext s h = 0 \<Longrightarrow>
     sched_step s (s\<lparr>worker := (worker s)(w := W_run h)\<rparr>)"
| test_many:
    "worker s w = W_taken h \<Longrightarrow> h \<noteq> 0 \<Longrightarrow> snext s h \<noteq> 0 \<Longrightarrow>
     sched_step s (s\<lparr>worker := (worker s)(w := W_reverse 0 h)\<rparr>)"
| reverse_one:
    "worker s w = W_reverse prev h \<Longrightarrow> h \<noteq> 0 \<Longrightarrow>
     reverse_step (snext s) prev h = (nx, prev', h') \<Longrightarrow>
     sched_step s (s\<lparr>snext := nx, worker := (worker s)(w := W_reverse prev' h')\<rparr>)"
| reverse_done:
    "worker s w = W_reverse prev 0 \<Longrightarrow>
     sched_step s (s\<lparr>worker := (worker s)(w := W_run prev)\<rparr>)"
| run_load:
    "worker s w = W_run h \<Longrightarrow> h \<noteq> 0 \<Longrightarrow>
     sched_step s (s\<lparr>worker := (worker s)(w := W_resume h (snext s h))\<rparr>)"
| run_done:
    "worker s w = W_run 0 \<Longrightarrow>
     sched_step s (s\<lparr>worker := (worker s)(w := W_idle)\<rparr>)"
| resume:
    "worker s w = W_resume h nx \<Longrightarrow>
     sched_step s (s\<lparr>worker := (worker s)(w := W_run nx), owner := (owner s)(h := Free),
                     pending := (pending s)(w := tl (pending s w)),
                     resumed := (resumed s)(w := resumed s w @ [h])\<rparr>)"
| reuse:
    "owner s n = Free \<Longrightarrow> sched_step s (s\<lparr>snext := (snext s)(n := v)\<rparr>)"

inductive sched_reach :: "sched_sys \<Rightarrow> bool" where
  start: "sched_reach init_sys"
| step: "sched_reach s \<Longrightarrow> sched_step s t \<Longrightarrow> sched_reach t"

section \<open>The invariant\<close>

definition batch_of :: "nat \<Rightarrow> (nat \<times> addr list) list \<Rightarrow> addr list" where
  "batch_of w bs = concat (map snd (filter (\<lambda>b. fst b = w) bs))"

fun poster_ok :: "sched_sys \<Rightarrow> nat \<Rightarrow> poster_pc \<Rightarrow> bool" where
  "poster_ok s t P_idle \<longleftrightarrow> (\<forall>n. owner s n \<noteq> Posting t)"
| "poster_ok s t (P_loaded n h) \<longleftrightarrow>
     n \<noteq> 0 \<and> owner s n = Posting t \<and> (\<forall>m. owner s m = Posting t \<longrightarrow> m = n)"
| "poster_ok s t (P_stored n h) \<longleftrightarrow>
     n \<noteq> 0 \<and> owner s n = Posting t \<and> (\<forall>m. owner s m = Posting t \<longrightarrow> m = n) \<and> snext s n = h"

fun worker_ok :: "(addr \<Rightarrow> addr) \<Rightarrow> addr list \<Rightarrow> worker_pc \<Rightarrow> bool" where
  "worker_ok nx todo W_idle \<longleftrightarrow> todo = []"
| "worker_ok nx todo (W_taken h) \<longleftrightarrow> chain nx h (rev todo)"
| "worker_ok nx todo (W_reverse prev h) \<longleftrightarrow>
     (\<exists>xs ys. todo = rev ys @ xs \<and> chain nx prev xs \<and> chain nx h ys)"
| "worker_ok nx todo (W_run h) \<longleftrightarrow> chain nx h todo"
| "worker_ok nx todo (W_resume h n) \<longleftrightarrow> (\<exists>rest. todo = h # rest \<and> chain nx n rest)"

definition sched_inv :: "sched_sys \<Rightarrow> bool" where
  "sched_inv s \<longleftrightarrow>
     chain (snext s) (shead s) (stack s) \<and> distinct (stack s) \<and>
     (\<forall>n. owner s n = Queued \<longleftrightarrow> n \<in> set (stack s)) \<and>
     (\<forall>w. distinct (pending s w) \<and> (\<forall>n. owner s n = Working w \<longleftrightarrow> n \<in> set (pending s w)) \<and>
          worker_ok (snext s) (pending s w) (worker s w)) \<and>
     (\<forall>t. poster_ok s t (poster s t)) \<and>
     posted s = concat (map snd (batches s)) @ rev (stack s) \<and>
     (\<forall>w. resumed s w @ pending s w = batch_of w (batches s))"

lemma sched_inv_init: "sched_inv init_sys"
  by (simp add: sched_inv_def init_sys_def batch_of_def)

lemma batch_of_snoc [simp]:
  "batch_of w (bs @ [(v, xs)]) = (if v = w then batch_of w bs @ xs else batch_of w bs)"
  by (simp add: batch_of_def)

text \<open>Writing a node that a worker does not own does not disturb the worker.\<close>

lemma worker_ok_frame:
  "n \<notin> set todo \<Longrightarrow> worker_ok (nx(n := v)) todo pc = worker_ok nx todo pc"
  by (cases pc) (auto, (metis Un_iff chain_frame set_append set_rev)+)

section \<open>Every step keeps the invariant\<close>

lemma invD:
  assumes "sched_inv s"
  shows inv_chain: "chain (snext s) (shead s) (stack s)"
    and inv_distinct: "distinct (stack s)"
    and inv_queued: "owner s n = Queued \<longleftrightarrow> n \<in> set (stack s)"
    and inv_pending: "distinct (pending s w)"
    and inv_working: "owner s n = Working w \<longleftrightarrow> n \<in> set (pending s w)"
    and inv_worker: "worker_ok (snext s) (pending s w) (worker s w)"
    and inv_poster: "poster_ok s t (poster s t)"
    and inv_posted: "posted s = concat (map snd (batches s)) @ rev (stack s)"
    and inv_resumed: "resumed s w @ pending s w = batch_of w (batches s)"
  using assms by (simp_all add: sched_inv_def)

text \<open>A poster depends only on the nodes it owns, a worker only on the nodes it holds.\<close>

lemma poster_ok_frame:
  "poster_ok s u pc \<Longrightarrow> (\<And>n. owner t n = Posting u \<longleftrightarrow> owner s n = Posting u) \<Longrightarrow>
   (\<And>n. owner s n = Posting u \<Longrightarrow> snext t n = snext s n) \<Longrightarrow> poster_ok t u pc"
  by (cases pc) auto

lemma worker_ok_cong:
  "(\<And>a. a \<in> set todo \<Longrightarrow> nx a = ny a) \<Longrightarrow> worker_ok ny todo pc \<Longrightarrow> worker_ok nx todo pc"
  by (cases pc) (auto simp: chain_cong [of _ nx ny] Ball_def, (metis Un_iff chain_cong set_append set_rev)+)

lemma post_load_inv:
  assumes "sched_inv s" and "poster s t = P_idle" and "owner s n = Free" and "n \<noteq> 0"
  shows "sched_inv (s\<lparr>poster := (poster s)(t := P_loaded n (shead s)),
                      owner := (owner s)(n := Posting t)\<rparr>)" (is "sched_inv ?t")
proof -
  have "poster_ok ?t u (poster ?t u)" for u
    using inv_poster [OF assms(1), of u] inv_poster [OF assms(1), of t] assms(2-4)
    by (cases "u = t") (auto elim!: poster_ok_frame split: if_splits)
  moreover have "n \<notin> set (stack s)" "n \<notin> set (pending s w)" for w
    using inv_queued [OF assms(1), of n] inv_working [OF assms(1), of n w] assms(3) by auto
  ultimately show ?thesis
    using assms(1) unfolding sched_inv_def by auto
qed

lemma post_store_inv:
  assumes "sched_inv s" and "poster s t = P_loaded n h"
  shows "sched_inv (s\<lparr>snext := (snext s)(n := h), poster := (poster s)(t := P_stored n h)\<rparr>)"
    (is "sched_inv ?t")
proof -
  have n: "n \<noteq> 0" "owner s n = Posting t"
    using inv_poster [OF assms(1), of t] assms(2) by auto
  have "poster_ok ?t u (poster ?t u)" for u
  proof (cases "u = t")
    case True
    then show ?thesis
      using inv_poster [OF assms(1), of t] assms(2) by (auto split: if_splits)
  next
    case False
    have "poster_ok ?t u (poster s u)"
      by (rule poster_ok_frame [OF inv_poster [OF assms(1)]])
         (use False n(2) in \<open>auto split: if_splits\<close>)
    with False show ?thesis by simp
  qed
  moreover have "n \<notin> set (stack s)" "n \<notin> set (pending s w)" for w
    using inv_queued [OF assms(1), of n] inv_working [OF assms(1), of n w] n by auto
  ultimately show ?thesis
    using assms(1) unfolding sched_inv_def by (simp add: worker_ok_frame)
qed

lemma post_cas_ok_inv:
  assumes "sched_inv s" and "poster s t = P_stored n h" and "shead s = h"
  shows "sched_inv (s\<lparr>shead := n, poster := (poster s)(t := P_idle),
                      owner := (owner s)(n := Queued), stack := n # stack s,
                      posted := posted s @ [n]\<rparr>)" (is "sched_inv ?t")
proof -
  have n: "n \<noteq> 0" "owner s n = Posting t" "snext s n = h"
    using inv_poster [OF assms(1), of t] assms(2) by auto
  have "poster_ok ?t u (poster ?t u)" for u
  proof (cases "u = t")
    case True
    then show ?thesis
      using inv_poster [OF assms(1), of t] assms(2) by (auto split: if_splits)
  next
    case False
    have "poster_ok ?t u (poster s u)"
      by (rule poster_ok_frame [OF inv_poster [OF assms(1)]])
         (use False n(2) in \<open>auto split: if_splits\<close>)
    with False show ?thesis by simp
  qed
  moreover have "n \<notin> set (stack s)" "n \<notin> set (pending s w)" for w
    using inv_queued [OF assms(1), of n] inv_working [OF assms(1), of n w] n by auto
  ultimately show ?thesis
    using assms n unfolding sched_inv_def by auto
qed

lemma post_cas_fail_inv:
  assumes "sched_inv s" and "poster s t = P_stored n h"
  shows "sched_inv (s\<lparr>poster := (poster s)(t := P_loaded n (shead s))\<rparr>)" (is "sched_inv ?t")
proof -
  have "poster_ok ?t u (poster ?t u)" for u
    using inv_poster [OF assms(1), of u] assms(2)
    by (cases "u = t") (auto elim!: poster_ok_frame)
  then show ?thesis
    using assms unfolding sched_inv_def by simp
qed

lemma take_inv:
  assumes "sched_inv s" and "worker s w = W_idle"
  shows "sched_inv (s\<lparr>shead := 0, worker := (worker s)(w := W_taken (shead s)),
                      owner := (\<lambda>n. if owner s n = Queued then Working w else owner s n),
                      stack := [], pending := (pending s)(w := rev (stack s)),
                      batches := batches s @ [(w, rev (stack s))]\<rparr>)" (is "sched_inv ?t")
proof -
  have pe: "pending s w = []"
    using inv_worker [OF assms(1), of w] assms(2) by simp
  have po: "poster_ok ?t u (poster s u)" for u
    using inv_poster [OF assms(1), of u] by (auto elim!: poster_ok_frame split: if_splits)
  have ow: "owner s n \<noteq> Working w" for n
    using inv_working [OF assms(1), of n w] pe by simp
  have di: "n \<notin> set (pending s v)" if "n \<in> set (stack s)" for n v
    using inv_working [OF assms(1), of n v] inv_queued [OF assms(1), of n] that by auto
  have re: "resumed s w = batch_of w (batches s)"
    using inv_resumed [OF assms(1), of w] pe by simp
  show ?thesis
    using assms pe po ow di re unfolding sched_inv_def by auto
qed

text \<open>A step of a worker that writes only its own pc and the nodes it holds.\<close>

lemma worker_inv:
  assumes "sched_inv s" and "worker_ok nx (pending s w) pc"
    and frame: "\<And>a. a \<notin> set (pending s w) \<Longrightarrow> nx a = snext s a"
  shows "sched_inv (s\<lparr>snext := nx, worker := (worker s)(w := pc)\<rparr>)" (is "sched_inv ?t")
proof -
  have other: "nx a = snext s a" if "owner s a \<noteq> Working w" for a
    using inv_working [OF assms(1), of a w] that frame by simp
  have "nx a = snext s a" if "a \<in> set (stack s)" for a
    using other [of a] inv_queued [OF assms(1), of a] that by simp
  then have st: "chain nx (shead s) (stack s)"
    using inv_chain [OF assms(1)] by (subst chain_cong [of _ nx "snext s"])
  have wo: "worker_ok nx (pending s v) (worker s v)" if "v \<noteq> w" for v
  proof (rule worker_ok_cong [OF _ inv_worker [OF assms(1)]])
    fix a assume "a \<in> set (pending s v)"
    then have "owner s a \<noteq> Working w"
      using inv_working [OF assms(1), of a v] that by auto
    then show "nx a = snext s a" by (rule other)
  qed
  have po: "poster_ok ?t u (poster s u)" for u
    by (rule poster_ok_frame [OF inv_poster [OF assms(1)]]) (simp_all add: other)
  show ?thesis
    using assms(1,2) st wo po unfolding sched_inv_def by simp
qed


lemma resume_inv:
  assumes "sched_inv s" and "worker s w = W_resume h nx"
  shows "sched_inv (s\<lparr>worker := (worker s)(w := W_run nx), owner := (owner s)(h := Free),
                      pending := (pending s)(w := tl (pending s w)),
                      resumed := (resumed s)(w := resumed s w @ [h])\<rparr>)" (is "sched_inv ?t")
proof -
  obtain rest where rest: "pending s w = h # rest" "chain (snext s) nx rest"
    using inv_worker [OF assms(1), of w] assms(2) by auto
  have h: "owner s h = Working w"
    using inv_working [OF assms(1), of h w] rest by simp
  have po: "poster_ok ?t u (poster s u)" for u
    by (rule poster_ok_frame [OF inv_poster [OF assms(1)]]) (use h in \<open>auto split: if_splits\<close>)
  have st: "h \<notin> set (stack s)" and pe: "h \<notin> set (pending s v)" if "v \<noteq> w" for v
    using inv_queued [OF assms(1), of h] inv_working [OF assms(1), of h v] h that by auto
  have st: "h \<notin> set (stack s)"
    using inv_queued [OF assms(1), of h] h by auto
  have re: "resumed s w @ h # rest = batch_of w (batches s)" and di: "h \<notin> set rest" "distinct rest"
    using inv_resumed [OF assms(1), of w] inv_pending [OF assms(1), of w] rest by auto
  show ?thesis
    using assms rest po st pe re di unfolding sched_inv_def by auto
qed

lemma reuse_inv:
  assumes "sched_inv s" and "owner s n = Free"
  shows "sched_inv (s\<lparr>snext := (snext s)(n := v)\<rparr>)" (is "sched_inv ?t")
proof -
  have "poster_ok ?t u (poster s u)" for u
    by (rule poster_ok_frame [OF inv_poster [OF assms(1)]]) (use assms(2) in auto)
  moreover have "n \<notin> set (stack s)" "n \<notin> set (pending s w)" for w
    using inv_queued [OF assms(1), of n] inv_working [OF assms(1), of n w] assms(2) by auto
  ultimately show ?thesis
    using assms(1) unfolding sched_inv_def by (simp add: worker_ok_frame)
qed

lemma test_single_ok:
  "worker_ok nx todo (W_taken h) \<Longrightarrow> h = 0 \<or> nx h = 0 \<Longrightarrow> worker_ok nx todo (W_run h)"
  by (cases "rev todo") (auto simp: rev_eq_Cons_iff)

lemma test_many_ok:
  "worker_ok nx todo (W_taken h) \<Longrightarrow> worker_ok nx todo (W_reverse 0 h)"
  by (auto intro!: exI [of _ "rev todo"])

lemma reverse_one_ok:
  assumes "worker_ok nx todo (W_reverse prev h)" and "distinct todo" and "h \<noteq> 0"
    and "reverse_step nx prev h = (nx', prev', h')"
  shows "worker_ok nx' todo (W_reverse prev' h')"
    and "a \<notin> set todo \<Longrightarrow> nx' a = nx a"
proof -
  obtain xs ys where "todo = rev ys @ xs" "chain nx prev xs" "chain nx h ys"
    using assms(1) by auto
  moreover from this assms(2) have "distinct (ys @ xs)" by auto
  ultimately obtain zs where "ys = h # zs" "chain nx' prev' (h # xs)" "chain nx' h' zs"
    using reverse_step_chains [OF _ _ assms(3) _ assms(4)] by blast
  then show "worker_ok nx' todo (W_reverse prev' h')"
    using \<open>todo = rev ys @ xs\<close>
    by (simp only: worker_ok.simps) (intro exI [of _ "h # xs"] exI [of _ zs], simp)
  show "a \<notin> set todo \<Longrightarrow> nx' a = nx a"
    using assms(4) \<open>todo = rev ys @ xs\<close> \<open>ys = h # zs\<close> by (auto simp: reverse_step_def)
qed

lemma sched_step_inv: "sched_step s t \<Longrightarrow> sched_inv s \<Longrightarrow> sched_inv t"
proof (induction rule: sched_step.induct)
  case (test_single s w h)
  then show ?case
    using worker_inv [OF test_single(3), of "snext s" w "W_run h"] inv_worker [OF test_single(3), of w]
      test_single_ok by auto
next
  case (test_many s w h)
  then show ?case
    using worker_inv [OF test_many(4), of "snext s" w "W_reverse 0 h"]
      inv_worker [OF test_many(4), of w] test_many_ok by auto
next
  case (reverse_one s w prev h nx prev' h')
  then show ?case
    using reverse_one_ok [of "snext s" "pending s w" prev h nx prev' h'] inv_worker [of s w]
      inv_pending [of s w]
    by (intro worker_inv) auto
next
  case (reverse_done s w prev)
  then show ?case
    using worker_inv [OF reverse_done(2), of "snext s" w "W_run prev"]
      inv_worker [OF reverse_done(2), of w] by auto
next
  case (run_load s w h)
  then show ?case
    using worker_inv [OF run_load(3), of "snext s" w "W_resume h (snext s h)"]
      inv_worker [OF run_load(3), of w] by (auto simp: chain_nonnull)
next
  case (run_done s w)
  then show ?case
    using worker_inv [OF run_done(2), of "snext s" w "W_idle"]
      inv_worker [OF run_done(2), of w] by auto
qed (blast intro: post_load_inv post_store_inv post_cas_ok_inv post_cas_fail_inv take_inv
      resume_inv reuse_inv)+

lemma sched_reach_inv: "sched_reach s \<Longrightarrow> sched_inv s"
  by (induction rule: sched_reach.induct) (auto intro: sched_inv_init sched_step_inv)

section \<open>What the threads achieve\<close>

text \<open>
  The specification of the shared state: a queue, appended to by one node at a time and emptied by
  handing its whole content to a worker.
\<close>

inductive queue_step ::
    "addr list \<times> (nat \<times> addr list) list \<Rightarrow> addr list \<times> (nat \<times> addr list) list \<Rightarrow> bool" where
  enqueue: "n \<notin> set q \<Longrightarrow> queue_step (q, bs) (q @ [n], bs)"
| drain: "queue_step (q, bs) ([], bs @ [(w, q)])"

lemma queued_stack: "sched_inv s \<Longrightarrow> queued (sched.truncate s) q \<longleftrightarrow> q = rev (stack s)"
  using inv_chain [of s] inv_distinct [of s]
  by (auto simp: queued_def sched.truncate_def dest: chain_unique)

lemma step_stack:
  "sched_step s t \<Longrightarrow> sched_inv s \<Longrightarrow>
   (stack t = stack s \<and> batches t = batches s) \<or>
   (\<exists>n. n \<notin> set (stack s) \<and> stack t = n # stack s \<and> batches t = batches s) \<or>
   (\<exists>w. stack t = [] \<and> batches t = batches s @ [(w, rev (stack s))])"
proof (induction rule: sched_step.induct)
  case (post_cas_ok s t n h)
  then have "owner s n = Posting t"
    using inv_poster [OF post_cas_ok(3), of t] by simp
  then show ?case
    using inv_queued [OF post_cas_ok(3), of n] by auto
qed auto

text \<open>
  C2: Under every interleaving the lock-free stack refines the queue: what the memory of the scheduler
  holds, read off the chain from \<open>head_\<close>, changes only by appending a posted node or by handing the
  whole queue, oldest first, to the thread whose exchange took it; every other step leaves it alone.
\<close>

theorem sched_refines_queue:
  assumes "sched_reach s" and "sched_step s t"
  shows "\<exists>q q'. queued (sched.truncate s) q \<and> queued (sched.truncate t) q' \<and>
           ((q', batches t) = (q, batches s) \<or> queue_step (q, batches s) (q', batches t))"
proof -
  have s: "sched_inv s" and t: "sched_inv t"
    using assms sched_reach_inv sched_reach.step by blast+
  show ?thesis
    using step_stack [OF assms(2) s] queued_stack [OF s] queued_stack [OF t]
      queue_step.enqueue [of _ "rev (stack s)" "batches s"]
      queue_step.drain [of "rev (stack s)" "batches s"]
    by auto
qed

theorem sched_refines_queue_witness:
  "\<exists>q q'. queued (sched.truncate init_sys) q \<and>
     queued (sched.truncate (init_sys\<lparr>poster := (poster init_sys)(3 := P_loaded 8 0),
                                      owner := (owner init_sys)(8 := Posting 3)\<rparr>)) q' \<and>
     (q' = q \<or> queue_step (q, []) (q', []))"
proof -
  have "sched_step init_sys (init_sys\<lparr>poster := (poster init_sys)(3 := P_loaded 8 (shead init_sys)),
                                      owner := (owner init_sys)(8 := Posting 3)\<rparr>)"
    by (rule sched_step.post_load) (simp_all add: init_sys_def)
  from sched_refines_queue [OF sched_reach.start this] show ?thesis
    by (simp add: init_sys_def)
qed

text \<open>A whole round: thread 1 posts node 8, thread 0 takes, resumes and becomes idle again.\<close>

lemma sched_round:
  "\<exists>s. sched_reach s \<and> posted s = [8] \<and> (\<forall>b \<in> set (batches s). fst b = 0) \<and>
       worker s 0 = W_idle \<and> shead s = 0"
proof -
  note r = sched_reach.step
  note s1 = r [OF sched_reach.start sched_step.post_load [of init_sys 1 8],
    simplified init_sys_def, simplified]
  note s2 = r [OF s1 sched_step.post_store [of _ 1 8 0], simplified]
  note s3 = r [OF s2 sched_step.post_cas_ok [of _ 1 8 0], simplified]
  note s4 = r [OF s3 sched_step.take [of _ 0], simplified]
  note s5 = r [OF s4 sched_step.test_single [of _ 0 8], simplified]
  note s6 = r [OF s5 sched_step.run_load [of _ 0 8], simplified]
  note s7 = r [OF s6 sched_step.resume [of _ 0 8 0], simplified]
  note s8 = r [OF s7 sched_step.run_done [of _ 0], simplified]
  show ?thesis
    by (intro exI conjI, rule s8) simp_all
qed

text \<open>
  C1: No coroutine is lost or resumed twice: at any moment the coroutines posted so far are, in order,
  the batches handed out and what is still on the stack; each worker has resumed a first part of its
  batches, in order; and no coroutine is in the hands of two workers.
\<close>

theorem sched_exactly_once:
  assumes "sched_reach s"
  shows "posted s = concat (map snd (batches s)) @ rev (stack s) \<and>
         chain (snext s) (shead s) (stack s) \<and>
         (\<forall>w. prefix (resumed s w) (batch_of w (batches s))) \<and>
         (\<forall>v w. v \<noteq> w \<longrightarrow> set (pending s v) \<inter> set (pending s w) = {})"
proof -
  note inv = sched_reach_inv [OF assms]
  have "prefix (resumed s w) (batch_of w (batches s))" for w
    using inv_resumed [OF inv, of w] by (metis prefixI)
  moreover have "set (pending s v) \<inter> set (pending s w) = {}" if "v \<noteq> w" for v w
    using inv_working [OF inv, of _ v] inv_working [OF inv, of _ w] that
    by (metis disjoint_iff node_owner.inject(2))
  ultimately show ?thesis
    using inv_posted [OF inv] inv_chain [OF inv] by simp
qed

theorem sched_exactly_once_witness:
  "\<exists>s. sched_reach s \<and> posted s = [8] \<and> posted s = concat (map snd (batches s)) @ rev (stack s)"
proof -
  obtain s where "sched_reach s" "posted s = [8]" using sched_round by blast
  with sched_exactly_once [of s] show ?thesis by blast
qed

text \<open>
  C3: With one thread running the scheduler, coroutines are resumed in the order their posts took
  effect, and whenever that thread is idle and \<open>head_\<close> is null, every posted coroutine has been
  resumed.
\<close>

theorem sched_single_worker_fifo:
  assumes "sched_reach s" and "\<forall>b \<in> set (batches s). fst b = w"
  shows "prefix (resumed s w) (posted s) \<and>
         (worker s w = W_idle \<and> shead s = 0 \<longrightarrow> resumed s w = posted s)"
proof -
  note inv = sched_reach_inv [OF assms(1)]
  have "batch_of w (batches s) = concat (map snd (batches s))"
    using assms(2) by (simp add: batch_of_def filter_id_conv [THEN iffD2])
  then have split: "posted s = resumed s w @ pending s w @ rev (stack s)"
    using inv_posted [OF inv] inv_resumed [OF inv, of w] by simp
  have "worker s w = W_idle \<and> shead s = 0 \<longrightarrow> pending s w = [] \<and> stack s = []"
    using inv_worker [OF inv, of w] inv_chain [OF inv] by auto
  with split show ?thesis by (auto simp: prefix_def)
qed

theorem sched_single_worker_fifo_witness:
  "\<exists>s. sched_reach s \<and> posted s = [8] \<and> resumed s 0 = [8]"
proof -
  obtain s where s: "sched_reach s" "posted s = [8]" "\<forall>b \<in> set (batches s). fst b = 0"
    "worker s 0 = W_idle" "shead s = 0" using sched_round by blast
  with sched_single_worker_fifo [OF s(1,3)] show ?thesis by auto
qed

end
