(* ===== verification/Step_Systems.thy ===== *)
theory Step_Systems
  imports Prelude
begin

text \<open>
  What the step relations of several components have in common: an invariant kept by every step, and a
  rank that every step lowers. The rank is a relation, so that it may depend on what a state does not
  record.
\<close>

section \<open>Invariants\<close>

locale invariant_system =
  fixes step :: "'s \<Rightarrow> 's \<Rightarrow> bool"
    and inv :: "'s \<Rightarrow> bool"
  assumes inv_step: "inv s \<Longrightarrow> step s t \<Longrightarrow> inv t"
begin

lemma inv_steps: "rtranclp step s t \<Longrightarrow> inv s \<Longrightarrow> inv t"
  by (induction rule: rtranclp_induct) (auto intro: inv_step)

end

section \<open>Ranks\<close>

locale ranked_system =
  fixes step :: "'s \<Rightarrow> 's \<Rightarrow> bool"
    and rank :: "'s \<Rightarrow> 'm \<Rightarrow> bool"
    and less :: "('m \<times> 'm) set"
  assumes wf_less: "wf less"
    and rank_step: "rank s a \<Longrightarrow> step s t \<Longrightarrow> \<exists>b. rank t b \<and> (b, a) \<in> less"
begin

text \<open>A ranked state stays ranked, no run from it goes on for ever, and some run ends.\<close>

sublocale ranked: invariant_system step "\<lambda>s. \<exists>a. rank s a"
  using rank_step by unfold_locales fast

lemma no_endless_run: "\<exists>a. rank (f 0) a \<Longrightarrow> \<exists>i. \<not> step (f i) (f (Suc i))"
proof (rule ccontr)
  assume start: "\<exists>a. rank (f 0) a" and "\<nexists>i. \<not> step (f i) (f (Suc i))"
  then have steps: "step (f i) (f (Suc i))" for i by blast
  have "\<forall>i. rank (f i) a \<longrightarrow> False" for a
    using wf_less
  proof (induction a)
    case (less a)
    show ?case
    proof (intro allI impI)
      fix i assume "rank (f i) a"
      from rank_step [OF this steps] obtain b where "rank (f (Suc i)) b" "(b, a) \<in> less" by blast
      with less show False by blast
    qed
  qed
  with start show False by blast
qed

lemma run_ends: "rank s a \<Longrightarrow> \<exists>t. rtranclp step s t \<and> (\<forall>u. \<not> step t u)"
  using wf_less
proof (induction a arbitrary: s)
  case (less a)
  show ?case
  proof (cases "\<exists>t. step s t")
    case True
    then obtain t where t: "step s t" by blast
    from rank_step [OF less.prems t] obtain b where "rank t b" "(b, a) \<in> less" by blast
    with less.IH [of b t] t show ?thesis by (blast intro: converse_rtranclp_into_rtranclp)
  qed blast
qed

end

end
