(* ===== verification/Rendezvous.thy ===== *)
theory Rendezvous
  imports Prelude
begin

text \<open>
  The interface of a two-party meeting, used by coroutines that wait for a completion: the awaiting
  side leaves its continuation and then exchanges a flag, the completing side exchanges the same
  flag, and whoever comes second takes care that the awaiting coroutine runs on. Tasks
  (\<open>ice/async.hpp\<close>) and overlapped events (\<open>ice/net/event.hpp\<close>) both provide it.
\<close>

section \<open>Moves of the two parties\<close>

datatype move = Leave | Wait | Finish

record ('s, 'c) meeting =
  shared :: 's
  suspended :: bool
  run_on :: "'c list"

section \<open>The interface\<close>

text \<open>
  \<open>leave\<close> stores the continuation, \<open>wait\<close> exchanges the flag for the awaiting side and says whether it
  stays suspended, \<open>finish\<close> exchanges it for the completing side and says whom it resumes.
\<close>

locale rendezvous =
  fixes leave :: "'c \<Rightarrow> 's \<Rightarrow> 's"
    and wait :: "'s \<Rightarrow> bool \<times> 's"
    and finish :: "'s \<Rightarrow> 'c option \<times> 's"
    and arrived :: "'s \<Rightarrow> bool"
    and left :: "'s \<Rightarrow> 'c"
  assumes arrived_leave: "arrived (leave c s) = arrived s"
    and left_leave: "left (leave c s) = c"
    and wait_result: "fst (wait s) = (\<not> arrived s)"
    and wait_arrived: "arrived (snd (wait s))"
    and wait_left: "left (snd (wait s)) = left s"
    and finish_result: "fst (finish s) = (if arrived s then Some (left s) else None)"
    and finish_arrived: "arrived (snd (finish s))"
    and finish_left: "left (snd (finish s)) = left s"
begin

text \<open>
  One move on the meeting. An awaiting side that is not suspended by its exchange runs on at once;
  both that and a resumption by the other side are recorded in \<open>run_on\<close>.
\<close>

fun play_move :: "'c \<Rightarrow> ('s, 'c) meeting \<Rightarrow> move \<Rightarrow> ('s, 'c) meeting" where
  "play_move c m Leave = m\<lparr>shared := leave c (shared m)\<rparr>"
| "play_move c m Wait =
     (let (stays, s) = wait (shared m)
      in if stays then m\<lparr>shared := s, suspended := True\<rparr>
         else m\<lparr>shared := s, run_on := run_on m @ [c]\<rparr>)"
| "play_move c m Finish =
     (let (whom, s) = finish (shared m)
      in m\<lparr>shared := s, run_on := run_on m @ (case whom of Some d \<Rightarrow> [d] | None \<Rightarrow> [])\<rparr>)"

definition play :: "'c \<Rightarrow> 's \<Rightarrow> move list \<Rightarrow> ('s, 'c) meeting" where
  "play c s ms = fold (\<lambda>p m. play_move c m p) ms \<lparr>shared = s, suspended = False, run_on = []\<rparr>"

lemmas laws =
  arrived_leave left_leave wait_result wait_arrived wait_left finish_result finish_arrived finish_left

lemma orders: "ms \<in> shuffles [Leave, Wait] [Finish] \<Longrightarrow>
   ms = [Leave, Wait, Finish] \<or> ms = [Leave, Finish, Wait] \<or> ms = [Finish, Leave, Wait]"
  by auto

text \<open>In every order of the three accesses the awaiting side runs on exactly once.\<close>

lemma runs_on_once:
  assumes "\<not> arrived s" and "ms \<in> shuffles [Leave, Wait] [Finish]"
  shows "run_on (play c s ms) = [c]"
  using orders [OF assms(2)] assms(1)
  by (elim disjE)
     (simp_all add: play_def case_prod_beta laws)

text \<open>The awaiting side stays suspended exactly when its exchange came before the completion's.\<close>

lemma suspended_iff_first:
  assumes "\<not> arrived s" and "ms \<in> shuffles [Leave, Wait] [Finish]"
  shows "suspended (play c s ms) \<longleftrightarrow> ms = [Leave, Wait, Finish]"
  using orders [OF assms(2)] assms(1)
  by (elim disjE)
     (simp_all add: play_def case_prod_beta laws)

text \<open>The completion alone resumes nobody.\<close>

lemma finish_alone: "\<not> arrived s \<Longrightarrow> run_on (play c s [Finish]) = []"
  by (simp add: play_def case_prod_beta laws)

end

end
