(* ===== verification/Async_Task.thy ===== *)
theory Async_Task
  imports Rendezvous Handle
begin

text \<open>
  The lazy task \<open>async<T>\<close> of \<open>ice/async.hpp\<close>: the continuation, the promise and its two-party
  protocol, the ownership of the coroutine frame, and the life of one awaited task as a step
  relation over the awaiting coroutine and the body, which may run on different threads.
\<close>

section \<open>Continuations\<close>

text \<open>A callback and a pointer; a null callback means that the pointer is a coroutine.\<close>

record continuation =
  m_callback :: addr
  m_state :: addr

definition no_continuation :: continuation where
  "no_continuation = \<lparr>m_callback = 0, m_state = 0\<rparr>"

definition continuation_of_awaiter :: "addr \<Rightarrow> continuation" where
  "continuation_of_awaiter awaiter = \<lparr>m_callback = 0, m_state = awaiter\<rparr>"

definition continuation_of_callback :: "addr \<Rightarrow> addr \<Rightarrow> continuation" where
  "continuation_of_callback callback state = \<lparr>m_callback = callback, m_state = state\<rparr>"

definition continuation_set :: "continuation \<Rightarrow> bool" where
  "continuation_set c \<longleftrightarrow> m_callback c \<noteq> 0 \<or> m_state c \<noteq> 0"

datatype continuation_call = Resume_coroutine addr | Call_callback addr addr

definition continuation_resume :: "continuation \<Rightarrow> continuation_call" where
  "continuation_resume c =
     (if m_callback c = 0 then Resume_coroutine (m_state c)
      else Call_callback (m_callback c) (m_state c))"

section \<open>The promise\<close>

text \<open>
  \<open>m_state\<close> is exchanged once by the awaiting side and once by the final suspend point. The value
  storage is raw memory until \<open>return_value\<close> builds the result in it; the exception pointer is null
  until \<open>unhandled_exception\<close> sets it.
\<close>

record ('a, 'e) promise =
  p_state :: bool
  p_continuation :: continuation
  p_exception :: "'e option"
  p_value :: "'a option"

definition new_promise :: "('a, 'e) promise" where
  "new_promise =
     \<lparr>p_state = False, p_continuation = no_continuation, p_exception = None, p_value = None\<rparr>"

definition return_value :: "'a \<Rightarrow> ('a, 'e) promise \<Rightarrow> ('a, 'e) promise" where
  "return_value v p = p\<lparr>p_value := Some v\<rparr>"

definition unhandled_exception :: "'e \<Rightarrow> ('a, 'e) promise \<Rightarrow> ('a, 'e) promise" where
  "unhandled_exception e p = p\<lparr>p_exception := Some e\<rparr>"

text \<open>\<open>try_set_continuation\<close> is a plain write followed by the exchange; the result says who is first.\<close>

definition set_continuation :: "continuation \<Rightarrow> ('a, 'e) promise \<Rightarrow> ('a, 'e) promise" where
  "set_continuation c p = p\<lparr>p_continuation := c\<rparr>"

definition exchange_awaiter :: "('a, 'e) promise \<Rightarrow> bool \<times> ('a, 'e) promise" where
  "exchange_awaiter p = (\<not> p_state p, p\<lparr>p_state := True\<rparr>)"

definition try_set_continuation ::
    "continuation \<Rightarrow> ('a, 'e) promise \<Rightarrow> bool \<times> ('a, 'e) promise" where
  "try_set_continuation c p = exchange_awaiter (set_continuation c p)"

text \<open>\<open>final_awaitable::await_suspend\<close>: whom the finished task resumes.\<close>

definition final_exchange :: "('a, 'e) promise \<Rightarrow> continuation option \<times> ('a, 'e) promise" where
  "final_exchange p =
     (if p_state p then Some (p_continuation p) else None, p\<lparr>p_state := True\<rparr>)"

text \<open>\<open>result()\<close>: rethrow, or read the storage; reading raw memory is \<^const>\<open>None\<close>.\<close>

definition promise_result :: "('a, 'e) promise \<Rightarrow> ('e + 'a) option" where
  "promise_result p =
     (case p_exception p of Some e \<Rightarrow> Some (Inl e) | None \<Rightarrow> map_option Inr (p_value p))"

text \<open>
  The destructor of the promise destroys the value when \<open>completed()\<close> and no exception is stored;
  destroying raw memory is \<^const>\<open>None\<close>.
\<close>

definition promise_destroy :: "('a, 'e) promise \<Rightarrow> ('a, 'e) promise option" where
  "promise_destroy p =
     (if p_state p \<and> p_exception p = None
      then (case p_value p of Some v \<Rightarrow> Some (p\<lparr>p_value := None\<rparr>) | None \<Rightarrow> None)
      else Some p)"

text \<open>
  \<open>await_resume\<close> of \<open>co_await\<close>: an empty task throws \<open>broken_promise\<close>; otherwise the result of the
  promise, with \<^const>\<open>None\<close> for raw memory as before.
\<close>

datatype 'e await_error = Broken_promise | Rethrown 'e

definition await_resume :: "addr \<Rightarrow> ('a, 'e) promise \<Rightarrow> ('e await_error + 'a) option" where
  "await_resume coroutine p =
     (if coroutine = 0 then Some (Inl Broken_promise)
      else map_option (map_sum Rethrown id) (promise_result p))"

text \<open>
  \<open>start\<close> of the starter: run the body up to its first suspension (\<open>run\<close>), then leave the continuation,
  or resume it at once when there is no body or it has finished. The list says what is resumed.
\<close>

definition starter_start ::
    "(addr \<Rightarrow> bool) \<Rightarrow> addr \<Rightarrow> continuation \<Rightarrow> (('a, 'e) promise \<Rightarrow> ('a, 'e) promise) \<Rightarrow>
     ('a, 'e) promise \<Rightarrow> ('a, 'e) promise \<times> continuation list" where
  "starter_start done coroutine c run p =
     (if coroutine \<noteq> 0 \<and> \<not> done coroutine
      then (let (stays, p1) = try_set_continuation c (run p)
            in if stays then (p1, []) else (p1, [c]))
      else (p, [c]))"

text \<open>The promise provides the meeting of the awaiting coroutine and the final suspend point.\<close>

interpretation promise: rendezvous set_continuation exchange_awaiter final_exchange p_state
    p_continuation
  by unfold_locales (simp_all add: set_continuation_def exchange_awaiter_def final_exchange_def)

text \<open>
  In every order of the accesses of the two sides, the awaiting coroutine of a task runs on exactly
  once: it does not suspend, or the final suspend point resumes the continuation it left.
\<close>

theorem promise_resumes_once:
  assumes "\<not> p_state p" and "ms \<in> shuffles [Leave, Wait] [Finish]"
  shows "run_on (promise.play c p ms) = [c] \<and>
         (suspended (promise.play c p ms) \<longleftrightarrow> ms = [Leave, Wait, Finish])"
  using promise.runs_on_once [OF assms] promise.suspended_iff_first [OF assms] by simp

theorem promise_resumes_once_witness:
  "run_on (promise.play (continuation_of_awaiter 5) (new_promise :: (int, int) promise)
             [Finish, Leave, Wait]) = [continuation_of_awaiter 5]"
proof -
  have "\<not> p_state (new_promise :: (int, int) promise)" by (simp add: new_promise_def)
  moreover have "[Finish, Leave, Wait] \<in> shuffles [Leave, Wait] [Finish]" by simp
  ultimately show ?thesis using promise_resumes_once by blast
qed

text \<open>
  Started through the starter, a body that suspends before its end leaves the continuation to its
  final suspend point, which resumes it; a body that ran to its end has it resumed by \<open>start\<close>.
\<close>

lemma starter_start_continues:
  assumes "coroutine \<noteq> 0" and "\<not> done coroutine" and "\<not> p_state p"
  shows "starter_start done coroutine c id p = (p', []) \<Longrightarrow> fst (final_exchange p') = Some c"
    and "fst (final_exchange p) = None"
    and "snd (starter_start done coroutine c (\<lambda>p. snd (final_exchange p)) p) = [c]"
  using assms
  by (auto simp: starter_start_def try_set_continuation_def set_continuation_def
      exchange_awaiter_def final_exchange_def)

section \<open>Ownership of the frame\<close>

text \<open>
  An \<open>async\<close> object holds a coroutine address, null when empty; destroying it destroys the frame. The
  objects and the destroyed frames are the \<^typ>\<open>addr handles\<close> of the handle theory, with the null
  address as the invalid value.
\<close>

definition async_move :: "addr \<Rightarrow> addr \<Rightarrow> addr handles \<Rightarrow> addr handles option" where
  "async_move this other w =
     (case obj w other of
        None \<Rightarrow> None
      | Some coroutine \<Rightarrow> handle_of_value this coroutine (hstore other 0 w))"

definition async_assign :: "addr \<Rightarrow> addr \<Rightarrow> addr handles \<Rightarrow> addr handles option" where
  "async_assign this other w =
     (case (obj w this, obj w other) of
        (Some mine, Some theirs) \<Rightarrow>
          if other \<noteq> this
          then (let w1 = (if mine \<noteq> 0 then w\<lparr>closed := closed w @ [mine]\<rparr> else w)
                in Some (hstore other 0 (hstore this theirs w1)))
          else Some w
      | _ \<Rightarrow> None)"

definition async_destroy :: "addr \<Rightarrow> addr handles \<Rightarrow> addr handles option" where
  "async_destroy this w =
     (case obj w this of
        None \<Rightarrow> None
      | Some mine \<Rightarrow>
          (let w1 = (if mine \<noteq> 0 then w\<lparr>closed := closed w @ [mine]\<rparr> else w)
           in Some (w1\<lparr>obj := (obj w1)(this := None)\<rparr>)))"

text \<open>\<open>is_ready\<close> and \<open>await_ready\<close>: null, or suspended at the final suspend point.\<close>

definition async_is_ready :: "(addr \<Rightarrow> bool) \<Rightarrow> addr \<Rightarrow> bool" where
  "async_is_ready done coroutine = (coroutine = 0 \<or> done coroutine)"

text \<open>
  A task owns its frame exactly as an owning handle owns its resource: moving, assigning (also to
  itself) and destroying tasks do to the frames what the handle operations do to their values, so a
  frame is destroyed once and by its last owner.
\<close>

theorem async_owns_like_handle:
  "async_move this other w = handle_move 0 this other w \<and>
   async_assign this other w = handle_assign 0 this other w \<and>
   async_destroy this w = handle_destroy 0 this w"
proof (intro conjI)
  show "async_move this other w = handle_move 0 this other w"
    by (simp add: async_move_def handle_move_def handle_release_def split: option.split)
  show "async_assign this other w = handle_assign 0 this other w"
    by (auto simp: async_assign_def handle_defs hvalid_def fun_upd_twist map_upd_triv
        split: option.split)
  show "async_destroy this w = handle_destroy 0 this w"
    by (auto simp: async_destroy_def handle_defs hvalid_def split: option.split)
qed

end
