(* ===== verification/Async_Await.thy ===== *)
theory Async_Await
  imports Step_Systems Async_Task
begin

text \<open>
  The life of one task of \<open>ice/async.hpp\<close> that is awaited once, as a step relation: the awaiting
  coroutine goes through \<open>await_ready\<close>, \<open>await_suspend\<close> and \<open>await_resume\<close>, the body runs until it
  returns or throws and reaches its final suspend point. The body is started by the awaiting side; it
  may move to another thread at any suspension, so the two sides interleave.
\<close>

section \<open>States and steps\<close>

text \<open>
  The body is at its initial suspend point, running (or suspended in the middle), past \<open>co_return\<close> or
  a throw but before the exchange of the final suspend point, or suspended for good.
\<close>

datatype body_pc = B_initial | B_running | B_done | B_final

text \<open>
  The awaiting side: before \<open>await_ready\<close>, before and inside the \<open>resume\<close> of \<open>await_suspend\<close>, before
  the write and before the exchange of \<open>try_set_continuation\<close>, suspended, or past \<open>await_resume\<close>.
\<close>

datatype awaiter_pc = A_test | A_resume | A_inside | A_leave | A_wait | A_suspended | A_continued

text \<open>Ghost fields: whom the task continued, and the value its body returned or the exception it threw.\<close>

record ('a, 'e) task_sys =
  body :: body_pc
  awaiter :: awaiter_pc
  promise :: "('a, 'e) promise"
  continued :: "continuation list"
  body_outcome :: "('e + 'a) option"

definition fresh_task :: "('a, 'e) task_sys" where
  "fresh_task = \<lparr>body = B_initial, awaiter = A_test, promise = new_promise, continued = [],
     body_outcome = None\<rparr>"

inductive task_step ::
    "continuation \<Rightarrow> ('a, 'e) task_sys \<Rightarrow> ('a, 'e) task_sys \<Rightarrow> bool" for c where
  ready:
    "awaiter s = A_test \<Longrightarrow> body s = B_final \<Longrightarrow>
     task_step c s (s\<lparr>awaiter := A_continued, continued := continued s @ [c]\<rparr>)"
| not_ready:
    "awaiter s = A_test \<Longrightarrow> body s \<noteq> B_final \<Longrightarrow> task_step c s (s\<lparr>awaiter := A_resume\<rparr>)"
| resume_body:
    "awaiter s = A_resume \<Longrightarrow> body s = B_initial \<Longrightarrow>
     task_step c s (s\<lparr>awaiter := A_inside, body := B_running\<rparr>)"
| resume_returns:
    "awaiter s = A_inside \<Longrightarrow> task_step c s (s\<lparr>awaiter := A_leave\<rparr>)"
| set_cont:
    "awaiter s = A_leave \<Longrightarrow>
     task_step c s (s\<lparr>awaiter := A_wait, promise := set_continuation c (promise s)\<rparr>)"
| exchange_stay:
    "awaiter s = A_wait \<Longrightarrow> exchange_awaiter (promise s) = (True, p) \<Longrightarrow>
     task_step c s (s\<lparr>awaiter := A_suspended, promise := p\<rparr>)"
| exchange_go:
    "awaiter s = A_wait \<Longrightarrow> exchange_awaiter (promise s) = (False, p) \<Longrightarrow>
     task_step c s (s\<lparr>awaiter := A_continued, promise := p, continued := continued s @ [c]\<rparr>)"
| body_returns:
    "body s = B_running \<Longrightarrow>
     task_step c s (s\<lparr>body := B_done, promise := return_value v (promise s), body_outcome := Some (Inr v)\<rparr>)"
| body_throws:
    "body s = B_running \<Longrightarrow>
     task_step c s (s\<lparr>body := B_done, promise := unhandled_exception e (promise s), body_outcome := Some (Inl e)\<rparr>)"
| final_first:
    "body s = B_done \<Longrightarrow> final_exchange (promise s) = (None, p) \<Longrightarrow>
     task_step c s (s\<lparr>body := B_final, promise := p\<rparr>)"
| final_second:
    "body s = B_done \<Longrightarrow> final_exchange (promise s) = (Some d, p) \<Longrightarrow>
     task_step c s (s\<lparr>body := B_final, promise := p, awaiter := A_continued,
                      continued := continued s @ [d]\<rparr>)"

inductive task_reach :: "continuation \<Rightarrow> ('a, 'e) task_sys \<Rightarrow> bool" for c where
  start: "task_reach c fresh_task"
| step: "task_reach c s \<Longrightarrow> task_step c s t \<Longrightarrow> task_reach c t"

section \<open>The invariant\<close>

definition has_result :: "('a, 'e) promise \<Rightarrow> bool" where
  "has_result p \<longleftrightarrow> (p_value p \<noteq> None) \<noteq> (p_exception p \<noteq> None)"

definition no_result :: "('a, 'e) promise \<Rightarrow> bool" where
  "no_result p \<longleftrightarrow> p_value p = None \<and> p_exception p = None"

definition task_inv :: "continuation \<Rightarrow> ('a, 'e) task_sys \<Rightarrow> bool" where
  "task_inv c s \<longleftrightarrow>
     (p_state (promise s) \<longleftrightarrow> body s = B_final \<or> awaiter s = A_suspended) \<and>
     (if body s \<in> {B_done, B_final}
      then has_result (promise s) \<and> body_outcome s = promise_result (promise s) else no_result (promise s)) \<and>
     (body s = B_initial \<longleftrightarrow> awaiter s \<in> {A_test, A_resume}) \<and>
     (awaiter s = A_suspended \<longrightarrow> body s \<noteq> B_final) \<and>
     (awaiter s = A_continued \<longrightarrow> body s = B_final) \<and>
     (awaiter s \<in> {A_wait, A_suspended} \<longrightarrow> p_continuation (promise s) = c) \<and>
     continued s = (if awaiter s = A_continued then [c] else [])"

lemmas promise_defs =
  set_continuation_def exchange_awaiter_def final_exchange_def return_value_def
  unhandled_exception_def has_result_def no_result_def promise_result_def

lemma task_inv_fresh: "task_inv c fresh_task"
  by (simp add: task_inv_def fresh_task_def new_promise_def no_result_def)

lemma task_step_inv: "task_step c s t \<Longrightarrow> task_inv c s \<Longrightarrow> task_inv c t"
  by (induction rule: task_step.induct)
     (auto simp: task_inv_def promise_defs split: if_splits)

lemma task_reach_inv: "task_reach c s \<Longrightarrow> task_inv c s"
  by (induction rule: task_reach.induct) (auto intro: task_inv_fresh task_step_inv)

section \<open>Every run ends\<close>

text \<open>How many steps the body and the awaiting side have before them at most.\<close>

fun body_to_go :: "body_pc \<Rightarrow> nat" where
  "body_to_go B_initial = 3"
| "body_to_go B_running = 2"
| "body_to_go B_done = 1"
| "body_to_go B_final = 0"

fun awaiter_to_go :: "awaiter_pc \<Rightarrow> nat" where
  "awaiter_to_go A_test = 6"
| "awaiter_to_go A_resume = 5"
| "awaiter_to_go A_inside = 4"
| "awaiter_to_go A_leave = 3"
| "awaiter_to_go A_wait = 2"
| "awaiter_to_go A_suspended = 1"
| "awaiter_to_go A_continued = 0"

definition task_rank :: "('a, 'e) task_sys \<Rightarrow> nat \<Rightarrow> bool" where
  "task_rank s n \<longleftrightarrow> n = body_to_go (body s) + awaiter_to_go (awaiter s)"

interpretation task_runs: ranked_system "task_step c" task_rank less_than for c
proof
  show "\<exists>b. task_rank t b \<and> (b, a) \<in> less_than" if "task_rank s a" "task_step c s t" for s t :: "('a, 'e) task_sys" and a
    using that(2,1) by (cases rule: task_step.cases) (simp_all add: task_rank_def)
qed simp

text \<open>No run of an awaited task goes on for ever.\<close>

lemma task_runs_end:
  "f 0 = (fresh_task :: ('a, 'e) task_sys) \<Longrightarrow> \<exists>i. \<not> task_step c (f i) (f (Suc i))"
  "\<exists>t. rtranclp (task_step c) (fresh_task :: ('a, 'e) task_sys) t \<and> (\<forall>u. \<not> task_step c t u)"
  using task_runs.no_endless_run [of f c] task_runs.run_ends [of fresh_task 9 c]
  by (simp_all add: task_rank_def fresh_task_def)

section \<open>A run\<close>

text \<open>
  The awaiter suspends while the body still runs elsewhere; then the body returns 7 and its final
  suspend point resumes the awaiter.
\<close>

lemma run_suspended:
  "\<exists>s :: (int, int) task_sys. task_reach (continuation_of_awaiter 5) s \<and> body s = B_running \<and>
     awaiter s = A_suspended \<and> promise s = new_promise\<lparr>p_state := True,
       p_continuation := continuation_of_awaiter 5\<rparr> \<and> continued s = []"
proof -
  let ?c = "continuation_of_awaiter 5"
  note r = task_reach.step
  note s1 = r [OF task_reach.start task_step.not_ready [of fresh_task ?c], simplified fresh_task_def,
    simplified]
  note s2 = r [OF s1 task_step.resume_body [of _ ?c], simplified]
  note s3 = r [OF s2 task_step.resume_returns [of _ ?c], simplified]
  note s4 = r [OF s3 task_step.set_cont [of _ ?c], simplified]
  note s5 = r [OF s4 task_step.exchange_stay [of _ _ ?c], simplified exchange_awaiter_def
    set_continuation_def new_promise_def, simplified]
  show ?thesis
    by (intro exI conjI, rule s5) (simp_all add: new_promise_def)
qed

lemma run_continued:
  "\<exists>s :: (int, int) task_sys. task_reach (continuation_of_awaiter 5) s \<and>
     awaiter s = A_continued \<and> body s = B_final \<and> promise_result (promise s) = Some (Inr 7) \<and>
     (\<forall>t. \<not> task_step (continuation_of_awaiter 5) s t)"
proof -
  let ?c = "continuation_of_awaiter 5"
  obtain s :: "(int, int) task_sys" where s: "task_reach ?c s" "body s = B_running"
    "awaiter s = A_suspended"
    "promise s = new_promise\<lparr>p_state := True, p_continuation := ?c\<rparr>"
    using run_suspended by blast
  let ?p = "return_value 7 (promise s)"
  let ?u = "s\<lparr>body := B_done, promise := ?p, body_outcome := Some (Inr 7)\<rparr>"
  let ?t = "?u\<lparr>body := B_final, promise := ?p\<lparr>p_state := True\<rparr>, awaiter := A_continued,
             continued := continued ?u @ [?c]\<rparr>"
  have u: "task_reach ?c ?u"
    by (rule task_reach.step [OF s(1) task_step.body_returns [OF s(2)]])
  have "task_step ?c ?u ?t"
    by (rule task_step.final_second) (simp_all add: s final_exchange_def return_value_def)
  from task_reach.step [OF u this] have t: "task_reach ?c ?t" .
  have "\<not> task_step ?c ?t v" for v
    by (auto elim: task_step.cases)
  moreover have "promise_result (promise ?t) = Some (Inr 7)"
    by (simp add: promise_result_def return_value_def s new_promise_def)
  ultimately show ?thesis
    using t by (intro exI [of _ ?t]) simp
qed

section \<open>What awaiting a task gives\<close>

text \<open>
  C9: An awaited task never resumes its awaiter before the body has finished and never twice; when the
  awaiter runs on, \<open>result()\<close> gives the very value that the body returned, or rethrows the exception that
  it threw, and never reads raw memory.
\<close>

theorem await_continues_once:
  assumes "task_reach c s"
  shows "length (continued s) \<le> 1 \<and> set (continued s) \<subseteq> {c} \<and>
         (awaiter s = A_continued \<longrightarrow> body s = B_final \<and>
            (\<exists>r. body_outcome s = Some r \<and> promise_result (promise s) = Some r))"
  using task_reach_inv [OF assms]
  by (auto simp: task_inv_def has_result_def promise_result_def split: option.split if_splits)

theorem await_continues_once_witness:
  "\<exists>s :: (int, int) task_sys. awaiter s = A_continued \<and> set (continued s) \<subseteq> {continuation_of_awaiter 5} \<and>
     body s = B_final \<and> body_outcome s = Some (Inr 7)"
proof -
  obtain s :: "(int, int) task_sys" where s: "task_reach (continuation_of_awaiter 5) s"
    "awaiter s = A_continued" "promise_result (promise s) = Some (Inr 7)" using run_continued by blast
  from await_continues_once [OF s(1)] s(2,3) show ?thesis by auto
qed

text \<open>
  C10: No wake-up is lost: as long as the awaiter has not run on, some step of the task is possible, so
  a state from which nothing moves is one where the awaiter has its result.
\<close>

theorem await_no_lost_wakeup:
  assumes "task_reach c s" and "\<And>t. \<not> task_step c s t"
  shows "awaiter s = A_continued \<and> body s = B_final"
proof (rule ccontr)
  assume stuck: "\<not> (awaiter s = A_continued \<and> body s = B_final)"
  note inv = task_reach_inv [OF assms(1)]
  have "\<exists>t. task_step c s t"
  proof (cases "awaiter s")
    case A_test
    then show ?thesis by (metis task_step.ready task_step.not_ready)
  next
    case A_resume
    then show ?thesis using inv by (auto simp: task_inv_def intro: task_step.resume_body)
  next
    case A_inside
    then show ?thesis by (blast intro: task_step.resume_returns)
  next
    case A_leave
    then show ?thesis by (blast intro: task_step.set_cont)
  next
    case A_wait
    then show ?thesis
      by (metis task_step.exchange_go task_step.exchange_stay exchange_awaiter_def)
  next
    case A_suspended
    with inv have "body s = B_running \<or> body s = B_done"
      by (cases "body s") (auto simp: task_inv_def)
    then show ?thesis
      by (metis task_step.body_returns task_step.final_first task_step.final_second
          final_exchange_def option.exhaust)
  next
    case A_continued
    with inv stuck show ?thesis by (auto simp: task_inv_def)
  qed
  with assms(2) show False by blast
qed

theorem await_no_lost_wakeup_witness:
  "\<exists>s :: (int, int) task_sys. task_reach (continuation_of_awaiter 5) s \<and> awaiter s = A_continued"
proof -
  obtain s :: "(int, int) task_sys" where "task_reach (continuation_of_awaiter 5) s"
    "\<And>t. \<not> task_step (continuation_of_awaiter 5) s t" using run_continued by blast
  with await_no_lost_wakeup [of _ s] show ?thesis by blast
qed

text \<open>
  C40: Destroying the frame of a task destroys a value that was never built exactly when the task is
  suspended in the middle of its body with its awaiter suspended on it: \<open>try_set_continuation\<close> has
  set the flag that \<open>completed()\<close> reads. In every other state the destruction is defined.
\<close>

theorem destroy_raw_value_iff:
  assumes "task_reach c s"
  shows "promise_destroy (promise s) = None \<longleftrightarrow> body s = B_running \<and> awaiter s = A_suspended"
  using task_reach_inv [OF assms]
  by (cases "body s") (auto simp: task_inv_def promise_destroy_def has_result_def no_result_def
      split: option.splits if_splits)

theorem destroy_raw_value_iff_witness:
  "\<exists>s :: (int, int) task_sys. task_reach (continuation_of_awaiter 5) s \<and>
     promise_destroy (promise s) = None"
proof -
  obtain s :: "(int, int) task_sys" where "task_reach (continuation_of_awaiter 5) s"
    "body s = B_running" "awaiter s = A_suspended" using run_suspended by blast
  with destroy_raw_value_iff [of _ s] show ?thesis by blast
qed

end
