(* ===== verification/Async_Mutex.thy ===== *)
theory Async_Mutex
  imports Chain
begin

text \<open>
  The asynchronous mutex of \<open>ice/async.hpp\<close>. One word holds the state: unlocked, locked without new
  waiters, or the newest node of the stack of waiting lock operations; \<open>m_waiters\<close>, touched by the
  owner only, holds the older waiters in order. Any number of coroutines lock and unlock at once; one
  step is one atomic access, and the weak exchanges may fail at any time.
\<close>

section \<open>State\<close>

definition not_locked :: addr where
  "not_locked = 1"

definition locked_no_waiters :: addr where
  "locked_no_waiters = 0"

text \<open>
  Where a coroutine stands: not using the mutex; in \<open>await_suspend\<close> with its node and the state it last
  saw, before and after it linked the node; suspended; owner of the lock; and in \<open>unlock\<close>: before the
  exchange that releases, before the one that takes the stack, in the reversal loop with
  \<open>waitersHead\<close> and \<open>next\<close>, and before it hands over to \<open>waitersHead\<close>.
\<close>

datatype mutex_pc =
    M_idle
  | M_old addr addr
  | M_linked addr addr
  | M_suspended addr
  | M_owner
  | M_release
  | M_take
  | M_reverse addr addr
  | M_hand_over addr

text \<open>
  Ghost fields: the user of each node, the coroutine that owns or releases the lock, the waiters on
  the stack from the newest on, the older ones from the oldest on, and the nodes in the order they
  began to wait and in the order they were given the lock.
\<close>

record mutex_sys =
  m_state :: addr
  m_waiters :: addr
  m_next :: "addr \<Rightarrow> addr"
  pc :: "nat \<Rightarrow> mutex_pc"
  user :: "addr \<Rightarrow> nat option"
  holder :: "nat option"
  newer :: "addr list"
  older :: "addr list"
  arrivals :: "addr list"
  grants :: "addr list"

definition new_mutex :: mutex_sys where
  "new_mutex =
     \<lparr>m_state = not_locked, m_waiters = 0, m_next = (\<lambda>_. 0), pc = (\<lambda>_. M_idle),
      user = (\<lambda>_. None), holder = None, newer = [], older = [], arrivals = [], grants = []\<rparr>"

section \<open>Steps\<close>

inductive mutex_step :: "mutex_sys \<Rightarrow> mutex_sys \<Rightarrow> bool" where
  try_lock_ok:
    "pc s t = M_idle \<Longrightarrow> m_state s = not_locked \<Longrightarrow>
     mutex_step s (s\<lparr>m_state := locked_no_waiters, pc := (pc s)(t := M_owner), holder := Some t\<rparr>)"
| try_lock_fail:
    "pc s t = M_idle \<Longrightarrow> m_state s \<noteq> not_locked \<Longrightarrow> mutex_step s s"
| lock_load:
    "pc s t = M_idle \<Longrightarrow> user s n = None \<Longrightarrow> 1 < n \<Longrightarrow>
     mutex_step s (s\<lparr>pc := (pc s)(t := M_old n (m_state s)), user := (user s)(n := Some t)\<rparr>)"
| lock_free_ok:
    "pc s t = M_old n not_locked \<Longrightarrow> m_state s = not_locked \<Longrightarrow>
     mutex_step s (s\<lparr>m_state := locked_no_waiters, pc := (pc s)(t := M_owner),
                     user := (user s)(n := None), holder := Some t\<rparr>)"
| lock_free_fail:
    "pc s t = M_old n not_locked \<Longrightarrow>
     mutex_step s (s\<lparr>pc := (pc s)(t := M_old n (m_state s))\<rparr>)"
| lock_link:
    "pc s t = M_old n old \<Longrightarrow> old \<noteq> not_locked \<Longrightarrow>
     mutex_step s (s\<lparr>m_next := (m_next s)(n := old), pc := (pc s)(t := M_linked n old)\<rparr>)"
| lock_push_ok:
    "pc s t = M_linked n old \<Longrightarrow> m_state s = old \<Longrightarrow>
     mutex_step s (s\<lparr>m_state := n, pc := (pc s)(t := M_suspended n), newer := n # newer s,
                     arrivals := arrivals s @ [n]\<rparr>)"
| lock_push_fail:
    "pc s t = M_linked n old \<Longrightarrow>
     mutex_step s (s\<lparr>pc := (pc s)(t := M_old n (m_state s))\<rparr>)"
| unlock_waiters:
    "pc s t = M_owner \<Longrightarrow> m_waiters s \<noteq> 0 \<Longrightarrow>
     mutex_step s (s\<lparr>pc := (pc s)(t := M_hand_over (m_waiters s))\<rparr>)"
| unlock_no_waiters:
    "pc s t = M_owner \<Longrightarrow> m_waiters s = 0 \<Longrightarrow>
     mutex_step s (s\<lparr>pc := (pc s)(t := M_release)\<rparr>)"
| release_ok:
    "pc s t = M_release \<Longrightarrow> m_state s = locked_no_waiters \<Longrightarrow>
     mutex_step s (s\<lparr>m_state := not_locked, pc := (pc s)(t := M_idle), holder := None\<rparr>)"
| release_fail:
    "pc s t = M_release \<Longrightarrow> m_state s \<noteq> locked_no_waiters \<Longrightarrow>
     mutex_step s (s\<lparr>pc := (pc s)(t := M_take)\<rparr>)"
| take_stack:
    "pc s t = M_take \<Longrightarrow>
     mutex_step s (s\<lparr>m_state := locked_no_waiters, pc := (pc s)(t := M_reverse 0 (m_state s)),
                     newer := [], older := rev (newer s)\<rparr>)"
| reverse_one:
    "pc s t = M_reverse waiters_head nx \<Longrightarrow> nx \<noteq> 0 \<Longrightarrow>
     reverse_step (m_next s) waiters_head nx = (m, waiters_head', nx') \<Longrightarrow>
     mutex_step s (s\<lparr>m_next := m, pc := (pc s)(t := M_reverse waiters_head' nx')\<rparr>)"
| reverse_end:
    "pc s t = M_reverse waiters_head 0 \<Longrightarrow>
     mutex_step s (s\<lparr>pc := (pc s)(t := M_hand_over waiters_head)\<rparr>)"
| hand_over:
    "pc s t = M_hand_over h \<Longrightarrow> pc s v = M_suspended h \<Longrightarrow>
     mutex_step s (s\<lparr>m_waiters := m_next s h, pc := (pc s)(t := M_idle, v := M_owner),
                     user := (user s)(h := None), holder := Some v, older := tl (older s),
                     grants := grants s @ [h]\<rparr>)"
| reuse_node:
    "user s n = None \<Longrightarrow> mutex_step s (s\<lparr>m_next := (m_next s)(n := v)\<rparr>)"

inductive mutex_reach :: "mutex_sys \<Rightarrow> bool" where
  start: "mutex_reach new_mutex"
| step: "mutex_reach s \<Longrightarrow> mutex_step s t \<Longrightarrow> mutex_reach t"

section \<open>The invariant\<close>

text \<open>The node a coroutine uses, and whether it holds the lock, as its position says.\<close>

fun node_of :: "mutex_pc \<Rightarrow> addr option" where
  "node_of (M_old n old) = Some n"
| "node_of (M_linked n old) = Some n"
| "node_of (M_suspended n) = Some n"
| "node_of _ = None"

fun holding :: "mutex_pc \<Rightarrow> bool" where
  "holding M_owner = True"
| "holding M_release = True"
| "holding M_take = True"
| "holding (M_reverse h nx) = True"
| "holding (M_hand_over h) = True"
| "holding _ = False"

text \<open>What the position of the holder says about the older waiters in memory.\<close>

fun holder_ok :: "mutex_sys \<Rightarrow> mutex_pc \<Rightarrow> bool" where
  "holder_ok s M_owner \<longleftrightarrow> chain (m_next s) (m_waiters s) (older s)"
| "holder_ok s M_release \<longleftrightarrow> m_waiters s = 0 \<and> older s = []"
| "holder_ok s M_take \<longleftrightarrow> m_waiters s = 0 \<and> older s = [] \<and> newer s \<noteq> []"
| "holder_ok s (M_reverse h nx) \<longleftrightarrow>
     older s \<noteq> [] \<and>
     (\<exists>xs ys. older s = rev ys @ xs \<and> chain (m_next s) h xs \<and> chain (m_next s) nx ys)"
| "holder_ok s (M_hand_over h) \<longleftrightarrow> older s \<noteq> [] \<and> chain (m_next s) h (older s)"
| "holder_ok s _ \<longleftrightarrow> True"

definition nodes_ok :: "mutex_sys \<Rightarrow> bool" where
  "nodes_ok s \<longleftrightarrow>
     (\<forall>t n. node_of (pc s t) = Some n \<longleftrightarrow> user s n = Some t) \<and>
     (\<forall>t n. user s n = Some t \<longrightarrow>
        (n \<in> set (newer s @ older s) \<longleftrightarrow> pc s t = M_suspended n)) \<and>
     (\<forall>n. user s n = None \<longrightarrow> n \<notin> set (newer s @ older s)) \<and>
     (\<forall>n t. user s n = Some t \<longrightarrow> 1 < n) \<and>
     (\<forall>t n old. pc s t = M_linked n old \<longrightarrow> m_next s n = old \<and> old \<noteq> not_locked) \<and>
     distinct (newer s @ older s)"

definition lock_ok :: "mutex_sys \<Rightarrow> bool" where
  "lock_ok s \<longleftrightarrow>
     (\<forall>t. holding (pc s t) \<longleftrightarrow> holder s = Some t) \<and>
     (\<forall>t. holder s = Some t \<longrightarrow> holder_ok s (pc s t)) \<and>
     (m_state s = not_locked \<longleftrightarrow> holder s = None) \<and>
     (holder s = None \<longrightarrow> newer s = [] \<and> older s = [] \<and> m_waiters s = 0) \<and>
     (m_state s \<noteq> not_locked \<longrightarrow> chain (m_next s) (m_state s) (newer s)) \<and>
     arrivals s = grants s @ older s @ rev (newer s)"

definition mutex_inv :: "mutex_sys \<Rightarrow> bool" where
  "mutex_inv s \<longleftrightarrow> nodes_ok s \<and> lock_ok s"

lemma mutex_inv_new: "mutex_inv new_mutex"
  by (simp add: mutex_inv_def nodes_ok_def lock_ok_def new_mutex_def)

section \<open>Every step keeps the invariant\<close>

lemma mutex_invD:
  assumes "mutex_inv s"
  shows mutex_node: "node_of (pc s t) = Some n \<longleftrightarrow> user s n = Some t"
    and mutex_listed: "user s n = Some t \<Longrightarrow> n \<in> set (newer s) \<or> n \<in> set (older s) \<longleftrightarrow> pc s t = M_suspended n"
    and mutex_unlisted: "user s n = None \<Longrightarrow> n \<notin> set (newer s) \<and> n \<notin> set (older s)"
    and mutex_addr: "user s n = Some t \<Longrightarrow> 1 < n"
    and mutex_linked: "pc s t = M_linked n old \<Longrightarrow> m_next s n = old \<and> old \<noteq> not_locked"
    and mutex_distinct: "distinct (newer s)" "distinct (older s)" "set (newer s) \<inter> set (older s) = {}"
    and mutex_holding: "holding (pc s t) \<longleftrightarrow> holder s = Some t"
    and mutex_holder: "holder s = Some t \<Longrightarrow> holder_ok s (pc s t)"
    and mutex_locked: "m_state s = not_locked \<longleftrightarrow> holder s = None"
    and mutex_free: "holder s = None \<Longrightarrow> newer s = [] \<and> older s = [] \<and> m_waiters s = 0"
    and mutex_chain: "m_state s \<noteq> not_locked \<Longrightarrow> chain (m_next s) (m_state s) (newer s)"
    and mutex_order: "arrivals s = grants s @ older s @ rev (newer s)"
  using assms by (auto simp: mutex_inv_def nodes_ok_def lock_ok_def)

lemma mutex_user:
  assumes "mutex_inv s" and "node_of (pc s t) = Some n"
  shows "\<forall>m. user s m = Some t \<longleftrightarrow> m = n" and "\<forall>v. user s n = Some v \<longleftrightarrow> v = t"
  using mutex_node [OF assms(1)] assms(2) by (metis option.inject)+

lemma mutex_no_user: "mutex_inv s \<Longrightarrow> node_of (pc s t) = None \<Longrightarrow> \<forall>m. user s m \<noteq> Some t"
  by (simp flip: mutex_node)

lemma holder_ok_cong:
  assumes "holder_ok s p" and "\<And>a. a \<in> set (older s) \<Longrightarrow> m_next s' a = m_next s a"
    and "m_waiters s' = m_waiters s" and "older s' = older s" and "newer s \<noteq> [] \<Longrightarrow> newer s' \<noteq> []"
  shows "holder_ok s' p"
proof -
  have c: "chain (m_next s') q as = chain (m_next s) q as" if "set as \<subseteq> set (older s)" for q as
    using that assms(2) by (intro chain_cong) auto
  show ?thesis
  proof (cases p)
    case (M_reverse h nx)
    then obtain xs ys where *: "older s = rev ys @ xs" "chain (m_next s) h xs" "chain (m_next s) nx ys" "older s \<noteq> []"
      using assms(1) by auto
    then have "chain (m_next s') h xs" "chain (m_next s') nx ys" by (auto simp: c)
    with * M_reverse assms(4) show ?thesis by auto
  qed (use assms(1,3-5) c in auto)
qed

text \<open>
  A step that only moves one coroutine to a position with the same node keeps the facts on nodes; the
  writes of \<open>m_state\<close>, \<open>m_waiters\<close> and \<open>holder\<close> do not matter to them.
\<close>

lemma nodes_ok_move:
  assumes "nodes_ok s" and "node_of p = node_of (pc s t)"
    and "\<And>n. p = M_suspended n \<longleftrightarrow> pc s t = M_suspended n"
    and "\<And>n old. p = M_linked n old \<Longrightarrow> m_next s n = old \<and> old \<noteq> not_locked"
  shows "nodes_ok (s\<lparr>pc := (pc s)(t := p)\<rparr>)"
  using assms by (auto simp: nodes_ok_def)

lemma nodes_ok_cong:
  "nodes_ok s \<Longrightarrow> m_next s' = m_next s \<Longrightarrow> pc s' = pc s \<Longrightarrow> user s' = user s \<Longrightarrow> newer s' = newer s \<Longrightarrow>
   older s' = older s \<Longrightarrow> nodes_ok s'"
  by (auto simp: nodes_ok_def)

lemma try_lock_ok_inv:
  assumes "mutex_inv s" and "pc s t = M_idle" and "m_state s = not_locked"
  shows "mutex_inv (s\<lparr>m_state := locked_no_waiters, pc := (pc s)(t := M_owner), holder := Some t\<rparr>)"
    (is "mutex_inv ?s")
proof -
  have "nodes_ok (s\<lparr>pc := (pc s)(t := M_owner)\<rparr>)"
    using assms by (intro nodes_ok_move) (simp_all add: mutex_inv_def)
  then have "nodes_ok ?s" by (rule nodes_ok_cong) simp_all
  moreover have "holder s = None" using assms(3) mutex_locked [OF assms(1)] by simp
  then have "lock_ok ?s"
    using assms(2) mutex_free [OF assms(1)] mutex_holding [OF assms(1)] mutex_order [OF assms(1)]
    by (simp add: lock_ok_def not_locked_def locked_no_waiters_def)
  ultimately show ?thesis by (simp add: mutex_inv_def)
qed


text \<open>A coroutine that does not hold the lock keeps the facts on the lock by the following steps.\<close>

lemma lock_ok_bystander:
  assumes "mutex_inv s" and "\<not> holding (pc s t)" and "\<not> holding p" and "pc s' = (pc s)(t := p)"
    and "\<And>a. a \<in> set (newer s) \<or> a \<in> set (older s) \<Longrightarrow> m_next s' a = m_next s a"
    and "m_state s' = m_state s" "m_waiters s' = m_waiters s" "holder s' = holder s" "newer s' = newer s"
      "older s' = older s" "arrivals s' = arrivals s" "grants s' = grants s"
  shows "lock_ok s'"
proof -
  have "holder_ok s' (pc s' u)" if "holder s = Some u" for u
  proof -
    have "u \<noteq> t" using that assms(2) mutex_holding [OF assms(1)] by auto
    then have "holder_ok s (pc s' u)" using mutex_holder [OF assms(1) that] assms(4) by simp
    then show ?thesis by (rule holder_ok_cong) (use assms in auto)
  qed
  moreover have "chain (m_next s') q (newer s) = chain (m_next s) q (newer s)" for q
    using assms(5) by (intro chain_cong) auto
  ultimately show ?thesis
    using assms(2-4,6-) mutex_holding [OF assms(1)] mutex_locked [OF assms(1)] mutex_free [OF assms(1)]
      mutex_chain [OF assms(1)] mutex_order [OF assms(1)]
    unfolding lock_ok_def by (auto simp: fun_upd_def split: if_splits)
qed

lemma lock_load_inv:
  assumes "mutex_inv s" and "pc s t = M_idle" and "user s n = None" and "1 < n"
  shows "mutex_inv (s\<lparr>pc := (pc s)(t := M_old n (m_state s)), user := (user s)(n := Some t)\<rparr>)"
    (is "mutex_inv ?s")
proof -
  have u: "user s m \<noteq> Some t" for m
    using mutex_node [OF assms(1), of t m] assms(2) by simp
  have "nodes_ok ?s"
    using assms u by (auto simp: mutex_inv_def nodes_ok_def)
  moreover have "lock_ok ?s"
    by (rule lock_ok_bystander [OF assms(1), of t "M_old n (m_state s)"]) (use assms(2) in simp_all)
  ultimately show ?thesis by (simp add: mutex_inv_def)
qed

lemma lock_free_ok_inv:
  assumes "mutex_inv s" and "pc s t = M_old n old" and "m_state s = not_locked"
  shows "mutex_inv (s\<lparr>m_state := locked_no_waiters, pc := (pc s)(t := M_owner),
                     user := (user s)(n := None), holder := Some t\<rparr>)" (is "mutex_inv ?s")
proof -
  note u = mutex_user [OF assms(1), of t n]
  have free: "holder s = None" "newer s = []" "older s = []" "m_waiters s = 0"
    using assms(3) mutex_locked [OF assms(1)] mutex_free [OF assms(1)] by simp_all
  have "nodes_ok ?s"
    using assms u free by (auto simp: mutex_inv_def nodes_ok_def)
  moreover have "lock_ok ?s"
    using free mutex_holding [OF assms(1)] mutex_order [OF assms(1)]
    by (simp add: lock_ok_def not_locked_def locked_no_waiters_def)
  ultimately show ?thesis by (simp add: mutex_inv_def)
qed

lemma lock_retry_inv:
  assumes "mutex_inv s" and "pc s t = M_old n old \<or> pc s t = M_linked n old"
  shows "mutex_inv (s\<lparr>pc := (pc s)(t := M_old n (m_state s))\<rparr>)" (is "mutex_inv ?s")
proof -
  have "nodes_ok ?s"
    using assms by (intro nodes_ok_move) (auto simp: mutex_inv_def)
  moreover have "lock_ok ?s"
    by (rule lock_ok_bystander [OF assms(1), of t "M_old n (m_state s)"]) (use assms(2) in auto)
  ultimately show ?thesis by (simp add: mutex_inv_def)
qed

lemma lock_link_inv:
  assumes "mutex_inv s" and "pc s t = M_old n old" and "old \<noteq> not_locked"
  shows "mutex_inv (s\<lparr>m_next := (m_next s)(n := old), pc := (pc s)(t := M_linked n old)\<rparr>)"
    (is "mutex_inv ?s")
proof -
  have n: "user s n = Some t" using mutex_node [OF assms(1), of t n] assms(2) by simp
  then have l: "n \<notin> set (newer s) \<and> n \<notin> set (older s)"
    using mutex_listed [OF assms(1) n] assms(2) by auto
  have "pc s u \<noteq> M_linked n v" if "u \<noteq> t" for u v
    using mutex_node [OF assms(1), of u n] n that by auto
  then have "nodes_ok ?s"
    using assms l mutex_user [OF assms(1), of t n] by (auto simp: mutex_inv_def nodes_ok_def)
  moreover have "lock_ok ?s"
    by (rule lock_ok_bystander [OF assms(1), of t "M_linked n old"]) (use assms(2) l in auto)
  ultimately show ?thesis by (simp add: mutex_inv_def)
qed

lemma lock_push_ok_inv:
  assumes "mutex_inv s" and "pc s t = M_linked n old" and "m_state s = old"
  shows "mutex_inv (s\<lparr>m_state := n, pc := (pc s)(t := M_suspended n), newer := n # newer s,
                     arrivals := arrivals s @ [n]\<rparr>)" (is "mutex_inv ?s")
proof -
  have n: "user s n = Some t" using mutex_node [OF assms(1), of t n] assms(2) by simp
  then have l: "n \<notin> set (newer s) \<and> n \<notin> set (older s)"
    using mutex_listed [OF assms(1) n] assms(2) by auto
  have a: "1 < n" by (rule mutex_addr [OF assms(1) n])
  have old: "m_next s n = old" "old \<noteq> not_locked" using mutex_linked [OF assms(1,2)] by simp_all
  have lock: "holder s \<noteq> None" using mutex_locked [OF assms(1)] assms(3) old by simp
  have "nodes_ok ?s"
    using assms l mutex_user [OF assms(1), of t n] by (auto simp: mutex_inv_def nodes_ok_def)
  moreover have h: "holder_ok ?s (pc ?s u)" if "holder s = Some u" for u
  proof -
    have "u \<noteq> t" using that assms(2) mutex_holding [OF assms(1), of t] by auto
    then have "holder_ok s (pc ?s u)" using mutex_holder [OF assms(1) that] by simp
    then show ?thesis by (rule holder_ok_cong) simp_all
  qed
  have "lock_ok ?s"
    unfolding lock_ok_def
  proof (intro conjI)
    show "\<forall>u. holding (pc ?s u) = (holder ?s = Some u)"
      using mutex_holding [OF assms(1)] assms(2) by (auto, metis holding.simps(8))
    show "\<forall>u. holder ?s = Some u \<longrightarrow> holder_ok ?s (pc ?s u)"
      using h by simp
    show "m_state ?s \<noteq> not_locked \<longrightarrow> chain (m_next ?s) (m_state ?s) (newer ?s)"
      using mutex_chain [OF assms(1)] old a assms(3) by simp
  qed (use lock a mutex_order [OF assms(1)] in \<open>simp_all add: not_locked_def\<close>)
  ultimately show ?thesis by (simp add: mutex_inv_def)
qed

text \<open>The steps of the holder before it hands over.\<close>

lemma lock_ok_holder:
  assumes "mutex_inv s" and "holding (pc s t)" and "holding p" and "holder_ok s p"
  shows "lock_ok (s\<lparr>pc := (pc s)(t := p)\<rparr>)"
proof -
  have "holder s = Some t" using assms(2) mutex_holding [OF assms(1)] by simp
  moreover have "holder_ok (s\<lparr>pc := (pc s)(t := p)\<rparr>) p"
    using assms(4) by (rule holder_ok_cong) simp_all
  ultimately show ?thesis
    using assms(1,3) by (simp add: mutex_inv_def lock_ok_def)
qed

lemma holder_move_inv:
  assumes "mutex_inv s" and "holding (pc s t)" and "holding p" and "holder_ok s p"
  shows "mutex_inv (s\<lparr>pc := (pc s)(t := p)\<rparr>)"
proof -
  have "node_of p = None" "node_of (pc s t) = None" "p \<noteq> M_suspended n" "pc s t \<noteq> M_suspended n"
    "p \<noteq> M_linked n old" for n old
    using assms(2,3) by (cases p, auto, cases "pc s t", auto)
  then have "nodes_ok (s\<lparr>pc := (pc s)(t := p)\<rparr>)"
    using assms(1) by (intro nodes_ok_move) (auto simp: mutex_inv_def)
  with lock_ok_holder [OF assms] show ?thesis by (simp add: mutex_inv_def)
qed

lemma holder_at:
  "mutex_inv s \<Longrightarrow> pc s t = p \<Longrightarrow> holding p \<Longrightarrow> holder s = Some t \<and> holder_ok s p"
  using mutex_holding mutex_holder by blast

lemma release_ok_inv:
  assumes "mutex_inv s" and "pc s t = M_release" and "m_state s = locked_no_waiters"
  shows "mutex_inv (s\<lparr>m_state := not_locked, pc := (pc s)(t := M_idle), holder := None\<rparr>)"
    (is "mutex_inv ?s")
proof -
  have "nodes_ok (s\<lparr>pc := (pc s)(t := M_idle)\<rparr>)"
    using assms by (intro nodes_ok_move) (simp_all add: mutex_inv_def)
  then have "nodes_ok ?s" by (rule nodes_ok_cong) simp_all
  moreover have "holder s = Some t" "m_waiters s = 0" "older s = []"
    using holder_at [OF assms(1,2)] by simp_all
  moreover have "newer s = []"
    using mutex_chain [OF assms(1)] assms(3) by (simp add: not_locked_def locked_no_waiters_def)
  ultimately show ?thesis
    using mutex_holding [OF assms(1)] mutex_order [OF assms(1)]
    by (simp add: mutex_inv_def lock_ok_def)
qed

lemma release_fail_inv:
  assumes "mutex_inv s" and "pc s t = M_release" and "m_state s \<noteq> locked_no_waiters"
  shows "mutex_inv (s\<lparr>pc := (pc s)(t := M_take)\<rparr>)"
proof (rule holder_move_inv [OF assms(1)])
  have h: "holder s = Some t" "m_waiters s = 0" "older s = []"
    using holder_at [OF assms(1,2)] by simp_all
  have "newer s \<noteq> []"
    using mutex_chain [OF assms(1)] mutex_locked [OF assms(1)] h(1) assms(3)
    by (auto simp: locked_no_waiters_def)
  with h show "holder_ok s M_take" by simp
qed (use assms(2) in simp_all)

lemma take_stack_inv:
  assumes "mutex_inv s" and "pc s t = M_take"
  shows "mutex_inv (s\<lparr>m_state := locked_no_waiters, pc := (pc s)(t := M_reverse 0 (m_state s)),
                     newer := [], older := rev (newer s)\<rparr>)" (is "mutex_inv ?s")
proof -
  have h: "holder s = Some t" "m_waiters s = 0" "older s = []" "newer s \<noteq> []"
    using holder_at [OF assms] by simp_all
  have c: "chain (m_next s) (m_state s) (newer s)"
    using mutex_chain [OF assms(1)] mutex_locked [OF assms(1)] h(1) by simp
  have "nodes_ok ?s"
    using assms h mutex_no_user [OF assms(1), of t] by (auto simp: mutex_inv_def nodes_ok_def)
  moreover have "lock_ok ?s"
    using assms h c mutex_holding [OF assms(1)] mutex_order [OF assms(1)]
    by (auto simp: lock_ok_def not_locked_def locked_no_waiters_def)
  ultimately show ?thesis by (simp add: mutex_inv_def)
qed

lemma reverse_one_inv:
  assumes "mutex_inv s" and "pc s t = M_reverse h nx" and "nx \<noteq> 0"
    and "reverse_step (m_next s) h nx = (m, h', nx')"
  shows "mutex_inv (s\<lparr>m_next := m, pc := (pc s)(t := M_reverse h' nx')\<rparr>)" (is "mutex_inv ?s")
proof -
  have hold: "holder s = Some t" and "holder_ok s (M_reverse h nx)"
    using holder_at [OF assms(1,2)] by simp_all
  then obtain xs ys where o: "older s = rev ys @ xs" "chain (m_next s) h xs" "chain (m_next s) nx ys"
    by auto
  then have "distinct (ys @ xs)" using mutex_distinct(2) [OF assms(1)] by simp
  from reverse_step_chains [OF o(2,3) assms(3) this assms(4)] obtain zs where
    z: "ys = nx # zs" "h' = nx" "chain m h' (nx # xs)" "chain m nx' zs" by blast
  have m: "m = (m_next s)(nx := h)" using assms(4) by (auto simp: reverse_step_def)
  have listed: "nx \<in> set (older s)" using o z by simp
  then have fresh: "nx \<notin> set (newer s)" using mutex_distinct(3) [OF assms(1)] by blast
  have "pc s u \<noteq> M_linked nx v" for u v
  proof
    assume p: "pc s u = M_linked nx v"
    then have "user s nx = Some u" using mutex_node [OF assms(1), of u nx] by simp
    from mutex_listed [OF assms(1) this] listed p show False by simp
  qed
  then have "nodes_ok ?s"
    using assms(1,2) m mutex_no_user [OF assms(1), of t] by (auto simp: mutex_inv_def nodes_ok_def)
  moreover have "holder_ok ?s (M_reverse h' nx')"
    using o z by (simp, intro exI [of _ "nx # xs"] exI [of _ zs]) simp
  then have "lock_ok ?s"
    using assms(2) hold fresh m mutex_holding [OF assms(1)] mutex_locked [OF assms(1)]
      mutex_chain [OF assms(1)] mutex_order [OF assms(1)]
    by (simp add: lock_ok_def del: holder_ok.simps)
  ultimately show ?thesis by (simp add: mutex_inv_def)
qed

lemma hand_over_inv:
  assumes "mutex_inv s" and "pc s t = M_hand_over h" and "pc s v = M_suspended h"
  shows "mutex_inv (s\<lparr>m_waiters := m_next s h, pc := (pc s)(t := M_idle, v := M_owner),
                     user := (user s)(h := None), holder := Some v, older := tl (older s),
                     grants := grants s @ [h]\<rparr>)" (is "mutex_inv ?s")
proof -
  have hold: "holder s = Some t" "older s \<noteq> []" "chain (m_next s) h (older s)"
    using holder_at [OF assms(1,2)] by simp_all
  then obtain rest where r: "older s = h # rest" "chain (m_next s) (m_next s h) rest"
    by (cases "older s") auto
  have vt: "v \<noteq> t" using assms(2,3) by auto
  have u: "\<forall>m. user s m = Some v \<longleftrightarrow> m = h" "\<forall>w. user s h = Some w \<longleftrightarrow> w = v"
    using mutex_user [OF assms(1), of v h] assms(3) by simp_all
  have d: "h \<notin> set (newer s)" "h \<notin> set rest" "distinct rest"
    using mutex_distinct [OF assms(1)] r by auto
  have "nodes_ok ?s"
    using assms r u vt d mutex_no_user [OF assms(1), of t]
    by (auto simp: mutex_inv_def nodes_ok_def)
  moreover have "lock_ok ?s"
    using assms(2,3) vt hold r mutex_holding [OF assms(1)] mutex_locked [OF assms(1)]
      mutex_chain [OF assms(1)] mutex_order [OF assms(1)]
    by (auto simp: lock_ok_def)
  ultimately show ?thesis by (simp add: mutex_inv_def)
qed

lemma reuse_node_inv:
  assumes "mutex_inv s" and "user s n = None"
  shows "mutex_inv (s\<lparr>m_next := (m_next s)(n := v)\<rparr>)" (is "mutex_inv ?s")
proof -
  have l: "n \<notin> set (newer s) \<and> n \<notin> set (older s)"
    by (rule mutex_unlisted [OF assms])
  have "pc s u \<noteq> M_linked n w" for u w
    using mutex_node [OF assms(1), of u n] assms(2) by auto
  then have "nodes_ok ?s"
    using assms by (auto simp: mutex_inv_def nodes_ok_def)
  moreover have "holder_ok ?s p" if "holder_ok s p" for p
    using that by (rule holder_ok_cong) (use l in auto)
  then have "lock_ok ?s"
    using assms(1) l by (simp add: mutex_inv_def lock_ok_def)
  ultimately show ?thesis by (simp add: mutex_inv_def)
qed

lemma mutex_step_inv: "mutex_step s s' \<Longrightarrow> mutex_inv s \<Longrightarrow> mutex_inv s'"
proof (induction rule: mutex_step.induct)
  case (unlock_waiters s t)
  then show ?case using holder_at [of s t M_owner]
    by (intro holder_move_inv) (auto simp: chain_nonnull)
next
  case (unlock_no_waiters s t)
  then show ?case using holder_at [of s t M_owner] by (intro holder_move_inv) auto
next
  case (reverse_end s t h)
  then show ?case using holder_at [of s t "M_reverse h 0"] by (intro holder_move_inv) auto
qed (simp_all add: try_lock_ok_inv lock_load_inv lock_free_ok_inv lock_retry_inv lock_link_inv
    lock_push_ok_inv release_ok_inv release_fail_inv take_stack_inv reverse_one_inv hand_over_inv
    reuse_node_inv)

lemma mutex_reach_inv: "mutex_reach s \<Longrightarrow> mutex_inv s"
  by (induction rule: mutex_reach.induct) (auto simp: mutex_inv_new mutex_step_inv)

section \<open>A round\<close>

lemma mutex_round:
  "\<exists>s s'. mutex_reach s \<and> mutex_step s s' \<and> mutex_reach s' \<and>
          pc s 0 = M_hand_over 2 \<and> pc s 1 = M_suspended 2 \<and> pc s 2 = M_suspended 3 \<and>
          pc s' 1 = M_owner \<and> arrivals s' = [2, 3] \<and> grants s' = [2]"
proof -
  note defs = new_mutex_def not_locked_def locked_no_waiters_def
  note go = mutex_reach.step
  note s1 = go [OF mutex_reach.start mutex_step.try_lock_ok [of _ 0], simplified defs, simplified]
  note s2 = go [OF s1 mutex_step.lock_load [of _ 1 2], simplified defs, simplified]
  note s3 = go [OF s2 mutex_step.lock_link [of _ 1 2 0], simplified defs, simplified]
  note s4 = go [OF s3 mutex_step.lock_push_ok [of _ 1 2 0], simplified defs, simplified]
  note s5 = go [OF s4 mutex_step.lock_load [of _ 2 3], simplified defs, simplified]
  note s6 = go [OF s5 mutex_step.lock_link [of _ 2 3 2], simplified defs, simplified]
  note s7 = go [OF s6 mutex_step.lock_push_ok [of _ 2 3 2], simplified defs, simplified]
  note s8 = go [OF s7 mutex_step.unlock_no_waiters [of _ 0], simplified defs, simplified]
  note s9 = go [OF s8 mutex_step.release_fail [of _ 0], simplified defs, simplified]
  note s10 = go [OF s9 mutex_step.take_stack [of _ 0], simplified defs, simplified]
  note s11 = go [OF s10 mutex_step.reverse_one [of _ 0 0 3, OF _ _ reverse_step_def], simplified defs, simplified]
  note s12 = go [OF s11 mutex_step.reverse_one [of _ 0 3 2, OF _ _ reverse_step_def], simplified defs, simplified]
  note s13 = go [OF s12 mutex_step.reverse_end [of _ 0 2], simplified defs, simplified]
  note st = mutex_step.hand_over [of _ 0 2 1]
  show ?thesis
    by (rule exI, rule exI, rule conjI, rule s13, rule conjI, rule st, simp, simp, rule conjI,
        rule go [OF s13], rule st) simp_all
qed

section \<open>Properties\<close>

text \<open>
  C5: Mutual exclusion: at most one coroutine is between the acquisition of the lock and the end of
  its \<open>unlock\<close>, and while there is one the state word does not read \<open>not_locked\<close>, so \<open>try_lock\<close> fails.
\<close>

theorem mutex_exclusion:
  assumes "mutex_reach s" and "holding (pc s t)"
  shows "m_state s \<noteq> not_locked \<and> (\<forall>u. holding (pc s u) \<longrightarrow> u = t)"
  using mutex_holding [OF mutex_reach_inv [OF assms(1)]] mutex_locked [OF mutex_reach_inv [OF assms(1)]]
    assms(2) by auto

theorem mutex_exclusion_witness: "\<exists>s. mutex_reach s \<and> pc s 1 = M_owner \<and> m_state s \<noteq> not_locked"
proof -
  obtain s where "mutex_reach s" "pc s 1 = M_owner" using mutex_round by blast
  with mutex_exclusion [of s 1] show ?thesis by auto
qed

text \<open>
  C6: Waiters get the lock in the order their lock operations entered the stack: the nodes granted are
  an initial part of the nodes that arrived, and those still waiting follow in order, although new
  waiters are pushed in front of one another.
\<close>

theorem mutex_fifo:
  assumes "mutex_reach s"
  shows "arrivals s = grants s @ older s @ rev (newer s) \<and> prefix (grants s) (arrivals s)"
  using mutex_order [OF mutex_reach_inv [OF assms]] by simp

theorem mutex_fifo_witness: "\<exists>s. mutex_reach s \<and> arrivals s = [2, 3] \<and> prefix [2] (arrivals s)"
proof -
  obtain s where s: "mutex_reach s" "arrivals s = [2, 3]" "grants s = [2]" using mutex_round by blast
  with mutex_fifo [OF s(1)] show ?thesis by auto
qed

text \<open>The node that \<open>unlock\<close> hands over to belongs to a suspended coroutine.\<close>

lemma hand_over_target:
  assumes "mutex_inv s" and "pc s t = M_hand_over h"
  shows "h \<noteq> 0 \<and> (\<exists>v. v \<noteq> t \<and> pc s v = M_suspended h)"
proof -
  have "older s \<noteq> []" "chain (m_next s) h (older s)" using holder_at [OF assms] by simp_all
  then have h: "h \<in> set (older s)" "h \<noteq> 0" by (cases "older s"; auto)+
  with mutex_unlisted [OF assms(1), of h] obtain v where "user s h = Some v" by fastforce
  with mutex_listed [OF assms(1) this] h have "pc s v = M_suspended h" by simp
  moreover from this have "v \<noteq> t" using assms(2) by auto
  ultimately show ?thesis using h(2) by blast
qed

lemma holder_can_step:
  assumes "mutex_inv s" and "holding (pc s t)"
  shows "\<exists>s'. mutex_step s s' \<and> pc s' t \<noteq> pc s t"
proof (cases "pc s t")
  case M_owner
  then show ?thesis
    using unlock_waiters [of s t] unlock_no_waiters [of s t] by (cases "m_waiters s = 0") fastforce+
next
  case M_release
  then show ?thesis
    using release_ok [of s t] release_fail [of s t]
    by (cases "m_state s = locked_no_waiters") fastforce+
next
  case M_take
  then show ?thesis using take_stack [of s t] by fastforce
next
  case (M_reverse h nx)
  show ?thesis
  proof (cases "nx = 0")
    case True
    with M_reverse show ?thesis using reverse_end [of s t h] by fastforce
  next
    case False
    have "\<exists>xs ys. older s = rev ys @ xs \<and> chain (m_next s) h xs \<and> chain (m_next s) nx ys"
      using holder_at [OF assms(1) M_reverse] by auto
    then have "h \<noteq> nx"
      using False mutex_distinct(2) [OF assms(1)] by (cases "h = 0") (auto simp: chain_nonnull)
    with False M_reverse show ?thesis
      using reverse_one [OF M_reverse False reverse_step_def] by fastforce
  qed
next
  case (M_hand_over h)
  with hand_over_target [OF assms(1)] obtain v where v: "v \<noteq> t" "pc s v = M_suspended h" by blast
  show ?thesis
    by (rule exI, rule conjI, rule hand_over [OF M_hand_over v(2)]) (use M_hand_over v in simp)
qed (use assms(2) in simp_all)

text \<open>
  C7: No wake-up is lost: while a coroutine is suspended in \<open>lock_async\<close> its node is among the nodes
  still to be granted and some coroutine holds the lock, and that holder can always take its next step
  of \<open>unlock\<close>; when it hands over, it has found the node of a coroutine that is suspended.
\<close>

theorem mutex_no_lost_waiter:
  assumes "mutex_reach s" and "pc s t = M_suspended n"
  shows "n \<in> set (older s @ rev (newer s)) \<and>
         (\<exists>u. holding (pc s u) \<and> (\<exists>s'. mutex_step s s' \<and> pc s' u \<noteq> pc s u))"
proof -
  note inv = mutex_reach_inv [OF assms(1)]
  have "user s n = Some t" using mutex_node [OF inv, of t n] assms(2) by simp
  then have n: "n \<in> set (older s @ rev (newer s))"
    using mutex_listed [OF inv] assms(2) by auto
  then obtain u where "holder s = Some u"
    using mutex_free [OF inv] by (cases "holder s") auto
  then have "holding (pc s u)" using mutex_holding [OF inv] by simp
  with n holder_can_step [OF inv] show ?thesis by blast
qed

theorem mutex_no_lost_waiter_witness:
  "\<exists>s. mutex_reach s \<and> pc s 2 = M_suspended 3 \<and> 3 \<in> set (older s @ rev (newer s))"
proof -
  obtain s where s: "mutex_reach s" "pc s 2 = M_suspended 3" using mutex_round by blast
  from mutex_no_lost_waiter [OF s] s show ?thesis by blast
qed

text \<open>
  The assertions of \<open>unlock\<close> and of the destructor hold: the lock is held when \<open>unlock\<close> starts;
  after the failed release the exchange takes a waiter; the waiter handed over to is not null, and it
  is suspended; and a mutex nobody uses is unlocked with no waiters.
\<close>

theorem mutex_assertions:
  assumes "mutex_reach s"
  shows "(pc s t = M_owner \<longrightarrow> m_state s \<noteq> not_locked) \<and>
         (pc s t = M_take \<longrightarrow> m_state s \<noteq> locked_no_waiters \<and> m_state s \<noteq> not_locked) \<and>
         (pc s t = M_hand_over h \<longrightarrow> h \<noteq> 0 \<and> (\<exists>v. pc s v = M_suspended h)) \<and>
         ((\<forall>u. pc s u = M_idle) \<longrightarrow> m_state s = not_locked \<and> m_waiters s = 0)"
proof -
  note inv = mutex_reach_inv [OF assms]
  note state = mutex_locked [OF inv] mutex_chain [OF inv] mutex_holding [OF inv]
  have "m_state s \<noteq> not_locked" if "pc s t = M_owner"
    using state that holder_at [OF inv that] by simp
  moreover have "m_state s \<noteq> locked_no_waiters \<and> m_state s \<noteq> not_locked" if "pc s t = M_take"
    using state holder_at [OF inv that] by (cases "m_state s = 0") (auto simp: locked_no_waiters_def)
  moreover have "h \<noteq> 0 \<and> (\<exists>v. pc s v = M_suspended h)" if "pc s t = M_hand_over h"
    using hand_over_target [OF inv that] by blast
  moreover have "m_state s = not_locked \<and> m_waiters s = 0" if "\<forall>u. pc s u = M_idle"
    using that state mutex_free [OF inv] by (cases "holder s") auto
  ultimately show ?thesis by blast
qed

theorem mutex_assertions_witness:
  "\<exists>s. mutex_reach s \<and> pc s 0 = M_hand_over 2 \<and> (\<exists>v. pc s v = M_suspended 2)"
proof -
  obtain s where s: "mutex_reach s" "pc s 0 = M_hand_over 2" using mutex_round by blast
  with mutex_assertions [OF s(1), of 0 2] show ?thesis by blast
qed

end
