(* ===== verification/Async_Generator.thy ===== *)
theory Async_Generator
  imports Prelude
begin

text \<open>
  The asynchronous generator of \<open>ice/async.hpp\<close>: a producer coroutine that yields values and a
  consumer coroutine that asks for them, on the same or on different threads, which hand control to
  each other through one atomic state word. One step is one atomic access or one resumption. A
  coroutine that resumes the other may go on before the other suspends, so every order the two
  threads can produce is among the runs of the model.
\<close>

section \<open>States\<close>

text \<open>
  The values of \<open>state\<close>: \<open>value_not_ready_consumer_active\<close>, \<open>value_not_ready_consumer_suspended\<close>,
  \<open>value_ready_producer_active\<close>, \<open>value_ready_producer_suspended\<close> and \<open>cancelled\<close>.
\<close>

datatype gen_state =
    Consumer_active
  | Consumer_suspended
  | Producer_active
  | Producer_suspended
  | Cancelled

text \<open>
  The producer: suspended; in its body; in \<open>internal_yield_value\<close> before the load, before the store,
  before the resumption of the consumer and before the second load; with a yield operation in hand;
  in \<open>await_suspend\<close> at the first exchange, before the store, the resumption and the load that follow
  it, at the second exchange, and before it destroys itself; destroyed.
\<close>

datatype producer_pc =
    P_suspended
  | P_body
  | P_yield
  | P_store
  | P_resume
  | P_reload
  | P_operation gen_state
  | P_exchange
  | P_store'
  | P_resume'
  | P_reload'
  | P_second gen_state
  | P_destroy gen_state
  | P_destroyed

text \<open>
  The consumer: before \<open>begin\<close>; in the constructor of the advance operation before the load, the
  store, the resumption of the producer and the second load; with an advance operation in hand; in
  \<open>await_suspend\<close> at the first exchange, before the store, the resumption and the load that follow it,
  and at the last exchange; suspended; before \<open>await_resume\<close>; holding a value; at the end, or with the
  exception that was rethrown; and after it destroyed the generator.
\<close>

datatype 'e consumer_pc =
    C_start
  | C_load
  | C_store
  | C_resume
  | C_reload
  | C_operation gen_state
  | C_exchange
  | C_store'
  | C_resume'
  | C_reload'
  | C_second gen_state
  | C_suspended
  | C_result
  | C_value
  | C_end
  | C_threw 'e
  | C_gone

text \<open>
  \<open>m_currentValue\<close> is null, here \<^const>\<open>None\<close>, after the last value. Ghost fields: whether the body has
  ended, what was published and what was received, the end of the values included as \<^const>\<open>None\<close>.
\<close>

record ('a, 'e) generator =
  g_state :: gen_state
  m_consumer :: addr
  m_exception :: "'e option"
  m_current :: "'a option"
  producer :: producer_pc
  consumer :: "'e consumer_pc"
  body_over :: bool
  published :: "'a option list"
  received :: "'a option list"

definition new_generator :: "('a, 'e) generator" where
  "new_generator =
     \<lparr>g_state = Producer_suspended, m_consumer = 0, m_exception = None, m_current = None,
      producer = P_suspended, consumer = C_start, body_over = False, published = [], received = []\<rparr>"

section \<open>Steps\<close>

text \<open>\<open>publish\<close> sets \<open>m_currentValue\<close> on the way into \<open>internal_yield_value\<close>.\<close>

definition publish :: "'a option \<Rightarrow> ('a, 'e) generator \<Rightarrow> ('a, 'e) generator" where
  "publish v s = s\<lparr>m_current := v, producer := P_yield, published := published s @ [v]\<rparr>"

text \<open>
  \<open>unhandled_exception\<close>; what \<open>await_resume\<close> makes of the consumer: a value, the end, or the exception
  rethrown at the end; \<open>request_cancellation\<close> exchanges the word and tells whether the caller must
  destroy the frame.
\<close>

definition gen_unhandled_exception :: "'e \<Rightarrow> ('a, 'e) generator \<Rightarrow> ('a, 'e) generator" where
  "gen_unhandled_exception e s = (if g_state s \<noteq> Cancelled then s\<lparr>m_exception := Some e\<rparr> else s)"

definition gen_await_resume :: "('a, 'e) generator \<Rightarrow> 'e consumer_pc" where
  "gen_await_resume s =
     (case m_current s of
        None \<Rightarrow> (case m_exception s of None \<Rightarrow> C_end | Some e \<Rightarrow> C_threw e)
      | Some _ \<Rightarrow> C_value)"

definition request_cancellation :: "('a, 'e) generator \<Rightarrow> bool \<times> ('a, 'e) generator" where
  "request_cancellation s = (g_state s = Producer_suspended, s\<lparr>g_state := Cancelled\<rparr>)"

text \<open>
  The producer. \<open>k\<close> is the consumer coroutine; \<open>resume\<close> steps are possible only when the coroutine to
  be resumed is suspended, and destruction of the frame by the consumer only when the producer is.
\<close>

inductive producer_step :: "addr \<Rightarrow> ('a, 'e) generator \<Rightarrow> ('a, 'e) generator \<Rightarrow> bool" for k where
  yield_value:
    "producer s = P_body \<Longrightarrow> producer_step k s (publish (Some v) s)"
| body_returns:
    "producer s = P_body \<Longrightarrow> producer_step k s (publish None (s\<lparr>body_over := True\<rparr>))"
| body_throws:
    "producer s = P_body \<Longrightarrow>
     producer_step k s
       (publish None ((gen_unhandled_exception e s)\<lparr>body_over := True\<rparr>))"
| yield_load:
    "producer s = P_yield \<Longrightarrow>
     producer_step k s
       (s\<lparr>producer := (if g_state s = Consumer_suspended then P_store else P_operation (g_state s))\<rparr>)"
| yield_store:
    "producer s = P_store \<Longrightarrow>
     producer_step k s (s\<lparr>g_state := Producer_active, producer := P_resume\<rparr>)"
| yield_resume:
    "producer s = P_resume \<Longrightarrow> consumer s = C_suspended \<Longrightarrow> m_consumer s = k \<Longrightarrow>
     producer_step k s (s\<lparr>producer := P_reload, consumer := C_result\<rparr>)"
| yield_reload:
    "producer s = P_reload \<Longrightarrow> producer_step k s (s\<lparr>producer := P_operation (g_state s)\<rparr>)"
| operation_ready:
    "producer s = P_operation Consumer_suspended \<Longrightarrow> producer_step k s (s\<lparr>producer := P_body\<rparr>)"
| operation_suspend:
    "producer s = P_operation st \<Longrightarrow> st \<noteq> Consumer_suspended \<Longrightarrow>
     producer_step k s (s\<lparr>producer := (if st = Consumer_active then P_exchange else P_second st)\<rparr>)"
| exchange_ok:
    "producer s = P_exchange \<Longrightarrow> g_state s = Consumer_active \<Longrightarrow>
     producer_step k s (s\<lparr>g_state := Producer_suspended, producer := P_suspended\<rparr>)"
| exchange_fail:
    "producer s = P_exchange \<Longrightarrow> g_state s \<noteq> Consumer_active \<Longrightarrow>
     producer_step k s
       (s\<lparr>producer := (if g_state s = Consumer_suspended then P_store' else P_second (g_state s))\<rparr>)"
| suspend_store:
    "producer s = P_store' \<Longrightarrow>
     producer_step k s (s\<lparr>g_state := Producer_active, producer := P_resume'\<rparr>)"
| suspend_resume:
    "producer s = P_resume' \<Longrightarrow> consumer s = C_suspended \<Longrightarrow> m_consumer s = k \<Longrightarrow>
     producer_step k s (s\<lparr>producer := P_reload', consumer := C_result\<rparr>)"
| suspend_reload:
    "producer s = P_reload' \<Longrightarrow>
     producer_step k s
       (s\<lparr>producer := (if g_state s = Consumer_suspended then P_body else P_second (g_state s))\<rparr>)"
| second_ok:
    "producer s = P_second Producer_active \<Longrightarrow> g_state s = Producer_active \<Longrightarrow>
     producer_step k s (s\<lparr>g_state := Producer_suspended, producer := P_suspended\<rparr>)"
| second_fail:
    "producer s = P_second Producer_active \<Longrightarrow> g_state s \<noteq> Producer_active \<Longrightarrow>
     producer_step k s
       (s\<lparr>producer := (if g_state s = Consumer_suspended then P_body else P_destroy (g_state s))\<rparr>)"
| second_skip:
    "producer s = P_second st \<Longrightarrow> st \<noteq> Producer_active \<Longrightarrow>
     producer_step k s (s\<lparr>producer := P_destroy st\<rparr>)"
| destroy_self:
    "producer s = P_destroy st \<Longrightarrow> producer_step k s (s\<lparr>producer := P_destroyed\<rparr>)"

text \<open>The consumer has the end of the values; it has a value or the end.\<close>

fun ended :: "'e consumer_pc \<Rightarrow> bool" where
  "ended C_end = True"
| "ended (C_threw e) = True"
| "ended _ = False"

definition settled :: "'e consumer_pc \<Rightarrow> bool" where
  "settled c \<longleftrightarrow> c = C_value \<or> ended c"

text \<open>The consumer: \<open>begin\<close>, \<open>++\<close>, and the destructor of the generator.\<close>

inductive consumer_step :: "addr \<Rightarrow> ('a, 'e) generator \<Rightarrow> ('a, 'e) generator \<Rightarrow> bool" for k where
  advance:
    "consumer s \<in> {C_start, C_value} \<Longrightarrow> consumer_step k s (s\<lparr>consumer := C_load\<rparr>)"
| advance_load:
    "consumer s = C_load \<Longrightarrow>
     consumer_step k s
       (s\<lparr>consumer := (if g_state s = Producer_suspended then C_store else C_operation (g_state s))\<rparr>)"
| advance_store:
    "consumer s = C_store \<Longrightarrow>
     consumer_step k s (s\<lparr>g_state := Consumer_active, consumer := C_resume\<rparr>)"
| advance_resume:
    "consumer s = C_resume \<Longrightarrow> producer s = P_suspended \<Longrightarrow>
     consumer_step k s (s\<lparr>consumer := C_reload, producer := P_body\<rparr>)"
| advance_reload:
    "consumer s = C_reload \<Longrightarrow> consumer_step k s (s\<lparr>consumer := C_operation (g_state s)\<rparr>)"
| operation_ready:
    "consumer s = C_operation Producer_suspended \<Longrightarrow> consumer_step k s (s\<lparr>consumer := C_result\<rparr>)"
| operation_suspend:
    "consumer s = C_operation st \<Longrightarrow> st \<noteq> Producer_suspended \<Longrightarrow>
     consumer_step k s
       (s\<lparr>m_consumer := k, consumer := (if st = Producer_active then C_exchange else C_second st)\<rparr>)"
| exchange_ok:
    "consumer s = C_exchange \<Longrightarrow> g_state s = Producer_active \<Longrightarrow>
     consumer_step k s (s\<lparr>g_state := Consumer_suspended, consumer := C_suspended\<rparr>)"
| exchange_fail:
    "consumer s = C_exchange \<Longrightarrow> g_state s \<noteq> Producer_active \<Longrightarrow>
     consumer_step k s (s\<lparr>consumer := C_store'\<rparr>)"
| suspend_store:
    "consumer s = C_store' \<Longrightarrow>
     consumer_step k s (s\<lparr>g_state := Consumer_active, consumer := C_resume'\<rparr>)"
| suspend_resume:
    "consumer s = C_resume' \<Longrightarrow> producer s = P_suspended \<Longrightarrow>
     consumer_step k s (s\<lparr>consumer := C_reload', producer := P_body\<rparr>)"
| suspend_reload:
    "consumer s = C_reload' \<Longrightarrow>
     consumer_step k s
       (s\<lparr>consumer := (if g_state s = Producer_suspended then C_result else C_second (g_state s))\<rparr>)"
| second_ok:
    "consumer s = C_second st \<Longrightarrow> g_state s = st \<Longrightarrow>
     consumer_step k s (s\<lparr>g_state := Consumer_suspended, consumer := C_suspended\<rparr>)"
| second_fail:
    "consumer s = C_second st \<Longrightarrow> g_state s \<noteq> st \<Longrightarrow>
     consumer_step k s (s\<lparr>consumer := C_result\<rparr>)"
| result:
    "consumer s = C_result \<Longrightarrow>
     consumer_step k s (s\<lparr>consumer := gen_await_resume s, received := received s @ [m_current s]\<rparr>)"
| cancel_active:
    "consumer s = C_start \<or> settled (consumer s) \<Longrightarrow> request_cancellation s = (False, t) \<Longrightarrow>
     consumer_step k s (t\<lparr>consumer := C_gone\<rparr>)"
| cancel_suspended:
    "consumer s = C_start \<or> settled (consumer s) \<Longrightarrow> request_cancellation s = (True, t) \<Longrightarrow>
     producer s = P_suspended \<Longrightarrow>
     consumer_step k s (t\<lparr>consumer := C_gone, producer := P_destroyed\<rparr>)"

inductive gen_reach :: "addr \<Rightarrow> ('a, 'e) generator \<Rightarrow> bool" for k where
  start: "gen_reach k new_generator"
| by_producer: "gen_reach k s \<Longrightarrow> producer_step k s t \<Longrightarrow> gen_reach k t"
| by_consumer: "gen_reach k s \<Longrightarrow> consumer_step k s t \<Longrightarrow> gen_reach k t"

section \<open>The invariant\<close>

text \<open>
  The consumer asks for the next value without being suspended; it has the last one, or its end, or
  is about to read it, or asks again; it has left its handle in the promise.
\<close>

fun asking :: "'e consumer_pc \<Rightarrow> bool" where
  "asking C_reload = True"
| "asking C_reload' = True"
| "asking (C_operation st) = (st = Consumer_active)"
| "asking (C_second st) = (st = Consumer_active)"
| "asking _ = False"

definition reading :: "'e consumer_pc \<Rightarrow> bool" where
  "reading c \<longleftrightarrow>
     settled c \<or> c \<in> {C_result, C_load, C_operation Producer_active, C_exchange}"

fun known :: "'e consumer_pc \<Rightarrow> bool" where
  "known C_suspended = True"
| "known C_exchange = True"
| "known C_store' = True"
| "known C_resume' = True"
| "known C_reload' = True"
| "known (C_second st) = True"
| "known _ = False"

text \<open>Which positions of the two coroutines go together, by the state word.\<close>

fun control :: "gen_state \<Rightarrow> producer_pc \<Rightarrow> 'e consumer_pc \<Rightarrow> bool" where
  "control Consumer_active p c \<longleftrightarrow>
     p = P_suspended \<and> c \<in> {C_resume, C_resume'} \<or>
     p \<in> {P_body, P_yield, P_operation Consumer_active, P_exchange} \<and> asking c"
| "control Consumer_suspended p c \<longleftrightarrow>
     c = C_suspended \<and>
     p \<in> {P_body, P_yield, P_store, P_reload, P_operation Consumer_active,
          P_operation Consumer_suspended, P_operation Producer_active, P_exchange, P_store',
          P_reload', P_second Producer_active}"
| "control Producer_active p c \<longleftrightarrow>
     p \<in> {P_resume, P_resume'} \<and> c = C_suspended \<or>
     p \<in> {P_reload, P_operation Producer_active, P_reload', P_second Producer_active} \<and> reading c"
| "control Producer_suspended p c \<longleftrightarrow>
     p = P_suspended \<and>
     (c \<in> {C_start, C_store, C_store', C_operation Producer_suspended} \<or> asking c \<or> reading c)"
| "control Cancelled p c \<longleftrightarrow>
     c = C_gone \<and>
     p \<in> {P_reload, P_operation Producer_active, P_operation Cancelled, P_reload',
          P_second Producer_active, P_second Cancelled, P_destroy Cancelled, P_destroyed}"

text \<open>Whether something was published that the consumer has not received.\<close>

fun unread :: "gen_state \<Rightarrow> producer_pc \<Rightarrow> 'e consumer_pc \<Rightarrow> bool" where
  "unread Consumer_active p c \<longleftrightarrow> p \<notin> {P_suspended, P_body}"
| "unread Consumer_suspended p c \<longleftrightarrow>
     p \<in> {P_yield, P_store, P_operation Consumer_active, P_exchange, P_store'}"
| "unread Producer_active p c \<longleftrightarrow> p \<in> {P_resume, P_resume'} \<or> c = C_result"
| "unread Producer_suspended p c \<longleftrightarrow> c \<in> {C_operation Producer_suspended, C_result} \<or> asking c"
| "unread Cancelled p c \<longleftrightarrow> False"

definition gen_inv :: "addr \<Rightarrow> ('a, 'e) generator \<Rightarrow> bool" where
  "gen_inv k s \<longleftrightarrow>
     control (g_state s) (producer s) (consumer s) \<and>
     published s = received s @
       (if unread (g_state s) (producer s) (consumer s) then [m_current s] else []) \<and>
     (None \<in> set (published s) \<longleftrightarrow> body_over s) \<and> None \<notin> set (butlast (published s)) \<and>
     (body_over s \<and> \<not> unread (g_state s) (producer s) (consumer s) \<longrightarrow>
        ended (consumer s) \<or> consumer s = C_gone) \<and>
     (settled (consumer s) \<longrightarrow>
        received s \<noteq> [] \<and> last (received s) = m_current s \<and>
        (consumer s = C_value \<longleftrightarrow> m_current s \<noteq> None)) \<and>
     (consumer s = C_start \<longrightarrow> published s = []) \<and>
     (known (consumer s) \<longrightarrow> m_consumer s = k)"

lemma gen_inv_new: "gen_inv k new_generator"
  by (simp add: gen_inv_def new_generator_def settled_def)

lemma gen_invD:
  assumes "gen_inv k s"
  shows gen_control: "control (g_state s) (producer s) (consumer s)"
    and gen_published: "published s = received s @
          (if unread (g_state s) (producer s) (consumer s) then [m_current s] else [])"
    and gen_over: "None \<in> set (published s) \<longleftrightarrow> body_over s"
    and gen_inner: "None \<notin> set (butlast (published s))"
    and gen_ended: "body_over s \<Longrightarrow> \<not> unread (g_state s) (producer s) (consumer s) \<Longrightarrow>
          ended (consumer s) \<or> consumer s = C_gone"
    and gen_settled: "settled (consumer s) \<Longrightarrow> received s \<noteq> [] \<and> last (received s) = m_current s \<and>
          (consumer s = C_value \<longleftrightarrow> m_current s \<noteq> None)"
    and gen_start: "consumer s = C_start \<Longrightarrow> published s = []"
    and gen_known: "known (consumer s) \<Longrightarrow> m_consumer s = k"
  using assms unfolding gen_inv_def by blast+

section \<open>Every step keeps the invariant\<close>

text \<open>Steps that publish and receive nothing need only respect the control relation.\<close>

lemma quiet_inv:
  assumes "gen_inv k s" and "control (g_state t) (producer t) (consumer t)"
    and "unread (g_state t) (producer t) (consumer t) = unread (g_state s) (producer s) (consumer s)"
    and "consumer t = consumer s \<or> consumer t \<notin> {C_start, C_value} \<and> \<not> ended (consumer t)"
    and "ended (consumer s) \<or> consumer s = C_gone \<Longrightarrow> ended (consumer t) \<or> consumer t = C_gone"
    and "known (consumer t) \<Longrightarrow> m_consumer t = k"
    and "m_current t = m_current s" "published t = published s" "received t = received s"
      "body_over t = body_over s"
  shows "gen_inv k t"
proof -
  note D = gen_invD [OF assms(1)]
  have "consumer t = C_start \<longrightarrow> published s = []"
    using assms(4) D(7) by auto
  moreover have "settled (consumer t) \<longrightarrow> received s \<noteq> [] \<and> last (received s) = m_current s \<and>
        (consumer t = C_value \<longleftrightarrow> m_current s \<noteq> None)"
    using assms(4) D(6) by (auto simp: settled_def)
  moreover have "body_over s \<and> \<not> unread (g_state s) (producer s) (consumer s) \<longrightarrow>
        ended (consumer t) \<or> consumer t = C_gone"
    using assms(5) D(5) by blast
  ultimately show ?thesis
    unfolding gen_inv_def assms(3,7-) using D(2-4) assms(2,6) by simp
qed

lemma ended_not_asking [simp]: "ended c \<Longrightarrow> \<not> asking c"
  by (cases c) simp_all

lemma body_control:
  assumes "control g P_body c"
  shows "control g P_yield c \<and> unread g P_yield c \<and> \<not> unread g P_body c \<and> \<not> ended c \<and>
         c \<noteq> C_start \<and> c \<noteq> C_gone \<and> \<not> settled c"
  using assms by (cases g; cases c) (auto simp: settled_def)

lemma publish_inv:
  assumes "gen_inv k s" and "producer s = P_body" and "b \<longleftrightarrow> v = None"
  shows "gen_inv k (publish v (s\<lparr>body_over := b, m_exception := e\<rparr>))"
proof -
  note D = gen_invD [OF assms(1), unfolded assms(2)]
  note c = body_control [OF D(1)]
  have "published s = received s" "None \<notin> set (published s)"
    using D(2,3,5) c by auto
  with c D(8) show ?thesis
    unfolding gen_inv_def publish_def assms(3) by (cases v) (simp_all add: butlast_append)
qed

lemma body_not_over: "gen_inv k s \<Longrightarrow> producer s = P_body \<Longrightarrow> \<not> body_over s"
  using gen_control [of k s] gen_ended [of k s] body_control [of "g_state s" "consumer s"] by auto


lemma producer_step_inv: "producer_step k s t \<Longrightarrow> gen_inv k s \<Longrightarrow> gen_inv k t"
proof (induction rule: producer_step.induct)
  case (yield_value s v)
  then have "s\<lparr>body_over := False, m_exception := m_exception s\<rparr> = s"
    using body_not_over [of k s] by (cases s) simp
  then show ?case
    using publish_inv [of k s False "Some v" "m_exception s"] yield_value by simp
next
  case (body_returns s)
  then show ?case
    using publish_inv [of k s True None "m_exception s"] by (simp add: publish_def)
next
  case (body_throws s e)
  have "(gen_unhandled_exception e s)\<lparr>body_over := True\<rparr> =
      s\<lparr>body_over := True,
         m_exception := (if g_state s \<noteq> Cancelled then Some e else m_exception s)\<rparr>"
    by (cases s) (simp add: gen_unhandled_exception_def)
  with body_throws publish_inv [of k s True None] show ?case by simp
next
  case (yield_load s)
  note c = yield_load(1) gen_control [OF yield_load(2)]
  show ?case
    using c yield_load gen_known [OF yield_load(2)]
    by - (rule quiet_inv [OF yield_load(2)]; cases "g_state s"; auto simp: reading_def settled_def)
next
  case (yield_store s)
  note c = yield_store(1) gen_control [OF yield_store(2)]
  show ?case
    using c yield_store gen_known [OF yield_store(2)]
    by - (rule quiet_inv [OF yield_store(2)]; cases "g_state s"; auto simp: reading_def settled_def)
next
  case (yield_resume s)
  note c = yield_resume(1) gen_control [OF yield_resume(4)]
  show ?case
    using c yield_resume gen_known [OF yield_resume(4)]
    by - (rule quiet_inv [OF yield_resume(4)]; cases "g_state s"; auto simp: reading_def settled_def)
next
  case (yield_reload s)
  note c = yield_reload(1) gen_control [OF yield_reload(2)]
  show ?case
    using c yield_reload gen_known [OF yield_reload(2)]
    by - (rule quiet_inv [OF yield_reload(2)]; cases "g_state s"; auto simp: reading_def settled_def)
next
  case (operation_ready s)
  note c = operation_ready(1) gen_control [OF operation_ready(2)]
  show ?case
    using c operation_ready gen_known [OF operation_ready(2)]
    by - (rule quiet_inv [OF operation_ready(2)]; cases "g_state s"; auto simp: reading_def settled_def)
next
  case (operation_suspend s st)
  note c = operation_suspend(1) gen_control [OF operation_suspend(3)]
  show ?case
    using c operation_suspend gen_known [OF operation_suspend(3)]
    by - (rule quiet_inv [OF operation_suspend(3)]; cases "g_state s"; auto simp: reading_def settled_def)
next
  case (exchange_ok s)
  note c = exchange_ok(1) gen_control [OF exchange_ok(3)]
  show ?case
    using c exchange_ok gen_known [OF exchange_ok(3)]
    by - (rule quiet_inv [OF exchange_ok(3)]; cases "g_state s"; auto simp: reading_def settled_def)
next
  case (exchange_fail s)
  note c = exchange_fail(1) gen_control [OF exchange_fail(3)]
  show ?case
    using c exchange_fail gen_known [OF exchange_fail(3)]
    by - (rule quiet_inv [OF exchange_fail(3)]; cases "g_state s"; auto simp: reading_def settled_def)
next
  case (suspend_store s)
  note c = suspend_store(1) gen_control [OF suspend_store(2)]
  show ?case
    using c suspend_store gen_known [OF suspend_store(2)]
    by - (rule quiet_inv [OF suspend_store(2)]; cases "g_state s"; auto simp: reading_def settled_def)
next
  case (suspend_resume s)
  note c = suspend_resume(1) gen_control [OF suspend_resume(4)]
  show ?case
    using c suspend_resume gen_known [OF suspend_resume(4)]
    by - (rule quiet_inv [OF suspend_resume(4)]; cases "g_state s"; auto simp: reading_def settled_def)
next
  case (suspend_reload s)
  note c = suspend_reload(1) gen_control [OF suspend_reload(2)]
  show ?case
    using c suspend_reload gen_known [OF suspend_reload(2)]
    by - (rule quiet_inv [OF suspend_reload(2)]; cases "g_state s"; auto simp: reading_def settled_def)
next
  case (second_ok s)
  note c = second_ok(1) gen_control [OF second_ok(3)]
  show ?case
    using c second_ok gen_known [OF second_ok(3)]
    by - (rule quiet_inv [OF second_ok(3)]; cases "g_state s"; auto simp: reading_def settled_def)
next
  case (second_fail s)
  note c = second_fail(1) gen_control [OF second_fail(3)]
  show ?case
    using c second_fail gen_known [OF second_fail(3)]
    by - (rule quiet_inv [OF second_fail(3)]; cases "g_state s"; auto simp: reading_def settled_def)
next
  case (second_skip s st)
  note c = second_skip(1) gen_control [OF second_skip(3)]
  show ?case
    using c second_skip gen_known [OF second_skip(3)]
    by - (rule quiet_inv [OF second_skip(3)]; cases "g_state s"; auto simp: reading_def settled_def)
next
  case (destroy_self s st)
  note c = destroy_self(1) gen_control [OF destroy_self(2)]
  show ?case
    using c destroy_self gen_known [OF destroy_self(2)]
    by - (rule quiet_inv [OF destroy_self(2)]; cases "g_state s"; auto simp: reading_def settled_def)
qed


lemma result_control:
  assumes "control g p (C_result :: 'e consumer_pc)"
  shows "unread g p (C_result :: 'e consumer_pc) \<and> (settled (c :: 'e consumer_pc) \<longrightarrow> control g p c \<and> \<not> unread g p c)"
  using assms by (cases g) (auto simp: reading_def settled_def)

lemma result_inv:
  assumes "gen_inv k s" and "consumer s = C_result" and "settled c" and "c = C_value \<longleftrightarrow> m_current s \<noteq> None"
  shows "gen_inv k (s\<lparr>consumer := c, received := received s @ [m_current s]\<rparr>)"
proof -
  note D = gen_invD [OF assms(1), unfolded assms(2)]
  note r = result_control [OF D(1), of c]
  have p: "published s = received s @ [m_current s]" using D(2) r by simp
  have "body_over s \<longrightarrow> m_current s = None" using D(3,4) p by (cases "m_current s") auto
  moreover have "\<not> known c" "c \<noteq> C_start" using assms(3) by (cases c; simp add: settled_def)+
  ultimately show ?thesis
    using D(3,4) p r assms(3,4) unfolding gen_inv_def by (auto simp: settled_def)
qed

lemma consumer_step_inv: "consumer_step k s t \<Longrightarrow> gen_inv k s \<Longrightarrow> gen_inv k t"
proof (induction rule: consumer_step.induct)
  case (result s)
  then show ?case
    using result_inv [of k s "gen_await_resume s"]
    by (simp add: settled_def gen_await_resume_def split: option.split)
next
  case (advance s)
  note c = advance(1) gen_control [OF advance(2)]
  show ?case
    using c advance gen_known [OF advance(2)]
    by - (rule quiet_inv [OF advance(2)]; cases "g_state s"; auto simp: reading_def settled_def)
next
  case (advance_load s)
  note c = advance_load(1) gen_control [OF advance_load(2)]
  show ?case
    using c advance_load gen_known [OF advance_load(2)]
    by - (rule quiet_inv [OF advance_load(2)]; cases "g_state s"; auto simp: reading_def settled_def)
next
  case (advance_store s)
  note c = advance_store(1) gen_control [OF advance_store(2)]
  show ?case
    using c advance_store gen_known [OF advance_store(2)]
    by - (rule quiet_inv [OF advance_store(2)]; cases "g_state s"; auto simp: reading_def settled_def)
next
  case (advance_resume s)
  note c = advance_resume(1) gen_control [OF advance_resume(3)]
  show ?case
    using c advance_resume gen_known [OF advance_resume(3)]
    by - (rule quiet_inv [OF advance_resume(3)]; cases "g_state s"; auto simp: reading_def settled_def)
next
  case (advance_reload s)
  note c = advance_reload(1) gen_control [OF advance_reload(2)]
  show ?case
    using c advance_reload gen_known [OF advance_reload(2)]
    by - (rule quiet_inv [OF advance_reload(2)]; cases "g_state s"; auto simp: reading_def settled_def)
next
  case (operation_ready s)
  note c = operation_ready(1) gen_control [OF operation_ready(2)]
  show ?case
    using c operation_ready gen_known [OF operation_ready(2)]
    by - (rule quiet_inv [OF operation_ready(2)]; cases "g_state s"; auto simp: reading_def settled_def)
next
  case (operation_suspend s st)
  note c = operation_suspend(1) gen_control [OF operation_suspend(3)]
  show ?case
    using c operation_suspend gen_known [OF operation_suspend(3)]
    by - (rule quiet_inv [OF operation_suspend(3)]; cases "g_state s"; auto simp: reading_def settled_def)
next
  case (exchange_ok s)
  note c = exchange_ok(1) gen_control [OF exchange_ok(3)]
  show ?case
    using c exchange_ok gen_known [OF exchange_ok(3)]
    by - (rule quiet_inv [OF exchange_ok(3)]; cases "g_state s"; auto simp: reading_def settled_def)
next
  case (exchange_fail s)
  note c = exchange_fail(1) gen_control [OF exchange_fail(3)]
  show ?case
    using c exchange_fail gen_known [OF exchange_fail(3)]
    by - (rule quiet_inv [OF exchange_fail(3)]; cases "g_state s"; auto simp: reading_def settled_def)
next
  case (suspend_store s)
  note c = suspend_store(1) gen_control [OF suspend_store(2)]
  show ?case
    using c suspend_store gen_known [OF suspend_store(2)]
    by - (rule quiet_inv [OF suspend_store(2)]; cases "g_state s"; auto simp: reading_def settled_def)
next
  case (suspend_resume s)
  note c = suspend_resume(1) gen_control [OF suspend_resume(3)]
  show ?case
    using c suspend_resume gen_known [OF suspend_resume(3)]
    by - (rule quiet_inv [OF suspend_resume(3)]; cases "g_state s"; auto simp: reading_def settled_def)
next
  case (suspend_reload s)
  note c = suspend_reload(1) gen_control [OF suspend_reload(2)]
  show ?case
    using c suspend_reload gen_known [OF suspend_reload(2)]
    by - (rule quiet_inv [OF suspend_reload(2)]; cases "g_state s"; auto simp: reading_def settled_def)
next
  case (second_ok s st)
  note c = second_ok(1) gen_control [OF second_ok(3)]
  show ?case
    using c second_ok gen_known [OF second_ok(3)]
    by - (rule quiet_inv [OF second_ok(3)]; cases "g_state s"; auto simp: reading_def settled_def)
next
  case (second_fail s st)
  note c = second_fail(1) gen_control [OF second_fail(3)]
  show ?case
    using c second_fail gen_known [OF second_fail(3)]
    by - (rule quiet_inv [OF second_fail(3)]; cases "g_state s"; auto simp: reading_def settled_def)
next
  case (cancel_active s t)
  then have t: "t = s\<lparr>g_state := Cancelled\<rparr>" "\<not> g_state s = Producer_suspended"
    by (auto simp: request_cancellation_def)
  note c = cancel_active(1) gen_control [OF cancel_active(3)]
  show ?case
    using c cancel_active(1) t gen_known [OF cancel_active(3)]
    by - (rule quiet_inv [OF cancel_active(3)]; cases "g_state s"; auto simp: reading_def settled_def)
next
  case (cancel_suspended s t)
  then have t: "t = s\<lparr>g_state := Cancelled\<rparr>" "g_state s = Producer_suspended"
    by (auto simp: request_cancellation_def)
  note c = cancel_suspended(1) gen_control [OF cancel_suspended(4)]
  show ?case
    using c cancel_suspended(1,3) t gen_known [OF cancel_suspended(4)]
    by - (rule quiet_inv [OF cancel_suspended(4)]; cases "g_state s"; auto simp: reading_def settled_def)
qed

lemma gen_reach_inv: "gen_reach k s \<Longrightarrow> gen_inv k s"
  by (induction rule: gen_reach.induct) (auto intro: gen_inv_new producer_step_inv consumer_step_inv)

section \<open>A run\<close>

text \<open>
  The consumer suspends, gets 7, asks again and suspends, and the body throws. Between the two, a
  state where it is suspended and one where it holds the value.
\<close>

lemma generator_run:
  "\<exists>(s :: (int, int) generator) (s' :: (int, int) generator) (s'' :: (int, int) generator).
     gen_reach 5 s \<and> consumer s = C_suspended \<and> producer s = P_resume \<and>
     gen_reach 5 s' \<and> consumer s' = C_value \<and> received s' = [Some 7] \<and>
     gen_reach 5 s'' \<and> consumer s'' = C_threw 3 \<and> published s'' = [Some 7, None]"
proof -
  note p = gen_reach.by_producer and c = gen_reach.by_consumer
  note defs = new_generator_def publish_def
  have s0: "gen_reach 5 (new_generator :: (int, int) generator)" by (rule gen_reach.start)
  note s1 = c [OF s0 consumer_step.advance [of _ 5], simplified defs, simplified]
  note s2 = c [OF s1 consumer_step.advance_load [of _ 5], simplified]
  note s3 = c [OF s2 consumer_step.advance_store [of _ 5], simplified]
  note s4 = c [OF s3 consumer_step.advance_resume [of _ 5], simplified]
  note s5 = c [OF s4 consumer_step.advance_reload [of _ 5], simplified]
  note s6 = c [OF s5 consumer_step.operation_suspend [of _ Consumer_active 5], simplified]
  note s7 = c [OF s6 consumer_step.second_ok [of _ Consumer_active 5], simplified]
  note s8 = p [OF s7 producer_step.yield_value [of _ 5 7], simplified defs, simplified]
  note s9 = p [OF s8 producer_step.yield_load [of _ 5], simplified]
  note s10 = p [OF s9 producer_step.yield_store [of _ 5], simplified]
  note s11 = p [OF s10 producer_step.yield_resume [of _ 5], simplified]
  note s12 = c [OF s11 consumer_step.result [of _ 5], simplified gen_await_resume_def, simplified]
  note s13 = c [OF s12 consumer_step.advance [of _ 5], simplified]
  note s14 = c [OF s13 consumer_step.advance_load [of _ 5], simplified]
  note s15 = c [OF s14 consumer_step.operation_suspend [of _ Producer_active 5], simplified]
  note s16 = c [OF s15 consumer_step.exchange_ok [of _ 5], simplified]
  note s17 = p [OF s16 producer_step.yield_reload [of _ 5], simplified]
  note s18 = p [OF s17 producer_step.operation_ready [of _ 5], simplified]
  note s19 = p [OF s18 producer_step.body_throws [of _ 5 3], simplified defs gen_unhandled_exception_def, simplified]
  note s20 = p [OF s19 producer_step.yield_load [of _ 5], simplified]
  note s21 = p [OF s20 producer_step.yield_store [of _ 5], simplified]
  note s22 = p [OF s21 producer_step.yield_resume [of _ 5], simplified]
  note s23 = c [OF s22 consumer_step.result [of _ 5], simplified gen_await_resume_def, simplified]
  show ?thesis
    by (intro exI conjI, rule s10, simp, simp, rule s12, simp, simp, rule s23) simp_all
qed

section \<open>Properties\<close>

text \<open>
  C13: Whatever the interleaving, the consumer of an asynchronous generator receives the published
  values in order, each once, with the end as the last; at most one value is ahead of it, and when it
  is at the end it has received everything.
\<close>

theorem generator_values_in_order:
  assumes "gen_reach k s"
  shows "prefix (received s) (published s) \<and> length (published s) \<le> length (received s) + 1 \<and>
         None \<notin> set (butlast (published s)) \<and>
         (ended (consumer s) \<longrightarrow> body_over s \<and> received s = published s)"
proof -
  note inv = gen_reach_inv [OF assms]
  have u: "\<not> unread (g_state s) (producer s) (consumer s) \<and> m_current s = None" if "ended (consumer s)"
    using that gen_control [OF inv] gen_settled [OF inv]
    by (cases "g_state s"; auto simp: settled_def)
  have "body_over s \<and> received s = published s" if "ended (consumer s)"
  proof -
    have "received s = published s" "None \<in> set (received s)"
      using gen_published [OF inv] u [OF that] gen_settled [OF inv] that
      by (auto simp: settled_def) (metis last_in_set)
    with gen_over [OF inv] show ?thesis by simp
  qed
  with gen_published [OF inv] gen_inner [OF inv] show ?thesis by simp
qed

theorem generator_values_in_order_witness:
  "\<exists>s :: (int, int) generator. gen_reach 5 s \<and> published s = [Some 7, None] \<and> received s = published s"
proof -
  obtain s :: "(int, int) generator" where s: "gen_reach 5 s" "consumer s = C_threw 3"
    "published s = [Some 7, None]" using generator_run by blast
  with generator_values_in_order [OF s(1)] show ?thesis by auto
qed

text \<open>
  While the consumer holds a value, that value is still the current one and the producer neither
  runs its body nor yields again: the reference stays valid until the consumer asks for the next.
\<close>

theorem generator_value_stays:
  assumes "gen_reach k s" and "consumer s = C_value"
  shows "\<exists>v. m_current s = Some v \<and> last (received s) = Some v \<and> received s = published s \<and>
             \<not> body_over s \<and> producer s \<notin> {P_body, P_yield}"
proof -
  note inv = gen_reach_inv [OF assms(1)]
  obtain v where v: "m_current s = Some v" "last (received s) = Some v"
    using gen_settled [OF inv] assms(2) by (auto simp: settled_def)
  have "producer s \<notin> {P_body, P_yield} \<and> \<not> unread (g_state s) (producer s) (consumer s)"
    using gen_control [OF inv] assms(2) by (cases "g_state s") auto
  with v gen_published [OF inv] gen_ended [OF inv] assms(2) show ?thesis by auto
qed

theorem generator_value_stays_witness:
  "\<exists>s :: (int, int) generator. gen_reach 5 s \<and> received s = [Some 7] \<and> m_current s = Some 7"
proof -
  obtain s :: "(int, int) generator" where s: "gen_reach 5 s" "consumer s = C_value"
    "received s = [Some 7]" using generator_run by blast
  with generator_value_stays [OF s(1,2)] show ?thesis by auto
qed

text \<open>
  C14: Control is handed over safely: a coroutine is resumed only while it is suspended, and by the
  handle it left; every assertion of the generator holds; the frame of the producer is destroyed by
  the consumer only while the producer is suspended, and by the producer only after cancellation.
\<close>

theorem generator_hand_over_safe:
  assumes "gen_reach k s"
  shows "(producer s \<in> {P_resume, P_resume'} \<longrightarrow> consumer s = C_suspended \<and> m_consumer s = k) \<and>
         (consumer s \<in> {C_resume, C_resume'} \<longrightarrow> producer s = P_suspended) \<and>
         (producer s = P_yield \<longrightarrow> g_state s \<notin> {Producer_active, Producer_suspended}) \<and>
         (\<forall>st. producer s = P_destroy st \<longrightarrow> st = Cancelled \<and> consumer s = C_gone) \<and>
         (\<forall>st. consumer s = C_second st \<longrightarrow> st = Consumer_active) \<and>
         (consumer s = C_exchange \<longrightarrow> g_state s \<in> {Producer_active, Producer_suspended}) \<and>
         (consumer s = C_start \<or> settled (consumer s) \<longrightarrow>
            g_state s \<notin> {Consumer_suspended, Cancelled} \<and>
            (g_state s = Producer_suspended \<longrightarrow> producer s = P_suspended))"
proof -
  note inv = gen_reach_inv [OF assms]
  show ?thesis
    using gen_control [OF inv] gen_known [OF inv]
    by (cases "g_state s") (auto simp: reading_def settled_def)
qed

theorem generator_hand_over_safe_witness:
  "\<exists>s :: (int, int) generator. gen_reach 5 s \<and> producer s = P_resume \<and> consumer s = C_suspended \<and>
     m_consumer s = 5"
proof -
  obtain s :: "(int, int) generator" where s: "gen_reach 5 s" "producer s = P_resume"
    using generator_run by blast
  with generator_hand_over_safe [OF s(1)] show ?thesis by auto
qed

text \<open>
  C15: No wake-up is lost and no frame is leaked: while the consumer is suspended the producer can take
  a step, and when neither can move the consumer has destroyed the generator and the producer's frame
  is destroyed.
\<close>

theorem generator_no_lost_wakeup:
  assumes "gen_reach k s"
  shows "(consumer s = C_suspended \<longrightarrow> (\<exists>t. producer_step k s t)) \<and>
         ((\<forall>t. \<not> producer_step k s t \<and> \<not> consumer_step k s t) \<longrightarrow>
            consumer s = C_gone \<and> producer s = P_destroyed)"
proof -
  note inv = gen_reach_inv [OF assms]
  note c = gen_control [OF inv] and k = gen_known [OF inv]
  have p: "\<exists>t. producer_step k s t" if "producer s \<notin> {P_suspended, P_destroyed}"
  proof (cases "producer s")
    case P_resume
    with c k have "consumer s = C_suspended" "m_consumer s = k"
      by (cases "g_state s"; auto)+
    with P_resume show ?thesis by (blast intro: producer_step.yield_resume)
  next
    case P_resume'
    with c k have "consumer s = C_suspended" "m_consumer s = k"
      by (cases "g_state s"; auto)+
    with P_resume' show ?thesis by (blast intro: producer_step.suspend_resume)
  qed (use that in \<open>blast intro: producer_step.intros\<close>)+
  have cancel: "\<exists>t. consumer_step k s t" if "settled (consumer s)"
    using that c consumer_step.cancel_active [of s] consumer_step.cancel_suspended [of s]
    by (cases "g_state s") (auto simp: request_cancellation_def)
  have q: "\<exists>t. consumer_step k s t" if "consumer s \<notin> {C_suspended, C_gone}"
  proof (cases "consumer s")
    case C_resume
    with c have "producer s = P_suspended"
      by (cases "g_state s") (auto simp: reading_def settled_def)
    with C_resume show ?thesis by (blast intro: consumer_step.advance_resume)
  next
    case C_resume'
    with c have "producer s = P_suspended"
      by (cases "g_state s") (auto simp: reading_def settled_def)
    with C_resume' show ?thesis by (blast intro: consumer_step.suspend_resume)
  next
    case C_end
    then show ?thesis by (intro cancel) (simp add: settled_def)
  next
    case (C_threw e)
    then show ?thesis by (intro cancel) (simp add: settled_def)
  qed (use that in \<open>blast intro: consumer_step.intros\<close>)+
  have "consumer s = C_suspended \<Longrightarrow> producer s \<notin> {P_suspended, P_destroyed}"
    using c by (cases "g_state s") (auto simp: reading_def settled_def)
  moreover have "consumer s = C_gone \<Longrightarrow> producer s \<noteq> P_suspended"
    using c by (cases "g_state s") (auto simp: reading_def settled_def)
  ultimately show ?thesis using p q by blast
qed

theorem generator_no_lost_wakeup_witness:
  "\<exists>s t :: (int, int) generator. gen_reach 5 s \<and> consumer s = C_suspended \<and> producer_step 5 s t"
proof -
  obtain s :: "(int, int) generator" where s: "gen_reach 5 s" "consumer s = C_suspended"
    using generator_run by blast
  with generator_no_lost_wakeup [OF s(1)] show ?thesis by blast
qed

end
