(* ===== verification/Sync_Generator.thy ===== *)
theory Sync_Generator
  imports Prelude
begin

text \<open>
  The synchronous generator of \<open>ice/async.hpp\<close>: a coroutine that yields values to the loop that
  iterates over it. The body of the coroutine is a process that may go on for ever; frames and
  generator objects are named by addresses, and \<^const>\<open>None\<close> as a result is undefined behaviour.
\<close>

section \<open>Coroutines\<close>

codatatype ('a, 'e) body =
    Yield 'a "('a, 'e) body"
  | Return
  | Throw 'e

text \<open>
  A frame: what the body does when it is resumed, whether it is suspended at its final suspend point,
  and the promise's \<open>m_value\<close>, \<^const>\<open>None\<close> while it points to no object: before the first value, and
  once the body has gone on.
\<close>

record ('a, 'e) frame =
  rest :: "('a, 'e) body"
  at_end :: bool
  m_value :: "'a option"

definition initial_frame :: "('a, 'e) body \<Rightarrow> ('a, 'e) frame" where
  "initial_frame b = \<lparr>rest = b, at_end = False, m_value = None\<rparr>"

text \<open>
  Resuming: the body runs to its next \<open>yield_value\<close> or to its end. An exception leaves through
  \<open>unhandled_exception\<close>, which rethrows it, and the coroutine is then at its final suspend point. A
  coroutine at its final suspend point must not be resumed.
\<close>

datatype 'e resumed = Suspended | Threw 'e

definition promise_yield_value :: "'a \<Rightarrow> ('a, 'e) frame \<Rightarrow> ('a, 'e) frame" where
  "promise_yield_value v f = f\<lparr>m_value := Some v\<rparr>"

definition promise_value :: "('a, 'e) frame \<Rightarrow> 'a option" where
  "promise_value f = m_value f"

definition promise_unhandled_exception :: "'e \<Rightarrow> 'e resumed" where
  "promise_unhandled_exception e = Threw e"

definition frame_resume :: "('a, 'e) frame \<Rightarrow> ('e resumed \<times> ('a, 'e) frame) option" where
  "frame_resume f =
     (if at_end f then None
      else case rest f of
             Yield v b \<Rightarrow> Some (Suspended, promise_yield_value v (f\<lparr>rest := b\<rparr>))
           | Return \<Rightarrow> Some (Suspended, f\<lparr>at_end := True, m_value := None\<rparr>)
           | Throw e \<Rightarrow> Some (promise_unhandled_exception e, f\<lparr>at_end := True, m_value := None\<rparr>))"

text \<open>All frames that exist, and the generator objects with the coroutine each holds, 0 for none.\<close>

record ('a, 'e) coroutines =
  frames :: "addr \<rightharpoonup> ('a, 'e) frame"
  gens :: "addr \<rightharpoonup> addr"

definition co_resume :: "addr \<Rightarrow> ('a, 'e) coroutines \<Rightarrow> ('e resumed \<times> ('a, 'e) coroutines) option" where
  "co_resume c w =
     (case frames w c of
        None \<Rightarrow> None
      | Some f \<Rightarrow>
          (case frame_resume f of
             None \<Rightarrow> None
           | Some (r, f') \<Rightarrow> Some (r, w\<lparr>frames := (frames w)(c \<mapsto> f')\<rparr>)))"

definition co_done :: "addr \<Rightarrow> ('a, 'e) coroutines \<Rightarrow> bool option" where
  "co_done c w = map_option at_end (frames w c)"

definition co_destroy :: "addr \<Rightarrow> ('a, 'e) coroutines \<Rightarrow> ('a, 'e) coroutines option" where
  "co_destroy c w =
     (case frames w c of None \<Rightarrow> None | Some f \<Rightarrow> Some (w\<lparr>frames := (frames w)(c := None)\<rparr>))"

section \<open>Iterators\<close>

text \<open>
  An iterator is the address of a coroutine, 0 at the end. \<open>++\<close> and \<open>begin\<close> give an iterator or the
  exception of the body.
\<close>

definition iterator_eq :: "addr \<Rightarrow> addr \<Rightarrow> bool" where
  "iterator_eq it other \<longleftrightarrow> it = other"

definition iterator_ne :: "addr \<Rightarrow> addr \<Rightarrow> bool" where
  "iterator_ne it other \<longleftrightarrow> \<not> iterator_eq it other"

definition iterator_increment ::
    "addr \<Rightarrow> ('a, 'e) coroutines \<Rightarrow> (('e + addr) \<times> ('a, 'e) coroutines) option" where
  "iterator_increment it w =
     (case co_resume it w of
        None \<Rightarrow> None
      | Some (Threw e, w1) \<Rightarrow> Some (Inl e, w1)
      | Some (Suspended, w1) \<Rightarrow>
          (case co_done it w1 of
             None \<Rightarrow> None
           | Some d \<Rightarrow> Some (Inr (if d then 0 else it), w1)))"

definition iterator_deref :: "addr \<Rightarrow> ('a, 'e) coroutines \<Rightarrow> 'a option" where
  "iterator_deref it w = (case frames w it of None \<Rightarrow> None | Some f \<Rightarrow> promise_value f)"

section \<open>Generator objects\<close>

definition new_gen :: "addr \<Rightarrow> ('a, 'e) coroutines \<Rightarrow> ('a, 'e) coroutines option" where
  "new_gen g w = (if gens w g = None then Some (w\<lparr>gens := (gens w)(g \<mapsto> 0)\<rparr>) else None)"

text \<open>Calling a coroutine: its frame is created and suspended, and the generator object holds it.\<close>

definition get_return_object ::
    "addr \<Rightarrow> addr \<Rightarrow> ('a, 'e) body \<Rightarrow> ('a, 'e) coroutines \<Rightarrow> ('a, 'e) coroutines option" where
  "get_return_object g c b w =
     (if gens w g = None \<and> frames w c = None \<and> c \<noteq> 0
      then Some (w\<lparr>gens := (gens w)(g \<mapsto> c), frames := (frames w)(c \<mapsto> initial_frame b)\<rparr>)
      else None)"

definition gen_move :: "addr \<Rightarrow> addr \<Rightarrow> ('a, 'e) coroutines \<Rightarrow> ('a, 'e) coroutines option" where
  "gen_move g other w =
     (case gens w other of
        None \<Rightarrow> None
      | Some c \<Rightarrow> if gens w g \<noteq> None then None else Some (w\<lparr>gens := (gens w)(g \<mapsto> c, other \<mapsto> 0)\<rparr>))"

definition gen_destroy :: "addr \<Rightarrow> ('a, 'e) coroutines \<Rightarrow> ('a, 'e) coroutines option" where
  "gen_destroy g w =
     (case gens w g of
        None \<Rightarrow> None
      | Some c \<Rightarrow>
          (case (if c \<noteq> 0 then co_destroy c w else Some w) of
             None \<Rightarrow> None
           | Some w1 \<Rightarrow> Some (w1\<lparr>gens := (gens w1)(g := None)\<rparr>)))"

definition gen_swap :: "addr \<Rightarrow> addr \<Rightarrow> ('a, 'e) coroutines \<Rightarrow> ('a, 'e) coroutines option" where
  "gen_swap g other w =
     (case (gens w g, gens w other) of
        (Some c, Some d) \<Rightarrow> Some (w\<lparr>gens := (gens w)(g \<mapsto> d, other \<mapsto> c)\<rparr>)
      | _ \<Rightarrow> None)"

text \<open>Assignment takes its argument by value: the parameter is made by a move, swapped and destroyed.\<close>

definition gen_assign :: "addr \<Rightarrow> addr \<Rightarrow> addr \<Rightarrow> ('a, 'e) coroutines \<Rightarrow> ('a, 'e) coroutines option" where
  "gen_assign parameter g other w =
     (case gen_move parameter other w of
        None \<Rightarrow> None
      | Some w1 \<Rightarrow>
          (case gen_swap g parameter w1 of
             None \<Rightarrow> None
           | Some w2 \<Rightarrow> gen_destroy parameter w2))"

definition gen_begin ::
    "addr \<Rightarrow> ('a, 'e) coroutines \<Rightarrow> (('e + addr) \<times> ('a, 'e) coroutines) option" where
  "gen_begin g w =
     (case gens w g of
        None \<Rightarrow> None
      | Some c \<Rightarrow>
          if c \<noteq> 0
          then (case co_resume c w of
                  None \<Rightarrow> None
                | Some (Threw e, w1) \<Rightarrow> Some (Inl e, w1)
                | Some (Suspended, w1) \<Rightarrow>
                    (case co_done c w1 of
                       None \<Rightarrow> None
                     | Some d \<Rightarrow> Some (Inr (if \<not> d then c else 0), w1)))
          else Some (Inr 0, w))"

definition gen_end :: addr where
  "gen_end = 0"

section \<open>The loop over a generator\<close>

text \<open>
  \<open>for (auto& v : g)\<close>: what the loop has seen, and the exception that ended it. \<^const>\<open>None\<close> also
  stands for a loop that never ends.
\<close>

partial_function (option) iterate ::
    "addr \<Rightarrow> 'a list \<Rightarrow> ('a, 'e) coroutines \<Rightarrow> ('a list \<times> 'e option \<times> ('a, 'e) coroutines) option" where
  "iterate it seen w =
     (if \<not> iterator_ne it gen_end then Some (seen, None, w)
      else case iterator_deref it w of
             None \<Rightarrow> None
           | Some v \<Rightarrow>
               (case iterator_increment it w of
                  None \<Rightarrow> None
                | Some (Inl e, w1) \<Rightarrow> Some (seen @ [v], Some e, w1)
                | Some (Inr it1, w1) \<Rightarrow> iterate it1 (seen @ [v]) w1))"

definition range_for ::
    "addr \<Rightarrow> ('a, 'e) coroutines \<Rightarrow> ('a list \<times> 'e option \<times> ('a, 'e) coroutines) option" where
  "range_for g w =
     (case gen_begin g w of
        None \<Rightarrow> None
      | Some (Inl e, w1) \<Rightarrow> Some ([], Some e, w1)
      | Some (Inr it, w1) \<Rightarrow> iterate it [] w1)"

section \<open>What a body yields\<close>

text \<open>A body that ends: its values, and its exception if it has one.\<close>

inductive yields :: "('a, 'e) body \<Rightarrow> 'a list \<Rightarrow> 'e option \<Rightarrow> bool" where
  yields_return: "yields Return [] None"
| yields_throw: "yields (Throw e) [] (Some e)"
| yields_value: "yields b xs r \<Longrightarrow> yields (Yield v b) (v # xs) r"

inductive_cases yields_ReturnE: "yields Return xs r"
inductive_cases yields_ThrowE: "yields (Throw e) xs r"
inductive_cases yields_YieldE: "yields (Yield v b) xs r"

inductive_simps yields_simps [simp]:
  "yields Return xs r" "yields (Throw e) xs r" "yields (Yield v b) xs r"

text \<open>A frame at its final suspend point, and one suspended at a \<open>co_yield\<close>.\<close>

definition ended_frame :: "'e option \<Rightarrow> ('a, 'e) frame" where
  "ended_frame r =
     \<lparr>rest = (case r of None \<Rightarrow> Return | Some e \<Rightarrow> Throw e), at_end = True, m_value = None\<rparr>"

definition yielded_frame :: "'a \<Rightarrow> ('a, 'e) body \<Rightarrow> ('a, 'e) frame" where
  "yielded_frame v b = \<lparr>rest = b, at_end = False, m_value = Some v\<rparr>"

definition put_frame :: "addr \<Rightarrow> ('a, 'e) frame \<Rightarrow> ('a, 'e) coroutines \<Rightarrow> ('a, 'e) coroutines" where
  "put_frame c f w = w\<lparr>frames := (frames w)(c \<mapsto> f)\<rparr>"

lemma put_frame_simps [simp]:
  "frames (put_frame c f w) c = Some f" "gens (put_frame c f w) = gens w"
  "put_frame c f (put_frame c f' w) = put_frame c f w"
  by (simp_all add: put_frame_def)

lemma frame_fields [simp]:
  "rest (yielded_frame v b) = b" "\<not> at_end (yielded_frame v b)" "m_value (yielded_frame v b) = Some v"
  "at_end (ended_frame r)"
  by (simp_all add: yielded_frame_def ended_frame_def)

text \<open>What a resumption makes of a coroutine that has not ended.\<close>

lemma co_resume_body:
  assumes "frames w c = Some f" and "\<not> at_end f"
  shows "co_resume c w =
    (case rest f of
       Yield v b \<Rightarrow> Some (Suspended, put_frame c (yielded_frame v b) w)
     | Return \<Rightarrow> Some (Suspended, put_frame c (ended_frame None) w)
     | Throw e \<Rightarrow> Some (Threw e, put_frame c (ended_frame (Some e)) w))"
  using assms
  by (cases f; cases "rest f")
    (simp_all add: co_resume_def frame_resume_def promise_yield_value_def promise_unhandled_exception_def
      yielded_frame_def ended_frame_def put_frame_def)

lemma iterator_increment_body:
  assumes "frames w c = Some f" and "\<not> at_end f"
  shows "iterator_increment c w =
    (case rest f of
       Yield v b \<Rightarrow> Some (Inr c, put_frame c (yielded_frame v b) w)
     | Return \<Rightarrow> Some (Inr 0, put_frame c (ended_frame None) w)
     | Throw e \<Rightarrow> Some (Inl e, put_frame c (ended_frame (Some e)) w))"
  using co_resume_body [OF assms]
  by (cases "rest f")
    (simp_all add: iterator_increment_def co_done_def)

lemma gen_begin_body:
  assumes "gens w g = Some c" and "c \<noteq> 0" and "frames w c = Some f" and "\<not> at_end f"
  shows "gen_begin g w = iterator_increment c w"
  using assms co_resume_body [OF assms(3,4)]
  by (cases "rest f") (simp_all add: gen_begin_def iterator_increment_def co_done_def)

lemma iterator_deref_yielded: "iterator_deref c (put_frame c (yielded_frame v b) w) = Some v"
  by (simp add: iterator_deref_def promise_value_def)

section \<open>The loop sees what the body yields\<close>

lemma iterate_end: "iterate 0 seen w = Some (seen, None, w)"
  by (simp add: iterate.simps [of 0] iterator_ne_def iterator_eq_def gen_end_def)

lemma iterate_yielded:
  assumes "c \<noteq> 0"
  shows "iterate c seen (put_frame c (yielded_frame v b) w) =
    (case b of
       Yield u b' \<Rightarrow> iterate c (seen @ [v]) (put_frame c (yielded_frame u b') w)
     | Return \<Rightarrow> Some (seen @ [v], None, put_frame c (ended_frame None) w)
     | Throw e \<Rightarrow> Some (seen @ [v], Some e, put_frame c (ended_frame (Some e)) w))"
proof -
  have "iterator_increment c (put_frame c (yielded_frame v b) w) =
    (case b of
       Yield u b' \<Rightarrow> Some (Inr c, put_frame c (yielded_frame u b') w)
     | Return \<Rightarrow> Some (Inr 0, put_frame c (ended_frame None) w)
     | Throw e \<Rightarrow> Some (Inl e, put_frame c (ended_frame (Some e)) w))"
    using iterator_increment_body [of "put_frame c (yielded_frame v b) w" c "yielded_frame v b"]
    by (simp split: body.split)
  with assms show ?thesis
    by (subst iterate.simps)
      (simp add: iterator_ne_def iterator_eq_def gen_end_def iterator_deref_yielded iterate_end
        split: body.split)
qed

lemma iterate_returns:
  "yields b xs r \<Longrightarrow> c \<noteq> 0 \<Longrightarrow>
   iterate c seen (put_frame c (yielded_frame v b) w) =
     Some (seen @ v # xs, r, put_frame c (ended_frame r) w)"
proof (induction b xs r arbitrary: seen v rule: yields.induct)
  case (yields_value b xs r u)
  then show ?case by (simp add: iterate_yielded)
qed (simp_all add: iterate_yielded)


lemma iterate_only_if:
  assumes "iterate it seen w = Some res"
  shows "(it = 0 \<longrightarrow> fst res = seen \<and> fst (snd res) = None) \<and>
   (it \<noteq> 0 \<longrightarrow> frames w it = Some (yielded_frame v b) \<longrightarrow>
      (\<exists>xs. yields b xs (fst (snd res)) \<and> fst res = seen @ v # xs))"
  using assms
proof (induction arbitrary: v b rule: iterate.raw_induct [rotated, consumes 1, case_names unfold])
  case (unfold self it seen w res)
  show ?case
  proof (cases "it = 0")
    case True
    with unfold(2) show ?thesis by (auto simp: iterator_ne_def iterator_eq_def gen_end_def)
  next
    case False
    show ?thesis
    proof (intro conjI impI)
      assume f: "frames w it = Some (yielded_frame v b)"
      then have inc: "iterator_increment it w =
        (case b of
           Yield u b' \<Rightarrow> Some (Inr it, put_frame it (yielded_frame u b') w)
         | Return \<Rightarrow> Some (Inr 0, put_frame it (ended_frame None) w)
         | Throw e \<Rightarrow> Some (Inl e, put_frame it (ended_frame (Some e)) w))"
        using iterator_increment_body [of w it "yielded_frame v b"] by simp
      have deref: "iterator_deref it w = Some v"
        using f by (simp add: iterator_deref_def promise_value_def)
      note go = unfold(2) [unfolded deref inc, simplified iterator_ne_def iterator_eq_def gen_end_def not_not]
      show "\<exists>xs. yields b xs (fst (snd res)) \<and> fst res = seen @ v # xs"
      proof (cases b)
        case (Yield u b')
        with go False have "self it (seen @ [v]) (put_frame it (yielded_frame u b') w) = Some res" by simp
        from unfold(1) [OF this, of u b'] False
        obtain xs where "yields b' xs (fst (snd res))" "fst res = seen @ v # u # xs" by auto
        then show ?thesis by (intro exI [of _ "u # xs"]) (simp add: Yield)
      next
        case Return
        with go False have "self 0 (seen @ [v]) (put_frame it (ended_frame None) w) = Some res" by simp
        from unfold(1) [OF this] Return show ?thesis by simp
      next
        case (Throw e)
        with go False show ?thesis by auto
      qed
    qed (use False in simp_all)
  qed
qed

text \<open>
  C16: A range-for loop over a generator ends exactly if the body of the coroutine ends; then it has seen
  the values the body yielded, in order and each once, an exception of the body comes out of the loop
  after the values before it, and the coroutine is left at its final suspend point. No undefined
  behaviour occurs on the way.
\<close>

theorem range_for_sees_yields:
  assumes "gens w g = Some c" and "c \<noteq> 0" and "frames w c = Some (initial_frame b)"
  shows "range_for g w = Some (xs, r, w') \<longleftrightarrow> yields b xs r \<and> w' = put_frame c (ended_frame r) w"
proof -
  have first: "gen_begin g w =
    (case b of
       Yield v b' \<Rightarrow> Some (Inr c, put_frame c (yielded_frame v b') w)
     | Return \<Rightarrow> Some (Inr 0, put_frame c (ended_frame None) w)
     | Throw e \<Rightarrow> Some (Inl e, put_frame c (ended_frame (Some e)) w))"
    using gen_begin_body [OF assms] iterator_increment_body [OF assms(3)]
    by (simp add: initial_frame_def)
  show ?thesis
  proof (cases b)
    case (Yield v b')
    have "iterate c [] (put_frame c (yielded_frame v b') w) = Some (xs, r, w') \<longleftrightarrow>
        (\<exists>ys. yields b' ys r \<and> xs = v # ys) \<and> w' = put_frame c (ended_frame r) w"
      using iterate_only_if [of c "[]" "put_frame c (yielded_frame v b') w" "(xs, r, w')" v b']
        iterate_returns [OF _ assms(2), of b' _ r "[]" v w] assms(2)
      by fastforce
    with Yield first show ?thesis by (auto simp: range_for_def)
  next
    case Return
    with first show ?thesis by (auto simp: range_for_def iterate_end)
  next
    case (Throw e)
    with first show ?thesis by (auto simp: range_for_def)
  qed
qed

text \<open>A body that yields 1 and 2 and throws, and one that never ends.\<close>

primcorec count_from :: "nat \<Rightarrow> (nat, 'e) body" where
  "count_from n = Yield n (count_from (n + 1))"

lemma count_from_never_ends: "\<not> yields (count_from n) xs r"
proof
  assume "yields (count_from n) xs r"
  then show False
  proof (induction "count_from n :: (nat, 'a) body" xs r arbitrary: n rule: yields.induct)
    case (yields_value b xs r v)
    then show ?case by (subst (asm) count_from.code) auto
  qed (subst (asm) count_from.code, simp)+
qed

theorem range_for_sees_yields_witness:
  "(\<exists>w'. range_for 1 \<lparr>frames = [5 \<mapsto> initial_frame (Yield CHR ''a'' (Yield CHR ''b'' (Throw True)))], gens = [1 \<mapsto> 5]\<rparr> =
     Some (''ab'', Some True, w')) \<and>
   range_for 1 \<lparr>frames = [5 \<mapsto> initial_frame (count_from 0 :: (nat, bool) body)], gens = [1 \<mapsto> 5]\<rparr> = None"
proof
  let ?w = "\<lparr>frames = [5 \<mapsto> initial_frame (Yield CHR ''a'' (Yield CHR ''b'' (Throw True)))], gens = [1 \<mapsto> 5]\<rparr>"
  have "range_for 1 ?w = Some (''ab'', Some True, put_frame 5 (ended_frame (Some True)) ?w)"
    using range_for_sees_yields [of ?w 1 5 "Yield CHR ''a'' (Yield CHR ''b'' (Throw True))"] by simp
  then show "\<exists>w'. range_for 1 ?w = Some (''ab'', Some True, w')" by blast
next
  let ?v = "\<lparr>frames = [5 \<mapsto> initial_frame (count_from 0 :: (nat, bool) body)], gens = [1 \<mapsto> 5]\<rparr>"
  have "range_for 1 ?v \<noteq> Some (xs, r, w')" for xs r w'
    using range_for_sees_yields [of ?v 1 5 "count_from 0" xs r w'] count_from_never_ends [of 0 xs r] by simp
  then show "range_for 1 ?v = None" by (cases "range_for 1 ?v") auto
qed

section \<open>Programs that use a generator\<close>

text \<open>
  What a program knows of its iterator: none yet, one that is not the end, the end, an exception came
  out, or the generator object is gone.
\<close>

datatype 'e iter_kind = No_iter | At_value addr | At_end | Raised 'e | Gone

text \<open>
  Steps of a program over a coroutine \<open>c\<close>: it asks for the first iterator once, goes on as long as the
  iterator is not the end, moves and swaps the generator object anywhere, even while it iterates, assigns it
  to another one, and destroys it. The operations are total here: \<^const>\<open>None\<close> is a step to nowhere, so that undefined behaviour shows
  as a program that is stuck although its step is allowed.
\<close>

fun kind_of :: "'e + addr \<Rightarrow> 'e iter_kind" where
  "kind_of (Inl e) = Raised e"
| "kind_of (Inr it) = (if iterator_ne it gen_end then At_value it else At_end)"

inductive client_step ::
    "addr \<Rightarrow> 'e iter_kind \<times> ('a, 'e) coroutines \<Rightarrow> 'e iter_kind \<times> ('a, 'e) coroutines \<Rightarrow> bool" for c where
  client_begin:
    "gens w g = Some c \<Longrightarrow> gen_begin g w = Some (r, w') \<Longrightarrow> client_step c (No_iter, w) (kind_of r, w')"
| client_increment:
    "iterator_increment it w = Some (r, w') \<Longrightarrow> client_step c (At_value it, w) (kind_of r, w')"
| client_move:
    "gen_move g h w = Some w' \<Longrightarrow> k \<noteq> Gone \<Longrightarrow> client_step c (k, w) (k, w')"
| client_swap:
    "gen_swap g h w = Some w' \<Longrightarrow> k \<noteq> Gone \<Longrightarrow> client_step c (k, w) (k, w')"
| client_assign:
    "gens w g = Some d \<Longrightarrow> d \<noteq> c \<Longrightarrow> gen_assign p g h w = Some w' \<Longrightarrow> k \<noteq> Gone \<Longrightarrow>
     client_step c (k, w) (k, w')"
| client_destroy:
    "gens w g = Some c \<Longrightarrow> gen_destroy g w = Some w' \<Longrightarrow> k \<noteq> Gone \<Longrightarrow> client_step c (k, w) (Gone, w')"

inductive client_run ::
    "addr \<Rightarrow> ('a, 'e) body \<Rightarrow> 'e iter_kind \<times> ('a, 'e) coroutines \<Rightarrow> bool" for c b where
  client_start:
    "get_return_object g c b w = Some w' \<Longrightarrow> c \<notin> ran (gens w) \<Longrightarrow> client_run c b (No_iter, w')"
| client_next: "client_run c b s \<Longrightarrow> client_step c s t \<Longrightarrow> client_run c b t"

text \<open>The type of a state: what the frame is like in each of the situations.\<close>

fun frame_typed :: "addr \<Rightarrow> 'e iter_kind \<Rightarrow> ('a, 'e) frame option \<Rightarrow> bool" where
  "frame_typed c No_iter f \<longleftrightarrow> (\<exists>b. f = Some (initial_frame b))"
| "frame_typed c (At_value it) f \<longleftrightarrow> it = c \<and> (\<exists>v b. f = Some (yielded_frame v b))"
| "frame_typed c At_end f \<longleftrightarrow> f = Some (ended_frame None)"
| "frame_typed c (Raised e) f \<longleftrightarrow> f = Some (ended_frame (Some e))"
| "frame_typed c Gone f \<longleftrightarrow> f = None"

definition owned_once :: "addr \<Rightarrow> (addr \<rightharpoonup> addr) \<Rightarrow> bool" where
  "owned_once c gs \<longleftrightarrow> (\<exists>g. gs g = Some c \<and> (\<forall>h. gs h = Some c \<longrightarrow> h = g))"

fun client_typed :: "addr \<Rightarrow> 'e iter_kind \<times> ('a, 'e) coroutines \<Rightarrow> bool" where
  "client_typed c (k, w) \<longleftrightarrow>
     c \<noteq> 0 \<and> frame_typed c k (frames w c) \<and> (k \<noteq> Gone \<longrightarrow> owned_once c (gens w))"

text \<open>Preservation, operation by operation.\<close>

lemma typed_increment:
  assumes "frames w c = Some f" and "\<not> at_end f" and "iterator_increment c w = Some (r, w')" and "c \<noteq> 0"
  shows "frame_typed c (kind_of r) (frames w' c) \<and> gens w' = gens w \<and> kind_of r \<noteq> Gone"
  using assms(3,4) iterator_increment_body [OF assms(1,2)]
  by (auto simp: iterator_ne_def iterator_eq_def gen_end_def split: body.splits) blast

lemma gen_move_fields:
  assumes "gen_move g h w = Some w'"
  shows "frames w' = frames w" and "c \<noteq> 0 \<Longrightarrow> owned_once c (gens w) \<Longrightarrow> owned_once c (gens w')"
proof -
  from assms show "frames w' = frames w" by (auto simp: gen_move_def split: option.splits if_splits)
  assume "c \<noteq> 0" "owned_once c (gens w)"
  then obtain k where k: "gens w k = Some c" "\<And>i. gens w i = Some c \<Longrightarrow> i = k"
    by (auto simp: owned_once_def)
  from assms obtain d where d: "gens w h = Some d" "gens w g = None"
    and w': "gens w' = (gens w)(g \<mapsto> d, h \<mapsto> 0)"
    by (auto simp: gen_move_def split: option.splits if_splits)
  have "\<exists>m. gens w' m = Some c \<and> (\<forall>i. gens w' i = Some c \<longrightarrow> i = m)"
  proof (cases "h = k")
    case True
    then have "gens w' g = Some c" using k(1) d by (auto simp: w')
    moreover have "i = g" if "gens w' i = Some c" for i
      using that k(2) [of i] True \<open>c \<noteq> 0\<close> unfolding w' by (simp split: if_splits)
    ultimately show ?thesis by blast
  next
    case False
    then have "d \<noteq> c" using k(2) d(1) by blast
    moreover have "g \<noteq> k" using k(1) d(2) by auto
    ultimately have "gens w' k = Some c" using k(1) False by (simp add: w')
    moreover have "i = k" if "gens w' i = Some c" for i
      using that k(2) [of i] \<open>d \<noteq> c\<close> \<open>c \<noteq> 0\<close> unfolding w' by (simp split: if_splits)
    ultimately show ?thesis by blast
  qed
  then show "owned_once c (gens w')" unfolding owned_once_def by blast
qed

lemma gen_swap_fields:
  assumes "gen_swap g h w = Some w'"
  shows "frames w' = frames w" and "owned_once c (gens w) \<Longrightarrow> owned_once c (gens w')"
proof -
  from assms obtain a b where ab: "gens w g = Some a" "gens w h = Some b"
    and w': "w' = w\<lparr>gens := (gens w)(g \<mapsto> b, h \<mapsto> a)\<rparr>"
    by (auto simp: gen_swap_def split: option.splits)
  then show "frames w' = frames w" by simp
  define \<pi> where "\<pi> i = (if i = g then h else if i = h then g else i)" for i
  have swap: "gens w' i = gens w (\<pi> i)" for i using ab by (auto simp: w' \<pi>_def)
  have twice: "\<pi> (\<pi> i) = i" for i by (simp add: \<pi>_def)
  assume "owned_once c (gens w)"
  then obtain k where k: "gens w k = Some c" "\<And>i. gens w i = Some c \<Longrightarrow> i = k"
    by (auto simp: owned_once_def)
  have "gens w' (\<pi> k) = Some c" using k(1) by (simp add: swap twice)
  moreover have "i = \<pi> k" if "gens w' i = Some c" for i
    using k(2) [of "\<pi> i"] that twice [of i] by (simp add: swap)
  ultimately show "owned_once c (gens w')" unfolding owned_once_def by blast
qed

lemma gen_destroy_fields:
  assumes "gen_destroy g w = Some w'" and "gens w g = Some d" and "d \<noteq> c"
  shows "frames w' c = frames w c" and "owned_once c (gens w) \<Longrightarrow> owned_once c (gens w')"
proof -
  from assms show "frames w' c = frames w c"
    by (auto simp: gen_destroy_def co_destroy_def split: option.splits if_splits)
  have g: "gens w' = (gens w)(g := None)"
    using assms by (auto simp: gen_destroy_def co_destroy_def split: option.splits if_splits)
  assume "owned_once c (gens w)"
  then obtain k where k: "gens w k = Some c" "\<And>i. gens w i = Some c \<Longrightarrow> i = k"
    by (auto simp: owned_once_def)
  have "gens w' k = Some c" using k(1) assms(2,3) by (auto simp: g)
  moreover have "i = k" if "gens w' i = Some c" for i
    using k(2) [of i] that by (simp add: g split: if_splits)
  ultimately show "owned_once c (gens w')" unfolding owned_once_def by blast
qed

lemma gen_assign_fields:
  assumes "gen_assign p g h w = Some w'" and "gens w g = Some d" and "d \<noteq> c" and "c \<noteq> 0"
  shows "frames w' c = frames w c" and "owned_once c (gens w) \<Longrightarrow> owned_once c (gens w')"
proof -
  from assms(1) obtain u v where u: "gen_move p h w = Some u" and v: "gen_swap g p u = Some v"
    and w': "gen_destroy p v = Some w'"
    by (auto simp: gen_assign_def split: option.splits)
  have "gens u g \<noteq> Some c"
    using u assms(2-4) by (auto simp: gen_move_def split: option.splits if_splits)
  then obtain a where a: "gens v p = Some a" "a \<noteq> c"
    using v by (auto simp: gen_swap_def split: option.splits if_splits)
  note destroyed = gen_destroy_fields [OF w' a]
  show "frames w' c = frames w c"
    using destroyed(1) gen_swap_fields(1) [OF v] gen_move_fields(1) [OF u] by simp
  show "owned_once c (gens w) \<Longrightarrow> owned_once c (gens w')"
    using destroyed(2) gen_swap_fields(2) [OF v] gen_move_fields(2) [OF u assms(4)] by blast
qed

lemma client_preservation: "client_step c s t \<Longrightarrow> client_typed c s \<Longrightarrow> client_typed c t"
proof (induction rule: client_step.induct)
  case (client_begin w g r w')
  then obtain b where f: "frames w c = Some (initial_frame b)" "c \<noteq> 0" by auto
  then have "iterator_increment c w = Some (r, w')"
    using gen_begin_body [OF client_begin(1) f(2,1)] client_begin(2) by (simp add: initial_frame_def)
  with typed_increment [OF f(1)] f(2) client_begin(3) show ?case by (simp add: initial_frame_def)
next
  case (client_increment it w r w')
  then obtain v b where "it = c" "frames w c = Some (yielded_frame v b)" "c \<noteq> 0" by auto
  with typed_increment [of w c "yielded_frame v b" r w'] client_increment show ?case by simp
next
  case (client_move g h w w' k)
  with gen_move_fields [OF client_move(1)] show ?case by simp
next
  case (client_swap g h w w' k)
  with gen_swap_fields [OF client_swap(1)] show ?case by simp
next
  case (client_assign w g d p h w' k)
  then have "c \<noteq> 0" by simp
  with gen_assign_fields [OF client_assign(3,1,2)] client_assign show ?case by simp
next
  case (client_destroy w g w' k)
  then show ?case
    by (auto simp: gen_destroy_def co_destroy_def split: option.splits if_splits)
qed

lemma client_run_typed: "client_run c b s \<Longrightarrow> client_typed c s"
proof (induction rule: client_run.induct)
  case (client_start g w w')
  then show ?case
    by (auto simp: get_return_object_def owned_once_def ran_def split: if_splits)
next
  case (client_next s t)
  then show ?case using client_preservation by blast
qed

text \<open>
  C17: A program that asks a generator for its first iterator once, and dereferences and increments
  iterators only while they are not the end, never meets undefined behaviour: asking gives an
  iterator or an exception, every iterator that is not the end has a value and can be incremented, and
  as long as it was not destroyed one generator object holds the coroutine and can be destroyed,
  wherever it was moved, swapped or assigned in the meantime.
\<close>

theorem generator_program_safe:
  assumes "client_run c b (k, w)"
  shows "(k = No_iter \<longrightarrow> (\<exists>g. gens w g = Some c \<and> gen_begin g w \<noteq> None)) \<and>
         (\<forall>it. k = At_value it \<longrightarrow> iterator_deref it w \<noteq> None \<and> iterator_increment it w \<noteq> None) \<and>
         (k \<noteq> Gone \<longrightarrow> (\<exists>!g. gens w g = Some c) \<and> (\<forall>g. gens w g = Some c \<longrightarrow> gen_destroy g w \<noteq> None))"
proof -
  from client_run_typed [OF assms]
  have t: "c \<noteq> 0" "frame_typed c k (frames w c)" "k \<noteq> Gone \<Longrightarrow> owned_once c (gens w)" by simp_all
  have frame: "k \<noteq> Gone \<Longrightarrow> frames w c \<noteq> None" using t(2) by (cases k) auto
  have incr: "iterator_increment c w \<noteq> None" if "frames w c = Some f" "\<not> at_end f" for f
    using iterator_increment_body [OF that] by (simp split: body.split)
  have "\<exists>g. gens w g = Some c \<and> gen_begin g w \<noteq> None" if "k = No_iter"
  proof -
    from that t obtain g bb where g: "gens w g = Some c" "frames w c = Some (initial_frame bb)"
      by (auto simp: owned_once_def)
    then have "gen_begin g w = iterator_increment c w"
      using gen_begin_body [OF g(1) t(1) g(2)] by (simp add: initial_frame_def)
    with g incr [OF g(2)] show ?thesis by (auto simp: initial_frame_def)
  qed
  moreover have "iterator_deref it w \<noteq> None \<and> iterator_increment it w \<noteq> None" if "k = At_value it" for it
    using that t(2) incr by (auto simp: iterator_deref_def promise_value_def)
  moreover have "(\<exists>!g. gens w g = Some c) \<and> (\<forall>g. gens w g = Some c \<longrightarrow> gen_destroy g w \<noteq> None)"
    if "k \<noteq> Gone"
    using t(3) [OF that] frame [OF that]
    by (auto simp: owned_once_def gen_destroy_def co_destroy_def split: option.split)
  ultimately show ?thesis by blast
qed

theorem generator_program_safe_witness:
  "\<exists>w :: (char, bool) coroutines. client_run 5 (Yield CHR ''x'' Return) (At_value 5, w) \<and> iterator_deref 5 w \<noteq> None"
proof -
  let ?w = "\<lparr>frames = Map.empty, gens = Map.empty\<rparr> :: (char, bool) coroutines"
  let ?w1 = "\<lparr>frames = [5 \<mapsto> initial_frame (Yield CHR ''x'' Return)], gens = [1 \<mapsto> 5]\<rparr> :: (char, bool) coroutines"
  let ?w2 = "put_frame 5 (yielded_frame CHR ''x'' Return) ?w1"
  have "get_return_object 1 5 (Yield CHR ''x'' Return) ?w = Some ?w1" by (simp add: get_return_object_def)
  then have "client_run 5 (Yield CHR ''x'' Return) (No_iter, ?w1)" by (rule client_start) simp
  moreover have "client_step 5 (No_iter, ?w1) (kind_of (Inr 5), ?w2)"
    by (rule client_begin [of _ 1])
      (simp_all add: gen_begin_def co_resume_def frame_resume_def initial_frame_def promise_yield_value_def
        co_done_def put_frame_def yielded_frame_def)
  ultimately have "client_run 5 (Yield CHR ''x'' Return) (kind_of (Inr 5), ?w2)" by (rule client_next)
  then have r: "client_run 5 (Yield CHR ''x'' Return) (At_value 5, ?w2)"
    by (simp add: iterator_ne_def iterator_eq_def gen_end_def)
  with generator_program_safe [OF r] show ?thesis by blast
qed

text \<open>
  Asking again is not harmless: \<open>begin\<close> resumes the coroutine, so a second call loses the value the
  first one found, and a call after the end resumes a coroutine at its final suspend point.
\<close>

lemma begin_again_skips:
  assumes "gens w g = Some c" and "c \<noteq> 0" and "frames w c = Some (yielded_frame v (Yield u b))"
  shows "\<exists>w'. gen_begin g w = Some (Inr c, w') \<and> iterator_deref c w' = Some u"
  using gen_begin_body [OF assms] iterator_increment_body [OF assms(3)]
  by (simp add: iterator_deref_yielded)

lemma begin_after_end:
  assumes "gens w g = Some c" and "c \<noteq> 0" and "frames w c = Some (ended_frame r)"
  shows "gen_begin g w = None"
  using assms by (simp add: gen_begin_def co_resume_def frame_resume_def ended_frame_def)

text \<open>Assignment destroys the coroutine the target held, and the source holds none afterwards.\<close>

lemma gen_assign_destroys_old:
  assumes "gens w p = None" and "gens w g = Some c" and "gens w other = Some d" and "g \<noteq> other"
    and "frames w c = Some f" and "c \<noteq> 0"
  shows "\<exists>w'. gen_assign p g other w = Some w' \<and> gens w' = (gens w)(g \<mapsto> d, other \<mapsto> 0) \<and>
     frames w' = (frames w)(c := None)"
proof -
  have "p \<noteq> g" "p \<noteq> other" using assms(1-3) by auto
  with assms show ?thesis
    by (auto simp: gen_assign_def gen_move_def gen_swap_def gen_destroy_def co_destroy_def fun_eq_iff)
qed

lemma gen_assign_self:
  assumes "gens w p = None" and "gens w g = Some c"
  shows "gen_assign p g g w = Some w"
proof -
  have "p \<noteq> g" using assms by auto
  with assms have "(gens w)(p \<mapsto> 0, g \<mapsto> c, p := None) = gens w" by (auto simp: fun_eq_iff)
  with assms \<open>p \<noteq> g\<close> show ?thesis
    by (cases w) (auto simp: gen_assign_def gen_move_def gen_swap_def gen_destroy_def fun_eq_iff)
qed

end
