(* ===== verification/Context.thy ===== *)
theory Context
  imports Prelude
begin

text \<open>
  \<open>ice/context.hpp\<close>: the scheduler with threads that sleep on a condition variable while there is
  nothing to resume. The stack of the scheduler appears as the queue it implements (oldest first, see
  the scheduler theories), the mutex and the condition variable as the standard describes them:
  \<open>wait\<close> gives up the mutex and falls asleep in one step, a notification reaches only threads that are
  asleep, and a thread may wake up for no reason.
\<close>

section \<open>States\<close>

text \<open>
  A thread in \<open>run\<close>: before \<open>run\<close> and at its first lock; before the lock at the head of the loop; with
  the mutex before the first \<open>acquire\<close>, before the test of \<open>stop_\<close>, in the predicate of \<open>wait\<close> before
  \<open>acquire\<close> and before the load of \<open>stop_\<close>, and about to fall asleep; asleep; woken and without the
  mutex; about to unlock and resume a list, or to unlock and return; resuming; returned.
\<close>

datatype run_pc =
    R_out
  | R_enter
  | R_lock
  | R_acquire
  | R_test
  | R_pred
  | R_pred_stop
  | R_wait
  | R_asleep
  | R_woken
  | R_unlock "addr list"
  | R_leave
  | R_run "addr list"
  | R_returned

text \<open>A call of \<open>post\<close> or \<open>stop\<close> has made its change and is about to notify.\<close>

datatype caller_pc = Caller_idle | Notify_one | Notify_all

text \<open>
  Ghost fields: all posts, all resumptions, and whether a notification came while a thread had
  evaluated the predicate to false and was not asleep yet.
\<close>

record ctx =
  c_queue :: "addr list"
  c_stop :: bool
  c_mutex :: "nat option"
  c_worker :: "nat \<Rightarrow> run_pc"
  c_caller :: "nat \<Rightarrow> caller_pc"
  c_posted :: "addr list"
  c_resumed :: "addr list"
  c_missed :: bool

definition new_ctx :: ctx where
  "new_ctx =
     \<lparr>c_queue = [], c_stop = False, c_mutex = None, c_worker = (\<lambda>_. R_out),
      c_caller = (\<lambda>_. Caller_idle), c_posted = [], c_resumed = [], c_missed = False\<rparr>"

section \<open>Steps\<close>

definition unready :: "ctx \<Rightarrow> bool" where
  "unready s \<longleftrightarrow> (\<exists>w. c_worker s w \<in> {R_pred_stop, R_wait})"

text \<open>Steps of threads inside the operations of the context.\<close>

inductive ctx_step :: "ctx \<Rightarrow> ctx \<Rightarrow> bool" where
  enter:
    "c_worker s w = R_enter \<Longrightarrow> c_mutex s = None \<Longrightarrow>
     ctx_step s (s\<lparr>c_worker := (c_worker s)(w := R_lock)\<rparr>)"
| lock:
    "c_worker s w = R_lock \<Longrightarrow> c_mutex s = None \<Longrightarrow>
     ctx_step s (s\<lparr>c_mutex := Some w, c_worker := (c_worker s)(w := R_acquire)\<rparr>)"
| acquire:
    "c_worker s w = R_acquire \<Longrightarrow>
     ctx_step s (s\<lparr>c_queue := [],
                   c_worker := (c_worker s)(w := (if c_queue s = [] then R_test
                                                  else R_unlock (c_queue s)))\<rparr>)"
| test:
    "c_worker s w = R_test \<Longrightarrow>
     ctx_step s (s\<lparr>c_worker := (c_worker s)(w := (if c_stop s then R_leave else R_pred))\<rparr>)"
| pred:
    "c_worker s w = R_pred \<Longrightarrow>
     ctx_step s (s\<lparr>c_queue := [],
                   c_worker := (c_worker s)(w := (if c_queue s = [] then R_pred_stop
                                                  else R_unlock (c_queue s)))\<rparr>)"
| pred_stop:
    "c_worker s w = R_pred_stop \<Longrightarrow>
     ctx_step s (s\<lparr>c_worker := (c_worker s)(w := (if c_stop s then R_test else R_wait))\<rparr>)"
| fall_asleep:
    "c_worker s w = R_wait \<Longrightarrow>
     ctx_step s (s\<lparr>c_mutex := None, c_worker := (c_worker s)(w := R_asleep)\<rparr>)"
| relock:
    "c_worker s w = R_woken \<Longrightarrow> c_mutex s = None \<Longrightarrow>
     ctx_step s (s\<lparr>c_mutex := Some w, c_worker := (c_worker s)(w := R_pred)\<rparr>)"
| unlock:
    "c_worker s w = R_unlock xs \<Longrightarrow>
     ctx_step s (s\<lparr>c_mutex := None, c_worker := (c_worker s)(w := R_run xs)\<rparr>)"
| leave:
    "c_worker s w = R_leave \<Longrightarrow>
     ctx_step s (s\<lparr>c_mutex := None, c_worker := (c_worker s)(w := R_returned)\<rparr>)"
| resume:
    "c_worker s w = R_run (x # xs) \<Longrightarrow>
     ctx_step s (s\<lparr>c_worker := (c_worker s)(w := R_run xs), c_resumed := c_resumed s @ [x]\<rparr>)"
| run_again:
    "c_worker s w = R_run [] \<Longrightarrow>
     ctx_step s (s\<lparr>c_worker := (c_worker s)(w := R_lock)\<rparr>)"
| notify_one:
    "c_caller s c = Notify_one \<Longrightarrow> c_worker s w = R_asleep \<Longrightarrow>
     ctx_step s (s\<lparr>c_caller := (c_caller s)(c := Caller_idle),
                   c_worker := (c_worker s)(w := R_woken), c_missed := c_missed s \<or> unready s\<rparr>)"
| notify_nobody:
    "c_caller s c = Notify_one \<Longrightarrow> \<forall>w. c_worker s w \<noteq> R_asleep \<Longrightarrow>
     ctx_step s (s\<lparr>c_caller := (c_caller s)(c := Caller_idle), c_missed := c_missed s \<or> unready s\<rparr>)"
| notify_all:
    "c_caller s c = Notify_all \<Longrightarrow>
     ctx_step s (s\<lparr>c_caller := (c_caller s)(c := Caller_idle),
                   c_worker := (\<lambda>w. if c_worker s w = R_asleep then R_woken else c_worker s w),
                   c_missed := c_missed s \<or> unready s\<rparr>)"

text \<open>Calls from outside, and wake-ups for no reason.\<close>

inductive ctx_outside :: "ctx \<Rightarrow> ctx \<Rightarrow> bool" where
  run:
    "c_worker s w = R_out \<Longrightarrow> ctx_outside s (s\<lparr>c_worker := (c_worker s)(w := R_enter)\<rparr>)"
| post:
    "c_caller s c = Caller_idle \<Longrightarrow> x \<noteq> 0 \<Longrightarrow>
     ctx_outside s (s\<lparr>c_queue := c_queue s @ [x], c_posted := c_posted s @ [x],
                      c_caller := (c_caller s)(c := Notify_one)\<rparr>)"
| stop:
    "c_caller s c = Caller_idle \<Longrightarrow>
     ctx_outside s (s\<lparr>c_stop := b, c_caller := (c_caller s)(c := Notify_all)\<rparr>)"
| spurious:
    "c_worker s w = R_asleep \<Longrightarrow> ctx_outside s (s\<lparr>c_worker := (c_worker s)(w := R_woken)\<rparr>)"

inductive ctx_reach :: "ctx \<Rightarrow> bool" where
  start: "ctx_reach new_ctx"
| inside: "ctx_reach s \<Longrightarrow> ctx_step s t \<Longrightarrow> ctx_reach t"
| outside: "ctx_reach s \<Longrightarrow> ctx_outside s t \<Longrightarrow> ctx_reach t"

section \<open>Invariants\<close>

fun holds :: "run_pc \<Rightarrow> bool" where
  "holds R_acquire = True"
| "holds R_test = True"
| "holds R_pred = True"
| "holds R_pred_stop = True"
| "holds R_wait = True"
| "holds (R_unlock xs) = True"
| "holds R_leave = True"
| "holds _ = False"

fun in_hand :: "run_pc \<Rightarrow> addr list" where
  "in_hand (R_unlock xs) = xs"
| "in_hand (R_run xs) = xs"
| "in_hand _ = []"

definition mutex_ok :: "ctx \<Rightarrow> bool" where
  "mutex_ok s \<longleftrightarrow> (\<forall>w. holds (c_worker s w) \<longleftrightarrow> c_mutex s = Some w)"

lemma mutex_holds: "mutex_ok s \<Longrightarrow> holds (c_worker s w) \<longleftrightarrow> c_mutex s = Some w"
  by (simp add: mutex_ok_def)

lemma mutex_ok_move:
  assumes "mutex_ok s" and "c_worker t = (c_worker s)(w := p)"
    and "c_mutex t = (if holds p then Some w else if holds (c_worker s w) then None else c_mutex s)"
    and "holds p \<Longrightarrow> holds (c_worker s w) \<or> c_mutex s = None"
  shows "mutex_ok t"
proof -
  have "holds (c_worker s v) \<longleftrightarrow> c_mutex s = Some v" for v
    using assms(1) by (simp add: mutex_ok_def)
  with assms(2-4) have "holds (c_worker t v) \<longleftrightarrow> c_mutex t = Some v" for v
    by (cases "v = w"; cases "holds p"; simp) auto
  then show ?thesis by (simp add: mutex_ok_def)
qed

lemma mutex_ok_step: "ctx_step s t \<Longrightarrow> mutex_ok s \<Longrightarrow> mutex_ok t"
proof (induction rule: ctx_step.induct)
  case (notify_all s c)
  then show ?case by (simp add: mutex_ok_def) (metis holds.simps(10,11))
next
  case (notify_nobody s c)
  then show ?case by (simp add: mutex_ok_def)
next
  case (enter s w)
  show ?case
    by (rule mutex_ok_move [OF enter(3), of _ w], simp) (use enter mutex_holds [OF enter(3), of w] in simp_all)
next
  case (lock s w)
  show ?case by (rule mutex_ok_move [OF lock(3), of _ w], simp) (use lock in simp_all)
next
  case (acquire s w)
  show ?case
    by (rule mutex_ok_move [OF acquire(2), of _ w], simp) (use acquire mutex_holds [OF acquire(2), of w] in simp_all)
next
  case (test s w)
  show ?case by (rule mutex_ok_move [OF test(2), of _ w], simp) (use test mutex_holds [OF test(2), of w] in simp_all)
next
  case (pred s w)
  show ?case by (rule mutex_ok_move [OF pred(2), of _ w], simp) (use pred mutex_holds [OF pred(2), of w] in simp_all)
next
  case (pred_stop s w)
  show ?case
    by (rule mutex_ok_move [OF pred_stop(2), of _ w], simp) (use pred_stop mutex_holds [OF pred_stop(2), of w] in simp_all)
next
  case (fall_asleep s w)
  show ?case by (rule mutex_ok_move [OF fall_asleep(2), of _ w], simp) (use fall_asleep in simp_all)
next
  case (relock s w)
  show ?case by (rule mutex_ok_move [OF relock(3), of _ w], simp) (use relock in simp_all)
next
  case (unlock s w xs)
  show ?case by (rule mutex_ok_move [OF unlock(2), of _ w], simp) (use unlock in simp_all)
next
  case (leave s w)
  show ?case by (rule mutex_ok_move [OF leave(2), of _ w], simp) (use leave in simp_all)
next
  case (resume s w x xs)
  show ?case by (rule mutex_ok_move [OF resume(2), of _ w], simp) (use resume in simp_all)
next
  case (run_again s w)
  show ?case by (rule mutex_ok_move [OF run_again(2), of _ w], simp) (use run_again in simp_all)
next
  case (notify_one s c w)
  show ?case by (rule mutex_ok_move [OF notify_one(3), of _ w], simp) (use notify_one in simp_all)
qed

lemma mutex_ok_outside: "ctx_outside s t \<Longrightarrow> mutex_ok s \<Longrightarrow> mutex_ok t"
proof (induction rule: ctx_outside.induct)
  case (run s w)
  show ?case by (rule mutex_ok_move [OF run(2), of _ w], simp) (use run mutex_holds [OF run(2), of w] in simp_all)
next
  case (spurious s w)
  show ?case by (rule mutex_ok_move [OF spurious(2), of _ w], simp) (use spurious in simp_all)
qed (simp_all add: mutex_ok_def)

text \<open>
  No thread is left asleep without a wake-up on the way, however many run the context. A thread that was
  woken looks at the queue before it can sleep again; one that dozes has found it empty.
\<close>

definition dozing :: "run_pc \<Rightarrow> bool" where
  "dozing p \<longleftrightarrow> p \<in> {R_pred_stop, R_wait, R_asleep}"

definition looking :: "run_pc \<Rightarrow> bool" where
  "looking p \<longleftrightarrow> p \<in> {R_woken, R_pred}"

definition queue_watched :: "ctx \<Rightarrow> bool" where
  "queue_watched s \<longleftrightarrow>
     (c_queue s \<noteq> [] \<and> (\<exists>w. dozing (c_worker s w)) \<longrightarrow>
        (\<exists>c. c_caller s c = Notify_one) \<or> (\<exists>w. looking (c_worker s w)))"

definition stop_watched :: "ctx \<Rightarrow> bool" where
  "stop_watched s \<longleftrightarrow>
     (c_stop s \<and> (\<exists>w. c_worker s w \<in> {R_wait, R_asleep}) \<longrightarrow> (\<exists>c. c_caller s c = Notify_all))"

definition watched :: "ctx \<Rightarrow> bool" where
  "watched s \<longleftrightarrow> \<not> c_missed s \<longrightarrow> queue_watched s \<and> stop_watched s"

lemma calling_upd:
  "f c = Caller_idle \<Longrightarrow> n \<noteq> Caller_idle \<Longrightarrow>
   (\<exists>d. (f(c := p)) d = n) \<longleftrightarrow> p = n \<or> (\<exists>d. f d = n)"
  by (metis fun_upd_apply)

text \<open>A thread moves, and neither calls nor the flag change.\<close>

lemma watched_move:
  assumes "watched s" and "c_worker s w = q" and "c_worker t = (c_worker s)(w := p)"
    and "c_caller t = c_caller s" "c_stop t = c_stop s" "c_missed t = c_missed s"
    and "c_queue t = [] \<or> c_queue t = c_queue s \<and> (dozing p \<longrightarrow> dozing q) \<and> (looking q \<longrightarrow> looking p)"
    and "p \<in> {R_wait, R_asleep} \<Longrightarrow> c_stop s \<Longrightarrow> q \<in> {R_wait, R_asleep}"
  shows "watched t"
proof -
  have "queue_watched t" if "queue_watched s"
  proof (cases "c_queue t = []")
    case False
    then have keep: "c_queue t = c_queue s" "dozing p \<Longrightarrow> dozing q" "looking q \<Longrightarrow> looking p" using assms(7) by auto
    have "\<exists>v. dozing (c_worker s v)" if "dozing (c_worker t v)" for v
      using that keep(2) assms(2,3) by (cases "v = w") auto
    moreover have "\<exists>v. looking (c_worker t v)" if "looking (c_worker s v)" for v
      using that keep(3) assms(2,3) by (cases "v = w") auto
    ultimately show ?thesis using that keep(1) assms(4) unfolding queue_watched_def by metis
  qed (simp add: queue_watched_def)
  moreover have "stop_watched t" if "stop_watched s"
  proof -
    have "\<exists>u. c_worker s u \<in> {R_wait, R_asleep}" if "c_stop s" "c_worker t v \<in> {R_wait, R_asleep}" for v
      using that assms(2,3,8) by (cases "v = w") auto
    with that show ?thesis using assms(4,5) unfolding stop_watched_def by metis
  qed
  ultimately show ?thesis using assms(1,6) by (simp add: watched_def)
qed

text \<open>A notification, which wakes somebody or finds that nobody sleeps, or is missed.\<close>

lemma not_unready: "\<not> unready s \<Longrightarrow> dozing (c_worker s w) \<longleftrightarrow> c_worker s w = R_asleep"
  by (auto simp: unready_def dozing_def)

lemma stop_watched_call:
  assumes "stop_watched s" and "c_caller s c = Notify_one" and "c_caller t = (c_caller s)(c := Caller_idle)"
    and "c_stop t = c_stop s" and "\<And>v. c_worker t v \<in> {R_wait, R_asleep} \<Longrightarrow> c_worker t v = c_worker s v"
  shows "stop_watched t"
proof -
  have "(\<exists>d. c_caller t d = Notify_all) \<longleftrightarrow> (\<exists>d. c_caller s d = Notify_all)"
    using assms(2,3) by (metis caller_pc.distinct(3,5) caller_pc.distinct(1) fun_upd_apply)
  with assms(1,4,5) show ?thesis unfolding stop_watched_def by metis
qed

lemma watched_step: "ctx_step s t \<Longrightarrow> watched s \<Longrightarrow> watched t"
proof (induction rule: ctx_step.induct)
  case (notify_one s c w)
  let ?t = "s\<lparr>c_caller := (c_caller s)(c := Caller_idle), c_worker := (c_worker s)(w := R_woken),
      c_missed := c_missed s \<or> unready s\<rparr>"
  have "looking (c_worker ?t w)" by (simp add: looking_def)
  then have "queue_watched ?t" unfolding queue_watched_def by blast
  moreover have "stop_watched ?t" if "stop_watched s"
    by (rule stop_watched_call [OF that notify_one(1)]) (auto split: if_splits)
  moreover have "c_missed ?t \<longleftrightarrow> c_missed s \<or> unready s" by simp
  ultimately show ?case using notify_one(3) unfolding watched_def by blast
next
  case (notify_nobody s c)
  let ?t = "s\<lparr>c_caller := (c_caller s)(c := Caller_idle), c_missed := c_missed s \<or> unready s\<rparr>"
  have "queue_watched ?t" if "\<not> unready s"
    using notify_nobody(2) not_unready [OF that] by (simp add: queue_watched_def)
  moreover have "stop_watched ?t" if "stop_watched s"
    by (rule stop_watched_call [OF that notify_nobody(1)]) simp_all
  moreover have "c_missed ?t \<longleftrightarrow> c_missed s \<or> unready s" by simp
  ultimately show ?case using notify_nobody(3) unfolding watched_def by blast
next
  case (notify_all s c)
  let ?t = "s\<lparr>c_caller := (c_caller s)(c := Caller_idle),
      c_worker := (\<lambda>w. if c_worker s w = R_asleep then R_woken else c_worker s w), c_missed := c_missed s \<or> unready s\<rparr>"
  have none: "\<not> dozing (c_worker ?t w)" if "\<not> unready s" for w
    using that not_unready [OF that, of w] by (auto simp: dozing_def)
  have "c_worker ?t w \<notin> {R_wait, R_asleep}" if "\<not> unready s" for w
    using none [OF that, of w] by (auto simp: dozing_def)
  with none show ?case unfolding watched_def queue_watched_def stop_watched_def by auto
next
  case (enter s w)
  show ?case by (rule watched_move [OF enter(3,1)], simp) (simp_all add: dozing_def looking_def)
next
  case (lock s w)
  show ?case by (rule watched_move [OF lock(3,1)], simp) (simp_all add: dozing_def looking_def)
next
  case (acquire s w)
  show ?case by (rule watched_move [OF acquire(2,1)], simp) (simp_all split: if_splits)
next
  case (test s w)
  show ?case by (rule watched_move [OF test(2,1)], simp) (simp_all add: dozing_def looking_def split: if_splits)
next
  case (pred s w)
  show ?case by (rule watched_move [OF pred(2,1)], simp) (simp_all split: if_splits)
next
  case (pred_stop s w)
  show ?case by (rule watched_move [OF pred_stop(2,1)], simp) (simp_all add: dozing_def looking_def split: if_splits)
next
  case (fall_asleep s w)
  show ?case by (rule watched_move [OF fall_asleep(2,1)], simp) (simp_all add: dozing_def looking_def)
next
  case (relock s w)
  show ?case by (rule watched_move [OF relock(3,1)], simp) (simp_all add: dozing_def looking_def)
next
  case (unlock s w xs)
  show ?case by (rule watched_move [OF unlock(2,1)], simp) (simp_all add: dozing_def looking_def)
next
  case (leave s w)
  show ?case by (rule watched_move [OF leave(2,1)], simp) (simp_all add: dozing_def looking_def)
next
  case (resume s w x xs)
  show ?case by (rule watched_move [OF resume(2,1)], simp) (simp_all add: dozing_def looking_def)
next
  case (run_again s w)
  show ?case by (rule watched_move [OF run_again(2,1)], simp) (simp_all add: dozing_def looking_def)
qed

lemma watched_outside: "ctx_outside s t \<Longrightarrow> watched s \<Longrightarrow> watched t"
proof (induction rule: ctx_outside.induct)
  case (run s w)
  show ?case by (rule watched_move [OF run(2,1)], simp) (simp_all add: dozing_def looking_def)
next
  case (spurious s w)
  show ?case by (rule watched_move [OF spurious(2,1)], simp) (simp_all add: dozing_def looking_def)
next
  case (post s c x)
  then show ?case
    by (auto simp: watched_def queue_watched_def stop_watched_def calling_upd simp del: fun_upd_apply)
next
  case (stop s c b)
  then show ?case
    by (auto simp: watched_def queue_watched_def stop_watched_def calling_upd simp del: fun_upd_apply)
qed

text \<open>What a single running thread has resumed, has in hand, and still finds in the queue.\<close>

definition alone :: "ctx \<Rightarrow> bool" where
  "alone s \<longleftrightarrow> (\<forall>w. w \<noteq> 0 \<longrightarrow> c_worker s w = R_out)"

definition single_ok :: "ctx \<Rightarrow> bool" where
  "single_ok s \<longleftrightarrow> c_posted s = c_resumed s @ in_hand (c_worker s 0) @ c_queue s"

lemma single_ok_step: "ctx_step s t \<Longrightarrow> alone s \<Longrightarrow> single_ok s \<Longrightarrow> single_ok t"
  by (induction rule: ctx_step.induct) (auto simp: single_ok_def alone_def split: if_splits)

lemma never_out: "ctx_step s t \<Longrightarrow> c_worker s v \<noteq> R_out \<Longrightarrow> c_worker t v \<noteq> R_out"
  by (induction rule: ctx_step.induct) auto

lemma single_ok_outside: "ctx_outside s t \<Longrightarrow> (alone s \<longrightarrow> single_ok s) \<Longrightarrow> alone t \<longrightarrow> single_ok t"
  by (induction rule: ctx_outside.induct) (auto simp: single_ok_def alone_def split: if_splits)

lemma ctx_reach_inv: "ctx_reach s \<Longrightarrow> mutex_ok s \<and> watched s \<and> (alone s \<longrightarrow> single_ok s)"
proof (induction rule: ctx_reach.induct)
  case start
  show ?case
    by (simp add: new_ctx_def mutex_ok_def single_ok_def watched_def queue_watched_def stop_watched_def dozing_def)
next
  case (inside s t)
  have "alone t \<Longrightarrow> alone s" using never_out [OF inside(2)] unfolding alone_def by blast
  with inside mutex_ok_step watched_step single_ok_step show ?case by blast
next
  case (outside s t)
  with mutex_ok_outside watched_outside single_ok_outside show ?case by blast
qed

section \<open>Properties\<close>

text \<open>
  C18: With one thread in \<open>run\<close>, posted coroutines are resumed in the order of the posts, none twice
  and none dropped: what was posted is what was resumed, then what the thread has in hand, then what
  is still queued. At any time at most one thread touches the condition variable's mutex.
\<close>

theorem context_resumes_in_order:
  assumes "ctx_reach s"
  shows "(\<forall>v w. holds (c_worker s v) \<and> holds (c_worker s w) \<longrightarrow> v = w) \<and>
         (alone s \<longrightarrow> c_posted s = c_resumed s @ in_hand (c_worker s 0) @ c_queue s)"
  using ctx_reach_inv [OF assms] by (auto simp: single_ok_def mutex_holds)

text \<open>One thread runs the context, a coroutine is posted and resumed.\<close>

lemma context_run:
  "\<exists>s. ctx_reach s \<and> alone s \<and> c_posted s = [7] \<and> c_resumed s = [7] \<and> c_worker s 0 = R_asleep \<and>
       \<not> c_missed s \<and> c_stop s \<and> c_caller s 1 = Notify_all"
proof -
  note i = ctx_reach.inside and o = ctx_reach.outside
  note s1 = o [OF ctx_reach.start ctx_outside.run [of _ 0], simplified new_ctx_def, simplified]
  note s2 = i [OF s1 ctx_step.enter [of _ 0], simplified]
  note s3 = i [OF s2 ctx_step.lock [of _ 0], simplified]
  note s4 = i [OF s3 ctx_step.acquire [of _ 0], simplified]
  note s5 = i [OF s4 ctx_step.test [of _ 0], simplified]
  note s6 = o [OF s5 ctx_outside.post [of _ 1 7], simplified]
  note s7 = i [OF s6 ctx_step.pred [of _ 0], simplified]
  note s8 = i [OF s7 ctx_step.unlock [of _ 0 "[7]"], simplified]
  note s9 = i [OF s8 ctx_step.resume [of _ 0 7 "[]"], simplified]
  note s10 = i [OF s9 ctx_step.notify_nobody [of _ 1], simplified unready_def, simplified]
  note s11 = i [OF s10 ctx_step.run_again [of _ 0], simplified]
  note s12 = i [OF s11 ctx_step.lock [of _ 0], simplified]
  note s13 = i [OF s12 ctx_step.acquire [of _ 0], simplified]
  note s14 = i [OF s13 ctx_step.test [of _ 0], simplified]
  note s15 = i [OF s14 ctx_step.pred [of _ 0], simplified]
  note s16 = i [OF s15 ctx_step.pred_stop [of _ 0], simplified]
  note s17 = i [OF s16 ctx_step.fall_asleep [of _ 0], simplified]
  note s18 = o [OF s17 ctx_outside.stop [of _ 1 True], simplified]
  show ?thesis
    by (intro exI conjI, rule s18) (simp_all add: alone_def)
qed

theorem context_resumes_in_order_witness:
  "\<exists>s. ctx_reach s \<and> c_posted s = [7] \<and> c_posted s = c_resumed s @ in_hand (c_worker s 0) @ c_queue s"
proof -
  obtain s where s: "ctx_reach s" "alone s" "c_posted s = [7]" using context_run by blast
  with context_resumes_in_order [OF s(1)] show ?thesis by blast
qed

text \<open>
  C20: A wake-up can be lost: \<open>post\<close> neither takes the mutex nor can it know that the thread has
  evaluated its predicate but is not asleep yet. There is a run after which a coroutine is queued, the
  only thread is asleep, no call is under way, and no step of the program is possible.
\<close>

theorem context_lost_wakeup:
  "\<exists>s. ctx_reach s \<and> c_queue s = [7] \<and> c_worker s 0 = R_asleep \<and> (\<forall>t. \<not> ctx_step s t)"
proof -
  note i = ctx_reach.inside and o = ctx_reach.outside
  note s1 = o [OF ctx_reach.start ctx_outside.run [of _ 0], simplified new_ctx_def, simplified]
  note s2 = i [OF s1 ctx_step.enter [of _ 0], simplified]
  note s3 = i [OF s2 ctx_step.lock [of _ 0], simplified]
  note s4 = i [OF s3 ctx_step.acquire [of _ 0], simplified]
  note s5 = i [OF s4 ctx_step.test [of _ 0], simplified]
  note s6 = i [OF s5 ctx_step.pred [of _ 0], simplified]
  note s7 = i [OF s6 ctx_step.pred_stop [of _ 0], simplified]
  note s8 = o [OF s7 ctx_outside.post [of _ 1 7], simplified]
  note s9 = i [OF s8 ctx_step.notify_nobody [of _ 1], simplified]
  note s10 = i [OF s9 ctx_step.fall_asleep [of _ 0], simplified]
  show ?thesis
    by (rule exI, rule conjI, rule s10)
       (auto elim!: ctx_step.cases split: if_splits)
qed

text \<open>
  C19: That is the only way, with any number of threads in \<open>run\<close>: as long as no notification came while a
  thread was between the evaluation of its predicate and falling asleep, a thread sleeps while a
  coroutine is queued only if a \<open>notify_one\<close> is on its way or some thread has been woken and is about to
  take the queue; and a thread that is asked to stop sleeps only if a \<open>notify_all\<close> is on its way.
\<close>

theorem context_sleep_is_safe:
  assumes "ctx_reach s" and "c_worker s w = R_asleep" and "\<not> c_missed s"
  shows "(c_queue s \<noteq> [] \<longrightarrow> (\<exists>c. c_caller s c = Notify_one) \<or> (\<exists>v. c_worker s v \<in> {R_woken, R_pred})) \<and>
         (c_stop s \<longrightarrow> (\<exists>c. c_caller s c = Notify_all))"
proof -
  have "watched s" using ctx_reach_inv [OF assms(1)] by simp
  with assms(3) have q: "queue_watched s" and t: "stop_watched s" by (simp_all add: watched_def)
  have "dozing (c_worker s w)" using assms(2) by (simp add: dozing_def)
  with q t assms(2) show ?thesis unfolding queue_watched_def stop_watched_def looking_def by blast
qed

theorem context_sleep_is_safe_witness:
  "\<exists>s. ctx_reach s \<and> c_worker s 0 = R_asleep \<and> c_stop s \<and> (\<exists>c. c_caller s c = Notify_all)"
proof -
  obtain s where s: "ctx_reach s" "alone s" "c_worker s 0 = R_asleep" "\<not> c_missed s" "c_stop s"
    using context_run by blast
  from context_sleep_is_safe [OF s(1,3,4)] s show ?thesis by blast
qed

end
