(* ===== verification/Parser.thy ===== *)
theory Parser
  imports Cpp_Strings Errors
begin

text \<open>
  \<open>ice/parser.hpp\<close>: a parser that is fed one character at a time, splits the input into lines, offers
  complete lines and unfinished lines to its matchers, and can skip the rest of a line. A matcher is a
  match function (the regular expression of the standard library, on a line and whether its end is
  known) and a handler; handlers act on a state of the caller's, the last component of the results.
\<close>

section \<open>Matchers\<close>

datatype pstate = S_none | S_more | S_skip | S_next | S_done

type_synonym ('m, 'w) handler = "'m \<Rightarrow> error_code \<Rightarrow> 'w \<Rightarrow> pstate \<times> error_code \<times> 'w"

record ('m, 'w) matcher =
  regex_match :: "string \<Rightarrow> bool \<Rightarrow> 'm option"
  run_handler :: "('m, 'w) handler"

definition add :: "('m, 'w) matcher \<Rightarrow> ('m, 'w) matcher list \<Rightarrow> ('m, 'w) matcher list" where
  "add m matchers = matchers @ [m]"

text \<open>\<open>handle\<close>: the matchers in turn, until one matches whose handler does not say \<open>more\<close>.\<close>

fun handle_loop ::
    "('m, 'w) matcher list \<Rightarrow> string \<Rightarrow> bool \<Rightarrow> pstate \<Rightarrow> error_code \<Rightarrow> 'w \<Rightarrow>
     pstate \<times> error_code \<times> 'w" where
  "handle_loop [] line eol state ec w = (state, ec, w)"
| "handle_loop (m # ms) line eol state ec w =
     (case regex_match m line eol of
        None \<Rightarrow> handle_loop ms line eol state ec w
      | Some sm \<Rightarrow>
          (case run_handler m sm ec w of
             (state', ec', w') \<Rightarrow>
               if state' \<noteq> S_more then (state', ec', w')
               else handle_loop ms line eol state' ec' w'))"

definition handle ::
    "('m, 'w) matcher list \<Rightarrow> string \<Rightarrow> bool \<Rightarrow> error_code \<Rightarrow> 'w \<Rightarrow> pstate \<times> error_code \<times> 'w" where
  "handle ms line eol ec w = handle_loop ms line eol S_none ec w"

section \<open>The parser\<close>

record parser =
  cr :: bool
  skip :: bool
  line :: string
  lines :: "string list"

definition new_parser :: parser where
  "new_parser = \<lparr>cr = False, skip = False, line = [], lines = []\<rparr>"

definition newline :: char where
  "newline = CHR 0x0A"

definition carriage_return :: char where
  "carriage_return = CHR 0x0D"

definition backspace :: char where
  "backspace = CHR 0x08"

text \<open>\<open>line_.find_first_not_of\<close> with the blanks space, tab, vertical tab, backspace, form feed, bell.\<close>

definition blank_line :: "string \<Rightarrow> bool" where
  "blank_line s \<longleftrightarrow>
     find_first_not_of s [CHR '' '', CHR 0x09, CHR 0x0B, CHR 0x08, CHR 0x0C, CHR 0x07] = None"

definition end_line :: "parser \<Rightarrow> parser" where
  "end_line p =
     (let p1 = (if \<not> blank_line (line p) then p\<lparr>lines := lines p @ [line p]\<rparr> else p)
      in p1\<lparr>line := [], cr := False\<rparr>)"

text \<open>The loop over the complete lines: whether it stopped, and what is left of them.\<close>

fun handle_lines ::
    "('m, 'w) matcher list \<Rightarrow> string list \<Rightarrow> error_code \<Rightarrow> 'w \<Rightarrow>
     bool \<times> string list \<times> error_code \<times> 'w" where
  "handle_lines ms [] ec w = (False, [], ec, w)"
| "handle_lines ms (l # ls) ec w =
     (case handle ms l True ec w of
        (state, ec', w') \<Rightarrow>
          if state = S_done \<or> failed ec' then (True, ls, ec', w') else handle_lines ms ls ec' w')"

definition handle_partial ::
    "('m, 'w) matcher list \<Rightarrow> error_code \<Rightarrow> parser \<Rightarrow> 'w \<Rightarrow> pstate \<times> error_code \<times> parser \<times> 'w" where
  "handle_partial ms ec p w =
     (if blank_line (line p) then (S_none, ec, p, w)
      else (case handle ms (line p) False ec w of
              (state, ec', w') \<Rightarrow>
                if state = S_done \<or> failed ec' then (S_done, ec', p, w')
                else (case state of
                        S_none \<Rightarrow> (state, ec', p, w')
                      | S_next \<Rightarrow> (state, ec', p\<lparr>line := []\<rparr>, w')
                      | _ \<Rightarrow> (state, ec', p\<lparr>skip := True, line := []\<rparr>, w'))))"

definition parse ::
    "('m, 'w) matcher list \<Rightarrow> char \<Rightarrow> parser \<Rightarrow> 'w \<Rightarrow> pstate \<times> error_code \<times> parser \<times> 'w" where
  "parse ms c p w =
     (if skip p then (S_none, no_error, if c = newline then p\<lparr>skip := False\<rparr> else p, w)
      else if c = newline then (S_none, no_error, end_line p, w)
      else (let p1 = (if cr p then end_line p else p)
            in if c = carriage_return then (S_none, no_error, p1\<lparr>cr := True\<rparr>, w)
               else if c = backspace then (S_none, no_error, p1, w)
               else (let p2 = p1\<lparr>line := line p1 @ [c]\<rparr>
                     in case handle_lines ms (lines p2) no_error w of
                          (stopped, rest, ec, w') \<Rightarrow>
                            if stopped then (S_done, ec, p2\<lparr>lines := rest\<rparr>, w')
                            else handle_partial ms ec (p2\<lparr>lines := []\<rparr>) w')))"

text \<open>
  \<open>run\<close>, on the results of the stream's \<open>recv\<close> calls: a character or nothing, and an error code. The
  first component of the result is \<^const>\<open>None\<close> while the parser still waits for input.
\<close>

fun run_parser ::
    "('m, 'w) matcher list \<Rightarrow> (char option \<times> error_code) list \<Rightarrow> parser \<Rightarrow> 'w \<Rightarrow>
     error_code option \<times> parser \<times> 'w" where
  "run_parser ms [] p w = (None, p, w)"
| "run_parser ms ((None, ec) # rs) p w =
     (if failed ec then (Some ec, p, w) else run_parser ms rs p w)"
| "run_parser ms ((Some c, _) # rs) p w =
     (case parse ms c p w of
        (state, ec, p', w') \<Rightarrow>
          if state = S_done \<or> failed ec then (Some ec, p', w') else run_parser ms rs p' w')"

section \<open>Lines, described on the whole input\<close>

definition line_end :: "char \<Rightarrow> bool" where
  "line_end c \<longleftrightarrow> c = newline \<or> c = carriage_return"

fun split_lines :: "string \<Rightarrow> string list" where
  "split_lines [] = [[]]"
| "split_lines (c # cs) =
     (if line_end c then [] # split_lines cs
      else (c # hd (split_lines cs)) # tl (split_lines cs))"

text \<open>The complete lines of an input that are not blank, and the line after the last line end.\<close>

definition complete_lines :: "string \<Rightarrow> string list" where
  "complete_lines cs =
     filter (\<lambda>l. \<not> blank_line l) (map (filter (\<lambda>c. c \<noteq> backspace)) (butlast (split_lines cs)))"

definition open_line :: "string \<Rightarrow> string" where
  "open_line cs = filter (\<lambda>c. c \<noteq> backspace) (last (split_lines cs))"

lemma split_lines_nonempty [simp]: "split_lines cs \<noteq> []"
  by (cases cs) auto

lemma split_lines_snoc:
  "split_lines (cs @ [c]) =
     (if line_end c then split_lines cs @ [[]]
      else butlast (split_lines cs) @ [last (split_lines cs) @ [c]])"
proof (induction cs)
  case (Cons d cs)
  then show ?case by (cases "split_lines cs") auto
qed simp

lemma complete_lines_snoc [simp]:
  "complete_lines (cs @ [c]) =
     (if line_end c \<and> \<not> blank_line (open_line cs) then complete_lines cs @ [open_line cs]
      else complete_lines cs)"
  by (cases "split_lines cs" rule: rev_cases)
     (auto simp: complete_lines_def open_line_def split_lines_snoc butlast_append)

lemma open_line_snoc [simp]:
  "open_line (cs @ [c]) =
     (if line_end c then [] else if c = backspace then open_line cs else open_line cs @ [c])"
  by (simp add: open_line_def split_lines_snoc)

lemma lines_empty [simp]: "complete_lines [] = []" "open_line [] = []"
  by (simp_all add: complete_lines_def open_line_def)

lemma blank_line_Nil [simp]: "blank_line []"
  by (simp add: blank_line_def find_first_not_of_def)

lemma special_chars [simp]:
  "newline \<noteq> carriage_return" "newline \<noteq> backspace" "carriage_return \<noteq> backspace"
  "carriage_return \<noteq> newline"
  by (simp_all add: newline_def carriage_return_def backspace_def)

section \<open>The parser delivers the lines\<close>

definition feed ::
    "('m, 'w) matcher list \<Rightarrow> string \<Rightarrow> parser \<times> 'w \<Rightarrow> parser \<times> 'w" where
  "feed ms cs s = fold (\<lambda>c (p, w). snd (snd (parse ms c p w))) cs s"

lemma feed_snoc: "feed ms (cs @ [c]) s = snd (snd (parse ms c (fst (feed ms cs s)) (snd (feed ms cs s))))"
  by (simp add: feed_def case_prod_beta)

text \<open>The effect of offering a complete line to the matchers.\<close>

definition deliver :: "('m, 'w) matcher list \<Rightarrow> string \<Rightarrow> 'w \<Rightarrow> 'w" where
  "deliver ms l w = snd (snd (handle ms l True no_error w))"

text \<open>Handlers that never stop the parser, and matchers that never match an unfinished line.\<close>

definition goes_on :: "('m, 'w) matcher list \<Rightarrow> bool" where
  "goes_on ms \<longleftrightarrow> (\<forall>l w. fst (handle ms l True no_error w) \<noteq> S_done \<and>
                         fst (snd (handle ms l True no_error w)) = no_error)"

definition line_only :: "('m, 'w) matcher list \<Rightarrow> bool" where
  "line_only ms \<longleftrightarrow> (\<forall>m \<in> set ms. \<forall>l. regex_match m l False = None)"

lemma line_only_handle: "line_only ms \<Longrightarrow> handle ms l False ec w = (S_none, ec, w)"
proof -
  have "line_only ms \<Longrightarrow> handle_loop ms l False S_none ec w = (S_none, ec, w)"
    by (induction ms) (auto simp: line_only_def)
  then show "line_only ms \<Longrightarrow> ?thesis" by (simp add: handle_def)
qed

lemma handle_lines_goes_on:
  "goes_on ms \<Longrightarrow> handle_lines ms ls no_error w = (False, [], no_error, fold (deliver ms) ls w)"
proof (induction ls arbitrary: w)
  case (Cons l ls)
  obtain st ec w' where h: "handle ms l True no_error w = (st, ec, w')"
    by (metis prod_cases3)
  have st: "st \<noteq> S_done" "ec = no_error"
    using Cons.prems spec [OF spec [OF Cons.prems [unfolded goes_on_def], of l], of w] by (simp_all add: h)
  have "deliver ms l w = w'" by (simp add: deliver_def h)
  with st h Cons show ?case by simp
qed simp

text \<open>
  An input up to its last ordinary character. The parser looks at its complete lines only when it reads
  one, so the lines that end after it are kept: \<^const>\<open>lines\<close>, and the line a carriage return ended.
\<close>

definition ordinary :: "char \<Rightarrow> bool" where
  "ordinary c \<longleftrightarrow> c \<notin> {newline, carriage_return, backspace}"

definition up_to_ordinary :: "string \<Rightarrow> string" where
  "up_to_ordinary cs = rev (dropWhile (\<lambda>c. \<not> ordinary c) (rev cs))"

lemma up_to_ordinary_simps [simp]:
  "up_to_ordinary [] = []"
  "up_to_ordinary (cs @ [c]) = (if ordinary c then cs @ [c] else up_to_ordinary cs)"
  by (simp_all add: up_to_ordinary_def)

lemma ordinary_special [simp]: "\<not> ordinary newline" "\<not> ordinary carriage_return" "\<not> ordinary backspace"
  by (simp_all add: ordinary_def)

definition kept :: "parser \<Rightarrow> string list" where
  "kept p = lines p @ (if cr p \<and> \<not> blank_line (line p) then [line p] else [])"

definition store_ok :: "('m, 'w) matcher list \<Rightarrow> string \<Rightarrow> 'w \<Rightarrow> parser \<times> 'w \<Rightarrow> bool" where
  "store_ok ms cs w0 s \<longleftrightarrow>
     \<not> skip (fst s) \<and> open_line cs = (if cr (fst s) then [] else line (fst s)) \<and>
     complete_lines cs = complete_lines (up_to_ordinary cs) @ kept (fst s) \<and>
     snd s = fold (deliver ms) (complete_lines (up_to_ordinary cs)) w0"

lemma store_ok_step:
  assumes "goes_on ms" and "line_only ms" and "store_ok ms cs w0 (p, w)"
  shows "store_ok ms (cs @ [c]) w0 (snd (snd (parse ms c p w)))"
proof -
  let ?given = "complete_lines (up_to_ordinary cs)"
  have g: "complete_lines cs = ?given @ kept p" "w = fold (deliver ms) ?given w0"
    "\<not> skip p" "open_line cs = (if cr p then [] else line p)"
    using assms(3) by (auto simp: store_ok_def)
  consider "c = newline" | "c = carriage_return" | "c = backspace" | "ordinary c"
    by (auto simp: ordinary_def)
  then show ?thesis
  proof cases
    case 4
    let ?p = "if cr p then end_line p else p"
    have keep: "lines ?p = kept p" "line ?p = open_line cs" "\<not> cr ?p" "\<not> skip ?p"
      using g by (auto simp: kept_def end_line_def Let_def)
    have c: "c \<noteq> newline" "c \<noteq> carriage_return" "c \<noteq> backspace" "\<not> line_end c"
      using 4 by (auto simp: ordinary_def line_end_def)
    have "parse ms c p w = handle_partial ms no_error (?p\<lparr>line := line ?p @ [c], lines := []\<rparr>)
            (fold (deliver ms) (kept p) w)"
      using c g(3) keep(1) by (simp add: parse_def handle_lines_goes_on [OF assms(1)] Let_def)
    then have "snd (snd (parse ms c p w)) =
        (?p\<lparr>line := line ?p @ [c], lines := []\<rparr>, fold (deliver ms) (kept p) w)"
      by (simp add: handle_partial_def line_only_handle [OF assms(2)])
    moreover have "fold (deliver ms) (kept p) w = fold (deliver ms) (complete_lines cs) w0"
      using g(1,2) by simp
    moreover have "complete_lines (cs @ [c]) = complete_lines cs" "open_line (cs @ [c]) = line ?p @ [c]"
      using c keep(2) by auto
    ultimately show ?thesis using 4 keep
      by (auto simp: store_ok_def kept_def)
  qed (use g in \<open>auto simp: store_ok_def parse_def kept_def end_line_def Let_def line_end_def\<close>)
qed

lemma store_ok_feed:
  assumes "goes_on ms" and "line_only ms"
  shows "store_ok ms cs w0 (feed ms cs (new_parser, w0))"
proof (induction cs rule: rev_induct)
  case Nil
  show ?case by (simp add: store_ok_def feed_def new_parser_def kept_def)
next
  case (snoc c cs)
  then have "store_ok ms cs w0 (fst (feed ms cs (new_parser, w0)), snd (feed ms cs (new_parser, w0)))"
    by simp
  from store_ok_step [OF assms this] show ?case by (simp add: feed_snoc)
qed


section \<open>Properties\<close>

text \<open>
  C35: With matchers for complete lines only, whose handlers never stop the parser, it delivers exactly
  the non-blank lines that are complete when the last ordinary character of the input is read (neither a
  line end nor a backspace), in order and without backspaces, whether they end in a newline, a carriage
  return or both. The lines completed after that character are kept for the next one.
\<close>

theorem parser_delivers_lines:
  assumes "goes_on ms" and "line_only ms"
  shows "snd (feed ms cs (new_parser, w)) = fold (deliver ms) (complete_lines (up_to_ordinary cs)) w \<and>
         complete_lines cs =
           complete_lines (up_to_ordinary cs) @ kept (fst (feed ms cs (new_parser, w)))"
  using store_ok_feed [OF assms, of cs w] by (simp add: store_ok_def)

text \<open>A finished line alone is not delivered yet.\<close>

lemma finished_line_kept:
  assumes "goes_on ms" and "line_only ms"
  shows "snd (feed ms (cs @ [newline]) (new_parser, w)) = snd (feed ms cs (new_parser, w))"
  using store_ok_feed [OF assms, of "cs @ [newline]" w] store_ok_feed [OF assms, of cs w]
  by (simp add: store_ok_def)

text \<open>A matcher that logs every complete line.\<close>

definition log_lines :: "(string, string list) matcher" where
  "log_lines =
     \<lparr>regex_match = (\<lambda>s eol. if eol then Some s else None),
      run_handler = (\<lambda>s ec w. (S_next, ec, w @ [s]))\<rparr>"

theorem parser_delivers_lines_witness:
  "snd (feed [log_lines] (''a'' @ [carriage_return, newline] @ ''bc'' @ [carriage_return] @ ''d'' @ [newline])
          (new_parser, [])) = [''a'', ''bc'']"
proof -
  let ?cs = "''a'' @ [carriage_return, newline] @ ''bc'' @ [carriage_return] @ ''d'' @ [newline]"
  have "goes_on [log_lines]" "line_only [log_lines]"
    by (simp_all add: goes_on_def line_only_def handle_def log_lines_def)
  from parser_delivers_lines [OF this, of ?cs "[]"]
  have *: "snd (feed [log_lines] ?cs (new_parser, [])) =
      fold (deliver [log_lines]) (complete_lines (up_to_ordinary ?cs)) []" ..
  have "complete_lines (up_to_ordinary ?cs) = [''a'', ''bc'']"
    by (simp add: up_to_ordinary_def ordinary_def complete_lines_def line_end_def newline_def
        carriage_return_def backspace_def blank_line_def find_first_not_of_def)
  with * show ?thesis by (simp add: deliver_def handle_def log_lines_def)
qed

lemma parse_skipping:
  "skip p \<Longrightarrow> c \<noteq> newline \<Longrightarrow> snd (snd (parse ms c p w)) = (p, w)"
  by (simp add: parse_def)

lemma feed_skipping: "skip p \<Longrightarrow> newline \<notin> set cs \<Longrightarrow> feed ms cs (p, w) = (p, w)"
  by (induction cs) (auto simp: feed_def parse_skipping)

text \<open>
  After an unfinished line was handled with \<open>more\<close> or \<open>skip\<close>, the parser ignores everything up to
  and including the next newline: no handler runs, no line is kept, and it is then as it was right after
  the handler, at the start of a new line.
\<close>

theorem parser_skips_rest_of_line:
  assumes "parse ms c p w = (state, ec, p', w')" and "state \<in> {S_more, S_skip}"
    and "newline \<notin> set cs"
  shows "skip p' \<and> line p' = [] \<and> lines p' = [] \<and>
         feed ms (cs @ [newline]) (p', w') = (p'\<lparr>skip := False\<rparr>, w')"
proof -
  have p: "skip p' \<and> line p' = [] \<and> lines p' = []"
    using assms(1,2)
    by (auto simp: parse_def Let_def handle_partial_def split: if_splits prod.splits pstate.splits)
  then have "feed ms cs (p', w') = (p', w')" using assms(3) by (simp add: feed_skipping)
  with p show ?thesis by (simp add: feed_snoc parse_def)
qed

definition skip_prompt :: "(unit, nat) matcher" where
  "skip_prompt =
     \<lparr>regex_match = (\<lambda>s eol. if s = ''>'' then Some () else None),
      run_handler = (\<lambda>_ ec w. (S_skip, ec, w + 1))\<rparr>"

theorem parser_skips_rest_of_line_witness:
  "feed [skip_prompt] (''abc'' @ [newline])
     (snd (snd (parse [skip_prompt] (CHR ''>'') new_parser 0))) = (new_parser, 1)"
proof -
  have "parse [skip_prompt] (CHR ''>'') new_parser 0 =
      (S_skip, no_error, new_parser\<lparr>skip := True\<rparr>, 1)"
    by (simp add: parse_def new_parser_def newline_def carriage_return_def backspace_def Let_def
        handle_partial_def handle_def skip_prompt_def blank_line_def find_first_not_of_def)
  from parser_skips_rest_of_line [OF this, of "''abc''"] this show ?thesis
    by (simp add: newline_def new_parser_def)
qed

end
