(* ===== verification/System_Calls.thy ===== *)
theory System_Calls
  imports Errors
begin

text \<open>
  System calls as the network sources use them on Linux. What the calls of a run give is an input of
  the model: a list of results, a success or a failure with the value it leaves in \<open>errno\<close>. An
  operation that has used up its results without returning is still running: \<^const>\<open>None\<close>.
\<close>

datatype 'a sys = Success 'a | Failure int

text \<open>The \<open>errno\<close> numbers of Linux that the sources test.\<close>

definition eintr :: int where
  "eintr = 4"

definition eagain :: int where
  "eagain = 11"

definition einprogress :: int where
  "einprogress = 115"

definition errno_code :: "int \<Rightarrow> error_code" where
  "errno_code e = make_error_code (Other_value e)"

text \<open>Results after which the loops try again: an interruption, or no data before a wait.\<close>

fun transient :: "'a sys \<Rightarrow> bool" where
  "transient (Success x) = False"
| "transient (Failure e) = (e = eintr \<or> e = eagain)"

fun would_block :: "'a sys \<Rightarrow> bool" where
  "would_block (Success x) = False"
| "would_block (Failure e) = (e = eagain)"

lemma errno_distinct [simp]: "eintr \<noteq> eagain" "eagain \<noteq> eintr" "eintr \<noteq> einprogress" "einprogress \<noteq> eintr"
  by (simp_all add: eintr_def eagain_def einprogress_def)

lemma failed_errno_code: "int_min \<le> e \<Longrightarrow> e \<le> int_max \<Longrightarrow> failed (errno_code e) \<longleftrightarrow> e \<noteq> 0"
  by (simp add: errno_code_def failed_def cast_int_id)

end
