(* ===== verification/Byte_Stream.thy ===== *)
theory Byte_Stream
  imports System_Calls
begin

text \<open>
  The interface between the stream helpers of \<open>ice/async.hpp\<close> and the streams (TCP sockets, serial
  devices, SSH sessions): \<open>send\<close> hands a part of the data to the stream, from its beginning, and says
  which part and with which error code.
\<close>

section \<open>The helper\<close>

text \<open>
  \<open>ice::send(stream, buffer)\<close>: the second parameter stands for what the stream will do; the result is
  \<^const>\<open>None\<close> while \<open>send\<close> of the stream is still running.
\<close>

definition send_all :: "(string \<Rightarrow> 's \<Rightarrow> (string \<times> error_code) option) \<Rightarrow> string \<Rightarrow> 's \<Rightarrow> error_code option" where
  "send_all send data s =
     (case send data s of
        None \<Rightarrow> None
      | Some (sent, ec) \<Rightarrow>
          if \<not> failed ec \<and> length sent < length data then Some (make_error_code (Ice_errc Eof))
          else Some ec)"

section \<open>The interface\<close>

locale byte_stream =
  fixes send :: "string \<Rightarrow> 's \<Rightarrow> (string \<times> error_code) option"
  assumes send_prefix: "send data s = Some (sent, ec) \<Longrightarrow> prefix sent data"
begin

lemma sent_all: "send data s = Some (sent, ec) \<Longrightarrow> \<not> length sent < length data \<longleftrightarrow> sent = data"
  using send_prefix [of data s sent ec] by (auto simp: prefix_def)

lemma send_all_complete:
  assumes "send_all send data s = Some ec" and "\<not> failed ec"
  shows "send data s = Some (data, ec)"
proof -
  obtain sent ec' where s: "send data s = Some (sent, ec')"
    using assms(1) by (auto simp: send_all_def split: option.splits)
  then have "ec' = ec" "sent = data"
    using assms sent_all [OF s]
    by (auto simp: send_all_def simp del: make_error_code.simps split: if_splits)
  with s show ?thesis by simp
qed

lemma send_all_returns: "send data s \<noteq> None \<longleftrightarrow> send_all send data s \<noteq> None"
  by (auto simp: send_all_def split: option.split)

lemma send_all_failed:
  "send data s = Some (sent, ec) \<Longrightarrow> failed ec \<or> sent \<noteq> data \<Longrightarrow>
   (\<exists>ec'. send_all send data s = Some ec' \<and> failed ec')"
  using sent_all [of data s sent ec]
  by (auto simp: send_all_def simp del: make_error_code.simps)

end

end
