(* ===== verification/Tcp_Socket.thy ===== *)
theory Tcp_Socket
  imports Byte_Stream Handle
begin

text \<open>
  Sockets (\<open>ice/net/socket.cpp\<close>) and TCP sockets (\<open>ice/net/tcp/socket.cpp\<close>) in the Linux build. A
  non-blocking call that would block makes the coroutine wait for an event; the results of the waits
  are an input of the model, like those of the calls.
\<close>

section \<open>Sockets\<close>

text \<open>A socket object: its descriptor, -1 when it has none, and the family; and what it has closed.\<close>

record socket =
  sock_handle :: int
  family :: int
  sock_closed :: "int list"

definition new_socket :: socket where
  "new_socket = \<lparr>sock_handle = -1, family = 0, sock_closed = []\<rparr>"

definition socket_ok :: "socket \<Rightarrow> bool" where
  "socket_ok s = hvalid (-1) (sock_handle s)"

definition socket_close :: "socket \<Rightarrow> socket" where
  "socket_close s =
     (if hvalid (-1) (sock_handle s)
      then s\<lparr>sock_handle := -1, sock_closed := sock_closed s @ [sock_handle s]\<rparr> else s)"

text \<open>\<open>create\<close>, on the result of \<open>::socket\<close>; the new handle replaces the old one, which is closed.\<close>

definition socket_create :: "int sys \<Rightarrow> socket \<Rightarrow> error_code \<times> socket" where
  "socket_create rc s =
     (case rc of
        Failure e \<Rightarrow> (errno_code e, s)
      | Success fd \<Rightarrow> (no_error, (socket_close s)\<lparr>sock_handle := fd\<rparr>))"

fun socket_bind :: "unit sys list \<Rightarrow> error_code option" where
  "socket_bind [] = None"
| "socket_bind (Success _ # rs) = Some no_error"
| "socket_bind (Failure e # rs) = (if e \<noteq> eintr then Some (errno_code e) else socket_bind rs)"

text \<open>\<open>close\<close> of the descriptor is repeated while it is interrupted.\<close>

fun close_descriptor :: "unit sys list \<Rightarrow> bool option" where
  "close_descriptor [] = None"
| "close_descriptor (Success _ # rs) = Some True"
| "close_descriptor (Failure e # rs) = (if e = eintr then close_descriptor rs else Some False)"

datatype shutdown = Shut_recv | Shut_send | Shut_both

fun shutdown_value :: "shutdown \<Rightarrow> int" where
  "shutdown_value Shut_recv = 0"
| "shutdown_value Shut_send = 1"
| "shutdown_value Shut_both = 2"

definition socket_shutdown :: "(int \<Rightarrow> unit sys) \<Rightarrow> shutdown \<Rightarrow> error_code" where
  "socket_shutdown call direction =
     (case call (shutdown_value direction) of Failure e \<Rightarrow> errno_code e | Success _ \<Rightarrow> no_error)"

text \<open>\<open>get\<close> gives the error code and what the call stored; \<open>type\<close> and \<open>protocol\<close> read 0 on errors.\<close>

definition socket_get :: "'a sys \<Rightarrow> 'a \<Rightarrow> error_code \<times> 'a" where
  "socket_get rc data = (case rc of Failure e \<Rightarrow> (errno_code e, data) | Success v \<Rightarrow> (no_error, v))"

definition socket_set :: "unit sys \<Rightarrow> error_code" where
  "socket_set rc = (case rc of Failure e \<Rightarrow> errno_code e | Success _ \<Rightarrow> no_error)"

definition socket_type :: "int sys \<Rightarrow> int" where
  "socket_type rc = (let (ec, data) = socket_get rc 0 in if failed ec then 0 else data)"

definition socket_protocol :: "int sys \<Rightarrow> int" where
  "socket_protocol rc = (let (ec, data) = socket_get rc 0 in if failed ec then 0 else data)"

section \<open>TCP\<close>

text \<open>
  \<open>create\<close>, with the protocol of TCP or a given one; the type \<open>SOCK_STREAM\<close> is 1, \<open>SOCK_NONBLOCK\<close> another bit.
\<close>

definition sock_type :: int where
  "sock_type = 1 + 2048"

definition tcp_create :: "(int \<Rightarrow> int \<Rightarrow> int \<Rightarrow> int sys) \<Rightarrow> int \<Rightarrow> socket \<Rightarrow> error_code \<times> socket" where
  "tcp_create socket fam s = socket_create (socket fam sock_type 6) s"

definition tcp_create_for :: "(int \<Rightarrow> int \<Rightarrow> int \<Rightarrow> int sys) \<Rightarrow> int \<Rightarrow> int \<Rightarrow> socket \<Rightarrow> error_code \<times> socket" where
  "tcp_create_for socket fam protocol s = socket_create (socket fam sock_type protocol) s"

text \<open>\<open>create\<close> leaves the family of the object as it was, here 0, whichever it was called with.\<close>

lemma tcp_create_family: "tcp_create socket fam s = (ec, t) \<Longrightarrow> family t = family s"
  by (auto simp: tcp_create_def socket_create_def socket_close_def split: sys.splits if_splits)

definition tcp_listen :: "(int \<Rightarrow> unit sys) \<Rightarrow> int \<Rightarrow> int \<Rightarrow> error_code" where
  "tcp_listen call somaxconn backlog =
     (case call (if backlog > 0 then cast_int backlog else somaxconn) of
        Failure e \<Rightarrow> errno_code e
      | Success _ \<Rightarrow> no_error)"

text \<open>\<open>accept\<close>: the descriptor of the client, or -1. The second list: what the awaited events give.\<close>

fun tcp_accept :: "int sys list \<Rightarrow> error_code list \<Rightarrow> int option" where
  "tcp_accept [] ws = None"
| "tcp_accept (Success fd # rs) ws = Some fd"
| "tcp_accept (Failure e # rs) ws =
     (if e = eintr then tcp_accept rs ws
      else if e \<noteq> eagain then Some (-1)
      else (case ws of
              [] \<Rightarrow> None
            | w # ws' \<Rightarrow> if failed w then Some (-1) else tcp_accept rs ws'))"

text \<open>\<open>connect\<close>; the last arguments are the result of the awaited event and of \<open>get(SO_ERROR)\<close>.\<close>

fun tcp_connect :: "unit sys list \<Rightarrow> error_code option \<Rightarrow> int sys \<Rightarrow> error_code option" where
  "tcp_connect [] wait so_error = None"
| "tcp_connect (Success _ # rs) wait so_error = Some no_error"
| "tcp_connect (Failure e # rs) wait so_error =
     (if e = eintr then tcp_connect rs wait so_error
      else if e \<noteq> einprogress then Some (errno_code e)
      else (case wait of
              None \<Rightarrow> None
            | Some w \<Rightarrow>
                if failed w then Some w
                else (let (ec, code) = socket_get so_error 0
                      in if failed ec then Some ec
                         else if code \<noteq> 0 then Some (errno_code code)
                         else Some no_error)))"

fun tcp_recv :: "string sys list \<Rightarrow> error_code list \<Rightarrow> (string \<times> error_code) option" where
  "tcp_recv [] ws = None"
| "tcp_recv (Success bytes # rs) ws = Some (bytes, no_error)"
| "tcp_recv (Failure e # rs) ws =
     (if e = eintr then tcp_recv rs ws
      else if e \<noteq> eagain then Some ([], errno_code e)
      else (case ws of
              [] \<Rightarrow> None
            | w # ws' \<Rightarrow> if failed w then Some ([], w) else tcp_recv rs ws'))"

text \<open>
  \<open>send\<close>: \<open>errno\<close> is a variable that a successful \<open>write\<close> leaves alone; an awaited event gives an
  error code and the value of \<open>errno\<close> when the coroutine runs on. \<open>sent\<close> collects what was written.
\<close>

fun tcp_send_loop ::
    "int \<Rightarrow> string \<Rightarrow> string \<Rightarrow> nat sys list \<Rightarrow> (error_code \<times> int) list \<Rightarrow>
     (string \<times> error_code) option" where
  "tcp_send_loop errno data sent [] ws = None"
| "tcp_send_loop errno data sent (rc # rs) ws =
     (if rc = Success 0 then Some (sent, no_error)
      else (let (errno, data, sent) =
                  (case rc of
                     Success n \<Rightarrow> (errno, drop n data, sent @ take n data)
                   | Failure e \<Rightarrow> (e, data, sent))
            in if errno = eintr
               then (if data \<noteq> [] then tcp_send_loop errno data sent rs ws else Some (sent, no_error))
               else if errno \<noteq> eagain then Some (sent, errno_code errno)
               else (case ws of
                       [] \<Rightarrow> None
                     | (w, errno') # ws' \<Rightarrow>
                         if failed w then Some (sent, w)
                         else if data \<noteq> [] then tcp_send_loop errno' data sent rs ws'
                         else Some (sent, no_error))))"

text \<open>The state of the stream: \<open>errno\<close> before the call and what calls and waits will give.\<close>

definition tcp_send ::
    "string \<Rightarrow> int \<times> nat sys list \<times> (error_code \<times> int) list \<Rightarrow> (string \<times> error_code) option" where
  "tcp_send data s = (case s of (errno, rs, ws) \<Rightarrow> tcp_send_loop errno data [] rs ws)"

section \<open>Properties\<close>

lemma tcp_send_loop_prefix:
  "tcp_send_loop errno data sent rs ws = Some (sent', ec) \<Longrightarrow>
   \<exists>n. sent' = sent @ take n data"
proof (induction errno data sent rs ws rule: tcp_send_loop.induct)
  case (1 errno data sent ws)
  then show ?case by simp
next
  case (2 errno data sent rc rs ws)
  show ?case
  proof (cases rc)
    case (Failure e)
    then show ?thesis
      using 2 by (auto simp: Let_def split: if_splits list.splits prod.splits intro: exI [of _ 0])
  next
    case (Success n)
    have one: "\<exists>k. sent @ take n data = sent @ take k data" by blast
    have more: "\<exists>k. sent @ take n data @ take m (drop n data) = sent @ take k data" for m
      by (intro exI [of _ "n + m"]) (simp add: take_add)
    show ?thesis
      using 2 Success one more
      by (fastforce simp: Let_def split: if_splits list.splits prod.splits intro: exI [of _ 0])
  qed
qed


text \<open>A TCP socket is a stream: what it sends is a beginning of the data.\<close>

interpretation tcp: byte_stream tcp_send
  by unfold_locales (auto simp: tcp_send_def take_is_prefix split: prod.splits
      dest!: tcp_send_loop_prefix)

text \<open>
  C34: When \<open>ice::send\<close> reports success on a TCP socket, everything was written, each byte once and in
  order, however often the calls were interrupted, would have blocked or wrote a part.
\<close>

theorem tcp_send_complete:
  assumes "send_all tcp_send data s = Some ec" and "\<not> failed ec"
  shows "tcp_send data s = Some (data, ec)"
  using assms by (rule tcp.send_all_complete)

theorem tcp_send_complete_witness:
  "tcp_send ''abc'' (eagain, [Success 1, Failure eintr, Success 2], [(no_error, eagain), (no_error, 0)]) =
     Some (''abc'', no_error)"
proof -
  let ?s = "(eagain, [Success 1, Failure eintr, Success 2], [(no_error, eagain), (no_error, 0)])"
  have "send_all tcp_send ''abc'' ?s = Some no_error"
    by (simp add: send_all_def tcp_send_def eintr_def eagain_def errno_code_def failed_def no_error_def)
  from tcp_send_complete [OF this] show ?thesis by simp
qed

text \<open>
  C39: After a successful write \<open>send\<close> still tests \<open>errno\<close>, which the write did not set: unless it happens
  to be \<open>EINTR\<close> or \<open>EAGAIN\<close>, \<open>send\<close> stops after the first write, with the stale value as its error. So
  data sent completely is reported as failed when an earlier call had failed, and a partial write is
  reported as a success when none had.
\<close>

theorem tcp_send_stale_errno:
  assumes "0 < n" and "n \<le> length data" and "errno \<noteq> eintr" and "errno \<noteq> eagain"
  shows "tcp_send data (errno, Success n # rs, ws) = Some (take n data, errno_code errno)"
  using assms by (simp add: tcp_send_def)

theorem tcp_send_stale_errno_witness:
  "(\<exists>ec. tcp_send ''ab'' (2, [Success 2], []) = Some (''ab'', ec) \<and> failed ec) \<and>
   (\<exists>ec. tcp_send ''ab'' (0, [Success 1, Success 1], []) = Some (''a'', ec) \<and> \<not> failed ec)"
proof -
  have "tcp_send ''ab'' (2, [Success 2], []) = Some (take 2 ''ab'', errno_code 2)"
    by (rule tcp_send_stale_errno) (simp_all add: eintr_def eagain_def)
  moreover have "tcp_send ''ab'' (0, [Success 1, Success 1], []) = Some (take 1 ''ab'', errno_code 0)"
    by (rule tcp_send_stale_errno) (simp_all add: eintr_def eagain_def)
  ultimately show ?thesis
    using failed_errno_code [of 2] failed_errno_code [of 0] by (simp add: int_min_def int_max_def)
qed

text \<open>
  \<open>recv\<close> gives what the first call gives that was neither interrupted nor would have blocked: its
  bytes or its error. Interruptions cost nothing and each blocked call one wait.
\<close>

theorem tcp_recv_result:
  assumes "\<forall>r \<in> set rs. transient r" and "\<not> transient r"
    and "length (filter would_block rs) \<le> length ws"
    and "\<forall>w \<in> set (take (length (filter would_block rs)) ws). \<not> failed w"
  shows "tcp_recv (rs @ r # rest) ws =
         Some (case r of Success bytes \<Rightarrow> (bytes, no_error) | Failure e \<Rightarrow> ([], errno_code e))"
  using assms
proof (induction rs arbitrary: ws)
  case Nil
  then show ?case by (cases r) auto
next
  case (Cons q rs)
  then obtain e where q: "q = Failure e" "e = eintr \<or> e = eagain" by (cases q) auto
  show ?case
  proof (cases "e = eintr")
    case True
    with q Cons show ?thesis by simp
  next
    case False
    with q Cons.prems obtain w ws' where "ws = w # ws'" by (cases ws) auto
    with q False Cons show ?thesis by auto
  qed
qed

theorem tcp_recv_result_witness:
  "tcp_recv [Failure eintr, Failure eagain, Success ''hi''] [no_error] = Some (''hi'', no_error)"
  using tcp_recv_result [of "[Failure eintr, Failure eagain]" "Success ''hi''" "[no_error]" "[]"]
  by simp

text \<open>
  No operation sets the family of a socket: it keeps the 0 of its constructor, whatever family the
  descriptor was created with.
\<close>

lemma socket_family_never_set:
  "family (snd (socket_create rc s)) = family s \<and> family (socket_close s) = family s \<and>
   family new_socket = 0"
  by (simp add: socket_create_def socket_close_def new_socket_def split: sys.split)

text \<open>An interrupted \<open>connect\<close> is started again, and an error left in the socket is reported.\<close>

lemma tcp_connect_result:
  "tcp_connect (replicate k (Failure eintr) @ Failure einprogress # rs) (Some no_error) (Success code) =
     Some (if code \<noteq> 0 then errno_code code else no_error)"
  by (induction k) (simp_all add: socket_get_def)

text \<open>\<open>accept\<close> tells its errors only by the missing descriptor.\<close>

lemma tcp_accept_error:
  "e \<noteq> eintr \<Longrightarrow> e \<noteq> eagain \<Longrightarrow> tcp_accept (replicate k (Failure eintr) @ Failure e # rs) ws = Some (-1)"
  by (induction k) simp_all

end
