(* ===== verification/Overlapped_Streams.thy ===== *)
theory Overlapped_Streams
  imports Byte_Stream
begin

text \<open>
  The streams of the Windows build: serial devices (\<open>ice/net/serial.cpp\<close>) and the sending and
  receiving of TCP sockets (\<open>ice/net/tcp/socket.cpp\<close>). An overlapped call ends at once or is awaited;
  what the calls give is an input of the model.
\<close>

section \<open>Overlapped calls\<close>

text \<open>
  A call succeeds with a number of bytes, fails, or is pending; then the awaited event tells that
  \<open>GetOverlappedResult\<close> can be asked, which succeeds or fails in turn.
\<close>

datatype 'a overlapped = Immediate 'a | Refused int | Pending "'a sys"

definition error_io_pending :: int where
  "error_io_pending = 997"

text \<open>The outcome after the wait, if there is one: what both loops and both reads look at.\<close>

fun outcome :: "'a overlapped \<Rightarrow> 'a sys" where
  "outcome (Immediate x) = Success x"
| "outcome (Refused e) = Failure e"
| "outcome (Pending r) = r"

definition dword :: "nat \<Rightarrow> nat" where
  "dword n = n mod 2 ^ 32"

section \<open>Serial devices\<close>

text \<open>The handle takes 0 as invalid; \<open>CreateFile\<close> returns \<open>INVALID_HANDLE_VALUE\<close> when it fails.\<close>

record serial =
  ser_handle :: int
  ser_closed :: "int list"

definition new_serial :: serial where
  "new_serial = \<lparr>ser_handle = 0, ser_closed = []\<rparr>"

definition serial_ok :: "serial \<Rightarrow> bool" where
  "serial_ok s \<longleftrightarrow> ser_handle s \<noteq> 0"

definition ser_close :: "serial \<Rightarrow> serial" where
  "ser_close s =
     (if ser_handle s \<noteq> 0 then s\<lparr>ser_handle := 0, ser_closed := ser_closed s @ [ser_handle s]\<rparr> else s)"

definition invalid_handle_value :: int where
  "invalid_handle_value = -1"

record dcb =
  baud_rate :: int
  byte_size :: int
  stop_bits :: int
  parity :: int

record timeouts =
  read_interval :: int
  read_constant :: int
  read_multiplier :: int
  write_constant :: int
  write_multiplier :: int

definition serial_config :: "dcb \<Rightarrow> dcb" where
  "serial_config c = c\<lparr>baud_rate := 9600, byte_size := 8, stop_bits := 0, parity := 0\<rparr>"

definition serial_timeouts :: timeouts where
  "serial_timeouts =
     \<lparr>read_interval = 50, read_constant = 220, read_multiplier = 10, write_constant = 100,
      write_multiplier = 10\<rparr>"

definition einval :: int where
  "einval = 22"

text \<open>
  \<open>create\<close>, with the calls in order; \<open>CreateFile\<close> gives its value and the last error. A failure after the
  device was opened closes the new handle, the object keeps its old one.
\<close>

definition serial_create ::
    "string \<Rightarrow> (string \<Rightarrow> int \<times> int) \<Rightarrow> (int \<Rightarrow> unit sys) \<Rightarrow> (int \<Rightarrow> unit sys) \<Rightarrow> (int \<Rightarrow> dcb sys) \<Rightarrow>
     (dcb \<Rightarrow> unit sys) \<Rightarrow> (timeouts \<Rightarrow> unit sys) \<Rightarrow> serial \<Rightarrow> error_code \<times> serial" where
  "serial_create device create_file completion_port notification get_state set_state set_timeouts s =
     (if device = [] then (make_error_code (Std_errc einval), s)
      else
        (let (h, last_error) = create_file ([CHR 0x5C, CHR 0x5C, CHR ''.'', CHR 0x5C] @ device)
         in if h = 0 then (errno_code last_error, s)
            else
              (let fail = (\<lambda>e. (errno_code e, s\<lparr>ser_closed := ser_closed s @ [h]\<rparr>))
               in case completion_port h of Failure e \<Rightarrow> fail e | Success _ \<Rightarrow>
                 (case notification h of Failure e \<Rightarrow> fail e | Success _ \<Rightarrow>
                   (case get_state h of Failure e \<Rightarrow> fail e | Success c \<Rightarrow>
                     (case set_state (serial_config c) of Failure e \<Rightarrow> fail e | Success _ \<Rightarrow>
                       (case set_timeouts serial_timeouts of Failure e \<Rightarrow> fail e | Success _ \<Rightarrow>
                          (no_error, (ser_close s)\<lparr>ser_handle := h\<rparr>))))))))"

text \<open>
  A device that opens ends up in the object or is closed, and the object loses its old device only to a
  new one.
\<close>

lemma serial_create_no_leak:
  assumes "serial_create device create_file port notification get_state set_state set_timeouts s = (ec, t)"
    and "device \<noteq> []" and "create_file ([CHR 0x5C, CHR 0x5C, CHR ''.'', CHR 0x5C] @ device) = (h, e)" and "h \<noteq> 0"
  shows "ser_handle t = h \<and> ser_closed t = ser_closed (ser_close s) \<or>
         ser_handle t = ser_handle s \<and> ser_closed t = ser_closed s @ [h]"
  using assms by (auto simp: serial_create_def Let_def split: sys.splits)

text \<open>
  That the device could not be opened goes unnoticed: the calls that follow are made on the invalid
  handle, which is closed in the end, and it is their error that is reported.
\<close>

lemma serial_open_failure_hidden:
  assumes "device \<noteq> []" and "create_file ([CHR 0x5C, CHR 0x5C, CHR ''.'', CHR 0x5C] @ device) = (invalid_handle_value, e)"
    and "port invalid_handle_value = Failure e'"
  shows "serial_create device create_file port notification get_state set_state set_timeouts s =
           (errno_code e', s\<lparr>ser_closed := ser_closed s @ [invalid_handle_value]\<rparr>)"
  using assms by (simp add: serial_create_def invalid_handle_value_def)

definition serial_recv :: "string overlapped \<Rightarrow> string \<times> error_code" where
  "serial_recv rc =
     (case rc of
        Immediate bytes \<Rightarrow> (bytes, no_error)
      | Refused e \<Rightarrow> ([], errno_code e)
      | Pending (Success bytes) \<Rightarrow> (bytes, no_error)
      | Pending (Failure e) \<Rightarrow> ([], errno_code e))"

text \<open>\<open>send\<close>: the device takes at most as many bytes as the 32-bit size it is given.\<close>

fun serial_send_loop ::
    "string \<Rightarrow> string \<Rightarrow> nat overlapped list \<Rightarrow> (string \<times> error_code) option" where
  "serial_send_loop data written [] = None"
| "serial_send_loop data written (rc # rs) =
     (case outcome rc of
        Failure e \<Rightarrow> Some (written, errno_code e)
      | Success bytes \<Rightarrow>
          if bytes = 0 then Some (written, no_error)
          else (let written = written @ take bytes data; data = drop bytes data
                in if data \<noteq> [] then serial_send_loop data written rs else Some (written, no_error)))"

definition serial_send :: "string \<Rightarrow> nat overlapped list \<Rightarrow> (string \<times> error_code) option" where
  "serial_send data rs = serial_send_loop data [] rs"

text \<open>
  \<open>default_device\<close>: \<open>QueryDosDevice\<close> gives names separated by null characters; the buffer grows while it
  is too small. The first name that matches is taken.
\<close>

definition error_insufficient_buffer :: int where
  "error_insufficient_buffer = 122"

fun query_devices :: "string sys list \<Rightarrow> string option option" where
  "query_devices [] = None"
| "query_devices (Success buffer # rs) = Some (Some buffer)"
| "query_devices (Failure e # rs) =
     (if e = error_insufficient_buffer then query_devices rs else Some None)"

function scan_devices :: "(string \<Rightarrow> bool) \<Rightarrow> string \<Rightarrow> string option" where
  "scan_devices match buffer =
     (if buffer = [] then None
      else (let str = takeWhile (\<lambda>c. c \<noteq> CHR 0x00) buffer
            in if match str then Some str
               else scan_devices match (drop (length str + 1) buffer)))"
  by auto
termination by (relation "measure (\<lambda>(_, buffer). length buffer)") auto

definition default_device :: "(string \<Rightarrow> bool) \<Rightarrow> string sys list \<Rightarrow> string option" where
  "default_device match rs =
     (case query_devices rs of
        None \<Rightarrow> None
      | Some None \<Rightarrow> Some ''COM1''
      | Some (Some buffer) \<Rightarrow>
          (case scan_devices match buffer of Some str \<Rightarrow> Some str | None \<Rightarrow> Some ''COM1''))"

section \<open>TCP on Windows\<close>

definition wsa_recv :: "string overlapped \<Rightarrow> string \<times> error_code" where
  "wsa_recv rc =
     (case rc of
        Immediate bytes \<Rightarrow> (bytes, no_error)
      | Refused e \<Rightarrow> ([], errno_code e)
      | Pending (Success bytes) \<Rightarrow> (bytes, no_error)
      | Pending (Failure e) \<Rightarrow> ([], errno_code e))"

text \<open>
  \<open>send\<close> works on a buffer whose length has 32 bits; it reports the size it was given less what is left
  in the buffer. The result: the bytes sent, the number reported, and the error code.
\<close>

fun wsa_send_loop ::
    "nat \<Rightarrow> string \<Rightarrow> string \<Rightarrow> nat overlapped list \<Rightarrow> (string \<times> nat \<times> error_code) option" where
  "wsa_send_loop given buffer sent [] = None"
| "wsa_send_loop given buffer sent (rc # rs) =
     (case outcome rc of
        Failure e \<Rightarrow> Some (sent, given - length buffer, errno_code e)
      | Success bytes \<Rightarrow>
          if bytes = 0 then Some (sent, given - length buffer, no_error)
          else (let sent = sent @ take bytes buffer; buffer = drop bytes buffer
                in if buffer \<noteq> [] then wsa_send_loop given buffer sent rs
                   else Some (sent, given - length buffer, no_error)))"

definition wsa_send :: "string \<Rightarrow> nat overlapped list \<Rightarrow> (string \<times> nat \<times> error_code) option" where
  "wsa_send data rs = wsa_send_loop (length data) (take (dword (length data)) data) [] rs"

section \<open>What the streams send\<close>

lemma serial_send_loop_prefix:
  "serial_send_loop data written rs = Some (sent, ec) \<Longrightarrow> \<exists>n. sent = written @ take n data"
proof (induction data written rs rule: serial_send_loop.induct)
  case (2 data written rc rs)
  have more: "\<exists>k. written @ take n data @ take m (drop n data) = written @ take k data" for m n
    by (intro exI [of _ "n + m"]) (simp add: take_add)
  show ?case
  proof (cases "outcome rc")
    case (Failure e)
    with 2(2) have "sent = written @ take 0 data" by simp
    then show ?thesis by blast
  next
    case (Success n)
    show ?thesis
    proof (cases "n = 0 \<or> drop n data = []")
      case True
      with 2(2) Success have "sent = written @ take (if n = 0 then 0 else n) data"
        by (auto split: if_splits)
      then show ?thesis by blast
    next
      case False
      with 2(2) Success have "serial_send_loop (drop n data) (written @ take n data) rs = Some (sent, ec)"
        by (simp add: Let_def split: if_splits)
      moreover have "n \<noteq> 0" "drop n data \<noteq> []" using False by simp_all
      ultimately obtain m where "sent = (written @ take n data) @ take m (drop n data)"
        using 2(1) [OF Success _ refl refl] by blast
      with more show ?thesis by simp
    qed
  qed
qed simp

interpretation serial: byte_stream serial_send
  by unfold_locales (auto simp: serial_send_def take_is_prefix dest!: serial_send_loop_prefix)

text \<open>The windows of the buffer and the count agree below 4 GiB.\<close>

lemma wsa_send_loop_count:
  "wsa_send_loop given buffer sent rs = Some (sent', count, ec) \<Longrightarrow>
   length sent + length buffer = given \<Longrightarrow> length sent' = count"
  by (induction given buffer sent rs rule: wsa_send_loop.induct)
     (auto simp: Let_def min_def split: sys.splits if_splits)

lemma wsa_send_count:
  "wsa_send data rs = Some (sent, count, ec) \<Longrightarrow> length data < 2 ^ 32 \<Longrightarrow> length sent = count"
  by (auto simp: wsa_send_def dword_def dest: wsa_send_loop_count)

text \<open>A larger buffer is reported as sent although only the remainder modulo 4 GiB was.\<close>

lemma wsa_send_overreports:
  assumes "length data = 2 ^ 32 + 5"
  shows "wsa_send data [Immediate 5] = Some (take 5 data, length data, no_error)"
proof -
  have "dword (length data) = 5" by (simp add: assms dword_def)
  then show ?thesis using assms by (simp add: wsa_send_def)
qed

end
