(* ===== verification/Endpoint.thy ===== *)
theory Endpoint
  imports Cpp_Strings System_Calls
begin

unbundle bit_operations_syntax

text \<open>
  Endpoints (\<open>ice/net/endpoint.cpp\<close>): an address in a storage that IPv4 and IPv6 addresses share, and
  the size that tells which of the two it is. \<open>inet_pton\<close> and \<open>inet_ntop\<close> are parameters.
\<close>

section \<open>Addresses\<close>

definition af_inet :: int where
  "af_inet = 2"

definition af_inet6 :: int where
  "af_inet6 = 10"

text \<open>Both kinds keep the family and the port, in network byte order, at the same place.\<close>

record endpoint =
  sa_family :: int
  sa_port :: "16 word"
  sa_addr :: string
  ep_size :: nat

definition sockaddr_in_size :: nat where
  "sockaddr_in_size = 16"

definition sockaddr_in6_size :: nat where
  "sockaddr_in6_size = 28"

definition endpoint_assign :: "endpoint \<Rightarrow> endpoint \<Rightarrow> endpoint" where
  "endpoint_assign this other =
     this\<lparr>sa_family := sa_family other, sa_port := sa_port other, sa_addr := sa_addr other,
          ep_size := ep_size other\<rparr>"

definition htons :: "16 word \<Rightarrow> 16 word" where
  "htons x = push_bit 8 x OR drop_bit 8 x"

definition ntohs :: "16 word \<Rightarrow> 16 word" where
  "ntohs x = push_bit 8 x OR drop_bit 8 x"

lemma ntohs_htons: "ntohs (htons x) = x"
proof (rule bit_eqI)
  fix n assume "possible_bit TYPE(16 word) n"
  then have "n < 16" by simp
  then show "bit (ntohs (htons x)) n \<longleftrightarrow> bit x n"
    by (cases "n < 8") (auto simp: ntohs_def htons_def bit_simps)
qed

section \<open>Operations\<close>

text \<open>\<open>inet_pton\<close> accepts the text with the address bytes, rejects it, or fails with an \<open>errno\<close>.\<close>

datatype pton_result = Pton_ok string | Pton_invalid | Pton_error int

definition c_str :: "string \<Rightarrow> string" where
  "c_str s = takeWhile (\<lambda>c. c \<noteq> CHR 0x00) s"

text \<open>
  \<open>create\<close>. The search \<open>host.find(":", 0, 5)\<close> takes five bytes from a literal of two: the colon, the
  null character, and three bytes behind the literal, the parameter \<open>beyond\<close>.
\<close>

definition endpoint_create ::
    "(int \<Rightarrow> string \<Rightarrow> pton_result) \<Rightarrow> string \<Rightarrow> string \<Rightarrow> 16 word \<Rightarrow> endpoint \<Rightarrow>
     error_code \<times> endpoint" where
  "endpoint_create inet_pton beyond host port ep =
     (let (family, size) =
            (if find_block host ([CHR '':'', CHR 0x00] @ beyond) = None
             then (af_inet, sockaddr_in_size) else (af_inet6, sockaddr_in6_size));
          ep = ep\<lparr>sa_family := family, sa_port := htons port, ep_size := size\<rparr>
      in case inet_pton family (c_str host) of
           Pton_ok bytes \<Rightarrow> (no_error, ep\<lparr>sa_addr := bytes\<rparr>)
         | Pton_error e \<Rightarrow> (errno_code e, ep\<lparr>ep_size := 0\<rparr>)
         | Pton_invalid \<Rightarrow> (make_error_code (Ice_errc Invalid_address), ep\<lparr>ep_size := 0\<rparr>))"

definition endpoint_family :: "endpoint \<Rightarrow> int" where
  "endpoint_family ep =
     (if ep_size ep = sockaddr_in_size then af_inet
      else if ep_size ep = sockaddr_in6_size then af_inet6 else 0)"

definition endpoint_port :: "endpoint \<Rightarrow> 16 word" where
  "endpoint_port ep =
     (if ep_size ep = sockaddr_in_size then ntohs (sa_port ep)
      else if ep_size ep = sockaddr_in6_size then ntohs (sa_port ep) else 0)"

definition endpoint_host :: "(int \<Rightarrow> string \<Rightarrow> string option) \<Rightarrow> endpoint \<Rightarrow> string" where
  "endpoint_host inet_ntop ep =
     (if ep_size ep = sockaddr_in_size
      then (case inet_ntop af_inet (sa_addr ep) of None \<Rightarrow> [] | Some s \<Rightarrow> c_str s)
      else if ep_size ep = sockaddr_in6_size
      then (case inet_ntop af_inet6 (sa_addr ep) of None \<Rightarrow> [] | Some s \<Rightarrow> c_str s)
      else [])"

definition endpoint_clear :: "endpoint \<Rightarrow> endpoint" where
  "endpoint_clear ep = ep\<lparr>ep_size := 0\<rparr>"

section \<open>Properties\<close>

lemmas endpoint_defs =
  endpoint_create_def endpoint_family_def endpoint_port_def endpoint_host_def sockaddr_in_size_def
  sockaddr_in6_size_def

text \<open>
  C36: A created endpoint gives back its port in host byte order, its family, and the text that
  \<open>inet_ntop\<close> makes of the address \<open>inet_pton\<close> found; a failed one is empty. But no host without a null
  character, so no IPv6 address, is ever taken for IPv6: the search pattern contains one.
\<close>

theorem endpoint_round_trip:
  assumes "endpoint_create pton beyond host port ep = (ec, ep')" and "CHR 0x00 \<notin> set host"
  shows "(case pton af_inet (c_str host) of
            Pton_ok bytes \<Rightarrow>
              ec = no_error \<and> endpoint_port ep' = port \<and> endpoint_family ep' = af_inet \<and>
              (\<forall>ntop. endpoint_host ntop ep' =
                 (case ntop af_inet bytes of None \<Rightarrow> [] | Some s \<Rightarrow> c_str s))
          | Pton_error e \<Rightarrow> ec = errno_code e \<and> endpoint_family ep' = 0 \<and> endpoint_port ep' = 0
          | Pton_invalid \<Rightarrow>
              ec = make_error_code (Ice_errc Invalid_address) \<and> endpoint_family ep' = 0 \<and>
              endpoint_port ep' = 0)"
proof -
  have "find_block host ([CHR '':'', CHR 0x00] @ beyond) = None"
    using assms(2) by (intro find_block_None) auto
  with assms(1) show ?thesis
    by (auto simp: endpoint_defs ntohs_htons split: pton_result.splits)
qed

text \<open>A cleared endpoint keeps its address but shows nothing of it; setting the size again would.\<close>

lemma endpoint_cleared:
  "endpoint_family (endpoint_clear ep) = 0" "endpoint_port (endpoint_clear ep) = 0"
  "endpoint_host ntop (endpoint_clear ep) = []"
  "endpoint_clear ep\<lparr>ep_size := ep_size ep\<rparr> = ep"
  by (simp_all add: endpoint_clear_def endpoint_defs)

text \<open>An \<open>inet_pton\<close> that knows one address of each family.\<close>

definition pton_loopback :: "int \<Rightarrow> string \<Rightarrow> pton_result" where
  "pton_loopback family s =
     (if family = af_inet \<and> s = ''127.0.0.1'' then Pton_ok [CHR 0x7F, CHR 0x00, CHR 0x00, CHR 0x01]
      else if family = af_inet6 \<and> s = ''::1'' then Pton_ok (replicate 15 (CHR 0x00) @ [CHR 0x01])
      else Pton_invalid)"

text \<open>An endpoint with the empty storage zeroed.\<close>

definition blank_endpoint :: endpoint where
  "blank_endpoint = \<lparr>sa_family = 0, sa_port = 0, sa_addr = [], ep_size = 0\<rparr>"

theorem endpoint_round_trip_witness:
  "endpoint_port (snd (endpoint_create pton_loopback [] ''127.0.0.1'' 8080 blank_endpoint)) = 8080 \<and>
   fst (endpoint_create pton_loopback [] ''::1'' 8080 blank_endpoint) = make_error_code (Ice_errc Invalid_address)"
proof -
  have "fst (endpoint_create pton_loopback [] ''::1'' 8080 blank_endpoint) =
      make_error_code (Ice_errc Invalid_address)"
    using endpoint_round_trip [of pton_loopback "[]" "''::1''" 8080 blank_endpoint, OF prod.collapse [symmetric]]
    by (simp add: pton_loopback_def c_str_def af_inet_def af_inet6_def)
  moreover have "endpoint_port (snd (endpoint_create pton_loopback [] ''127.0.0.1'' 8080 blank_endpoint)) = 8080"
    using endpoint_round_trip [of pton_loopback "[]" "''127.0.0.1''" 8080 blank_endpoint, OF prod.collapse [symmetric]]
    by (simp add: pton_loopback_def c_str_def)
  ultimately show ?thesis by simp
qed

section \<open>Text\<close>

text \<open>The formatter: host and port with a colon, also when the host contains colons itself.\<close>

definition endpoint_format :: "(int \<Rightarrow> string \<Rightarrow> string option) \<Rightarrow> (nat \<Rightarrow> string) \<Rightarrow> endpoint \<Rightarrow> string" where
  "endpoint_format inet_ntop number ep =
     endpoint_host inet_ntop ep @ '':'' @ number (unat (endpoint_port ep))"

text \<open>The host can be told from the port where numbers hold no colon: behind the last one.\<close>

lemma endpoint_format_port:
  assumes "\<And>n. CHR '':'' \<notin> set (number n)"
  shows "rev (takeWhile (\<lambda>c. c \<noteq> CHR '':'') (rev (endpoint_format ntop number ep))) =
         number (unat (endpoint_port ep))"
proof -
  have "takeWhile (\<lambda>c. c \<noteq> CHR '':'') (rev (number n) @ CHR '':'' # xs) = rev (number n)" for n xs
    using assms [of n] by (subst takeWhile_append2) auto
  then show ?thesis by (simp add: endpoint_format_def)
qed

end
