(* ===== verification/Tcp_Platforms.thy ===== *)
theory Tcp_Platforms
  imports Tcp_Socket Overlapped_Streams Endpoint
begin

text \<open>
  What sockets (\<open>ice/net/socket.cpp\<close>) and TCP sockets (\<open>ice/net/tcp/socket.cpp\<close>) do otherwise on Windows
  and on FreeBSD: creating, accepting and connecting. On Windows the value -1 stands for
  \<open>INVALID_SOCKET\<close>. The name of a socket is the same code on all platforms.
\<close>

section \<open>Sockets\<close>

text \<open>
  \<open>create\<close> on Windows: a socket that cannot be registered with the completion port is closed, and the
  object keeps the socket it had.
\<close>

definition wsa_create :: "int sys \<Rightarrow> unit sys \<Rightarrow> unit sys \<Rightarrow> socket \<Rightarrow> error_code \<times> socket" where
  "wsa_create rc completion_port notification s =
     (case rc of
        Failure e \<Rightarrow> (errno_code e, s)
      | Success handle \<Rightarrow>
          (let fail = (\<lambda>e. (errno_code e, s\<lparr>sock_closed := sock_closed s @ [handle]\<rparr>))
           in case completion_port of Failure e \<Rightarrow> fail e | Success _ \<Rightarrow>
             (case notification of Failure e \<Rightarrow> fail e | Success _ \<Rightarrow>
                (no_error, (socket_close s)\<lparr>sock_handle := handle\<rparr>))))"

definition wsa_bind :: "unit sys \<Rightarrow> error_code" where
  "wsa_bind rc = (case rc of Failure e \<Rightarrow> errno_code e | Success _ \<Rightarrow> no_error)"

text \<open>
  \<open>shutdown\<close>, \<open>get\<close>, \<open>set\<close> and the close functor on Windows; none repeats an interrupted call. The protocol is
  a field of the structure that the system describes it by.
\<close>

fun wsa_shutdown_value :: "shutdown \<Rightarrow> int" where
  "wsa_shutdown_value Shut_recv = 0"
| "wsa_shutdown_value Shut_send = 1"
| "wsa_shutdown_value Shut_both = 2"

definition wsa_shutdown :: "(int \<Rightarrow> unit sys) \<Rightarrow> shutdown \<Rightarrow> error_code" where
  "wsa_shutdown call direction =
     (let value = wsa_shutdown_value direction
      in case call value of Failure e \<Rightarrow> errno_code e | Success _ \<Rightarrow> no_error)"

definition wsa_get :: "'a sys \<Rightarrow> 'a \<Rightarrow> error_code \<times> 'a" where
  "wsa_get rc data = (case rc of Failure e \<Rightarrow> (errno_code e, data) | Success v \<Rightarrow> (no_error, v))"

definition wsa_set :: "unit sys \<Rightarrow> error_code" where
  "wsa_set rc = (case rc of Failure e \<Rightarrow> errno_code e | Success _ \<Rightarrow> no_error)"

record wsa_protocol_info =
  i_protocol :: int

definition wsa_protocol :: "wsa_protocol_info sys \<Rightarrow> int" where
  "wsa_protocol rc =
     (let (ec, data) = wsa_get rc \<lparr>i_protocol = 0\<rparr> in if failed ec then 0 else i_protocol data)"

text \<open>A program sees no difference from the other platforms: they are given the same and answer the same.\<close>

lemma wsa_socket_calls:
  "wsa_shutdown = socket_shutdown"
  "wsa_get = socket_get"
  "wsa_set = socket_set"
  "wsa_protocol rc = socket_protocol (case rc of Failure e \<Rightarrow> Failure e | Success d \<Rightarrow> Success (i_protocol d))"
proof -
  have "wsa_shutdown_value = shutdown_value" by (rule ext, case_tac x) simp_all
  then show "wsa_shutdown = socket_shutdown" by (simp add: fun_eq_iff wsa_shutdown_def socket_shutdown_def Let_def)
  show "(wsa_get :: 'a sys \<Rightarrow> 'a \<Rightarrow> error_code \<times> 'a) = socket_get" by (simp add: fun_eq_iff wsa_get_def socket_get_def)
  show "wsa_set = socket_set" by (simp add: fun_eq_iff wsa_set_def socket_set_def)
  show "wsa_protocol rc = socket_protocol (case rc of Failure e \<Rightarrow> Failure e | Success d \<Rightarrow> Success (i_protocol d))"
    by (cases rc) (simp_all add: wsa_protocol_def socket_protocol_def wsa_get_def socket_get_def)
qed

text \<open>
  \<open>name\<close>: \<open>getsockname\<close> is given the capacity of the storage. The empty endpoint it returns on an error
  is value-initialised.
\<close>

definition endpoint_capacity :: nat where
  "endpoint_capacity = 128"

definition socket_name :: "(nat \<Rightarrow> endpoint sys) \<Rightarrow> endpoint" where
  "socket_name getsockname =
     (case getsockname endpoint_capacity of Failure e \<Rightarrow> blank_endpoint | Success ep \<Rightarrow> ep)"

section \<open>Accepting on Windows\<close>

definition wsaeconnreset :: int where
  "wsaeconnreset = 10054"

definition win_af_inet6 :: int where
  "win_af_inet6 = 23"

text \<open>The address of the peer as \<open>AcceptEx\<close> leaves it in the second half of the buffer.\<close>

record peer =
  peer_family :: int
  peer_port :: "16 word"
  peer_addr :: string

text \<open>The loop: a connection that was reset before it was accepted is passed over.\<close>

fun accept_ex :: "peer overlapped list \<Rightarrow> peer option option" where
  "accept_ex [] = None"
| "accept_ex (rc # rs) =
     (case outcome rc of
        Success p \<Rightarrow> Some (Some p)
      | Failure e \<Rightarrow> if e \<noteq> wsaeconnreset then Some None else accept_ex rs)"

definition store_peer :: "peer \<Rightarrow> endpoint \<Rightarrow> endpoint" where
  "store_peer p ep =
     (if peer_family p = af_inet
      then ep\<lparr>sa_family := peer_family p, sa_port := peer_port p, sa_addr := peer_addr p,
              ep_size := sockaddr_in_size\<rparr>
      else if peer_family p = win_af_inet6
      then ep\<lparr>sa_family := peer_family p, sa_port := peer_port p, sa_addr := peer_addr p,
              ep_size := sockaddr_in6_size\<rparr>
      else ep)"

text \<open>
  \<open>accept\<close>: the socket it returns, all sockets that were closed, and the endpoint. The client lives in
  the frame of the coroutine; it is moved into the result or destroyed with the frame.
\<close>

definition wsa_accept ::
    "socket \<Rightarrow> int sys \<Rightarrow> (int \<Rightarrow> int \<Rightarrow> int sys) \<Rightarrow> unit sys \<Rightarrow> unit sys \<Rightarrow> peer overlapped list \<Rightarrow> endpoint \<Rightarrow>
     (socket \<times> int list \<times> endpoint) option" where
  "wsa_accept server protocol_info wsa_socket completion_port notification rs ep =
     (let (ec, client) =
            wsa_create (wsa_socket (family server) (socket_protocol protocol_info)) completion_port
              notification new_socket
      in if failed ec then Some (new_socket, sock_closed (socket_close client), ep)
         else (case accept_ex rs of
                 None \<Rightarrow> None
               | Some None \<Rightarrow> Some (new_socket, sock_closed (socket_close client), ep)
               | Some (Some p) \<Rightarrow>
                   Some (new_socket\<lparr>sock_handle := sock_handle client\<rparr>,
                         sock_closed (socket_close (client\<lparr>sock_handle := -1\<rparr>)), store_peer p ep)))"

section \<open>Connecting\<close>

text \<open>
  On Windows the function \<open>ConnectEx\<close> is looked up once, with a socket of its own that is closed again.
  Then \<open>connect\<close> binds the socket to the IPv4 address zero and connects.
\<close>

record connect_ex =
  cx_ec :: error_code
  cx_function :: bool
  cx_closed :: "int list"

definition new_connect_ex :: "int sys \<Rightarrow> unit sys \<Rightarrow> connect_ex" where
  "new_connect_ex socket ioctl =
     (case socket of
        Failure e \<Rightarrow> \<lparr>cx_ec = errno_code e, cx_function = False, cx_closed = []\<rparr>
      | Success handle \<Rightarrow>
          (case ioctl of
             Failure e \<Rightarrow> \<lparr>cx_ec = errno_code e, cx_function = False, cx_closed = [handle]\<rparr>
           | Success _ \<Rightarrow> \<lparr>cx_ec = no_error, cx_function = True, cx_closed = [handle]\<rparr>))"

definition inaddr_any :: endpoint where
  "inaddr_any =
     \<lparr>sa_family = af_inet, sa_port = 0, sa_addr = replicate 4 (CHR 0x00), ep_size = sockaddr_in_size\<rparr>"

definition wsa_connect ::
    "connect_ex \<Rightarrow> (endpoint \<Rightarrow> unit sys) \<Rightarrow> (endpoint \<Rightarrow> unit overlapped) \<Rightarrow> endpoint \<Rightarrow> error_code option" where
  "wsa_connect connect bind_call connect_call ep =
     (if failed (cx_ec connect) then Some (cx_ec connect)
      else case bind_call inaddr_any of
             Failure e \<Rightarrow> Some (errno_code e)
           | Success _ \<Rightarrow>
               if \<not> cx_function connect then None
               else (case connect_call ep of
                       Immediate _ \<Rightarrow> Some no_error
                     | Refused e \<Rightarrow> Some (errno_code e)
                     | Pending (Success _) \<Rightarrow> Some no_error
                     | Pending (Failure e) \<Rightarrow> Some (errno_code e)))"

text \<open>FreeBSD: an interrupted \<open>connect\<close> goes on in the background and is waited for.\<close>

definition freebsd_connect :: "unit sys \<Rightarrow> error_code \<Rightarrow> int sys \<Rightarrow> error_code" where
  "freebsd_connect rc wait so_error =
     (case rc of
        Success _ \<Rightarrow> no_error
      | Failure e \<Rightarrow>
          if e \<noteq> einprogress \<and> e \<noteq> eintr then errno_code e
          else if failed wait then wait
          else (let (ec, code) = socket_get so_error 0
                in if failed ec then ec else if code \<noteq> 0 then errno_code code else no_error))"

section \<open>Properties\<close>

text \<open>
  The socket that \<open>accept\<close> makes for the client is returned or closed, never both: after any run there
  is exactly one of them, if a socket was made at all.
\<close>

lemma wsa_accept_no_leak:
  assumes "wsa_accept server info wsa_socket port notif rs ep = Some (client, gone, ep')"
    and "wsa_socket (family server) (socket_protocol info) = Success h" and "h \<noteq> -1"
    and "\<And>e. port = Failure e \<or> notif = Failure e \<Longrightarrow> failed (errno_code e)"
  shows "sock_handle client = h \<and> gone = [] \<or> sock_handle client = -1 \<and> gone = [h] \<and> ep' = ep"
proof -
  have failing: "failed (errno_code e)" if "port = Failure e \<or> notif = Failure e" for e
    using that by (rule assms(4))
  show ?thesis
    using assms(1-3) failing
    by (cases port; cases notif)
       (auto simp: wsa_accept_def wsa_create_def new_socket_def socket_close_def hvalid_def Let_def
         split: option.splits if_splits)
qed

text \<open>Resets of waiting clients are passed over; the first other answer decides.\<close>

lemma accept_ex_result:
  assumes "\<forall>rc \<in> set rs. outcome rc = Failure wsaeconnreset"
    and "outcome rc \<noteq> Failure wsaeconnreset"
  shows "accept_ex (rs @ rc # rest) =
         Some (case outcome rc of Success p \<Rightarrow> Some p | Failure e \<Rightarrow> None)"
  using assms by (induction rs) (auto split: sys.split)

text \<open>
  Since no operation sets the family of a socket, the client is created without a family, whatever the
  family of the server is.
\<close>

lemma wsa_accept_family:
  assumes "family server = 0" and "\<And>protocol. f 0 protocol = g 0 protocol"
  shows "wsa_accept server info f port notif rs ep = wsa_accept server info g port notif rs ep"
  using assms by (simp add: wsa_accept_def)

text \<open>
  \<open>connect\<close> binds to an IPv4 address also for an IPv6 endpoint; on a socket where that fails, as Windows
  documents it for IPv6 sockets, nothing connects.
\<close>

lemma wsa_connect_ipv6:
  assumes "bind_call inaddr_any = Failure e" and "\<not> failed (cx_ec connect)"
  shows "wsa_connect connect bind_call connect_call ep = Some (errno_code e)"
  using assms by (simp add: wsa_connect_def)

text \<open>The lookup of \<open>ConnectEx\<close> leaks nothing, and without an error the function was found.\<close>

lemma new_connect_ex_safe:
  "(socket = Success h \<longrightarrow> cx_closed (new_connect_ex socket ioctl) = [h]) \<and>
   (cx_ec (new_connect_ex socket ioctl) = no_error \<longrightarrow> cx_function (new_connect_ex socket ioctl))"
  by (auto simp: new_connect_ex_def errno_code_def no_error_def split: sys.split)

text \<open>With the same answers, FreeBSD and Linux connect alike where \<open>connect\<close> is not interrupted.\<close>

lemma freebsd_connect_alike:
  assumes "rc \<noteq> Failure eintr"
  shows "tcp_connect (rc # rs) (Some wait) so_error = Some (freebsd_connect rc wait so_error)"
  using assms by (cases rc) (auto simp: freebsd_connect_def Let_def split: prod.split)

end
