(* ===== verification/Socket_Options.thy ===== *)
theory Socket_Options
  imports Prelude
begin

text \<open>
  Socket options (\<open>ice/net/option.hpp\<close> and \<open>option.cpp\<close>): values of flags and sizes, the linger time,
  and the level and name each option is set under on Linux.
\<close>

section \<open>Values\<close>

text \<open>An option holds an \<open>int\<close> and the size of the data it passes to the system.\<close>

record option_value =
  opt_value :: int
  opt_size :: nat

definition option_capacity :: nat where
  "option_capacity = 4"

definition option_of_bool :: "bool \<Rightarrow> option_value" where
  "option_of_bool value = \<lparr>opt_value = (if value then 1 else 0), opt_size = option_capacity\<rparr>"

definition option_get_bool :: "option_value \<Rightarrow> bool" where
  "option_get_bool opt = (opt_value opt \<noteq> 0)"

definition option_of_size :: "int \<Rightarrow> option_value" where
  "option_of_size value =
     \<lparr>opt_value = (if value > int_max then int_max else cast_int value), opt_size = option_capacity\<rparr>"

definition option_get_size :: "option_value \<Rightarrow> int" where
  "option_get_size opt = (if opt_value opt > 0 then opt_value opt else 0)"

text \<open>\<open>linger\<close>: a switch and a time in seconds; the constructor does not set the size.\<close>

record linger =
  l_onoff :: int
  l_linger :: int
  linger_opt_size :: nat

definition linger_capacity :: nat where
  "linger_capacity = 8"

definition linger_of :: "int option \<Rightarrow> linger" where
  "linger_of timeout =
     (let data = \<lparr>l_onoff = 0, l_linger = 0, linger_opt_size = 0\<rparr>
      in case timeout of
           None \<Rightarrow> data
         | Some count \<Rightarrow>
             (let data = data\<lparr>l_onoff := 1\<rparr>;
                  data = (if count < int_min then data\<lparr>l_linger := 0\<rparr> else data);
                  data = (if count > int_max then data\<lparr>l_linger := int_max\<rparr> else data)
              in data\<lparr>l_linger := cast_int count\<rparr>))"

definition linger_get :: "linger \<Rightarrow> int option" where
  "linger_get data = (if l_onoff data \<noteq> 0 then Some (l_linger data) else None)"

section \<open>Levels and names\<close>

datatype option_kind =
    Broadcast
  | Do_not_route
  | Keep_alive
  | Linger
  | No_delay
  | Recv_buffer_size
  | Send_buffer_size
  | Recv_low_watermark
  | Send_low_watermark
  | Reuse_address

definition sol_socket :: int where
  "sol_socket = 1"

definition ipproto_tcp :: int where
  "ipproto_tcp = 6"

definition so_debug :: int where
  "so_debug = 1"

fun option_level :: "option_kind \<Rightarrow> int" where
  "option_level No_delay = sol_socket"
| "option_level _ = sol_socket"

fun option_name :: "option_kind \<Rightarrow> int" where
  "option_name Broadcast = 6"
| "option_name Do_not_route = 5"
| "option_name Keep_alive = 9"
| "option_name Linger = 13"
| "option_name No_delay = 1"
| "option_name Recv_buffer_size = 8"
| "option_name Send_buffer_size = 7"
| "option_name Recv_low_watermark = 18"
| "option_name Send_low_watermark = 19"
| "option_name Reuse_address = 2"

section \<open>Properties\<close>

text \<open>
  Flags come back as they were, sizes up to the largest \<open>int\<close> come back as they were and larger
  ones as the largest \<open>int\<close>, and the size passed to the system is the capacity. The linger time is not
  clamped like this: its limits are overwritten, the time wraps around at 32 bits.
\<close>

theorem option_values_round_trip:
  assumes "0 \<le> n" and "n \<le> size_max"
  shows "option_get_bool (option_of_bool b) = b \<and>
         option_get_size (option_of_size n) = min n int_max \<and>
         opt_size (option_of_size n) = option_capacity \<and>
         linger_get (linger_of t) = map_option cast_int t"
proof -
  have "option_get_size (option_of_size n) = min n int_max"
  proof (cases "n > int_max")
    case True
    then show ?thesis by (simp add: option_get_size_def option_of_size_def int_max_def)
  next
    case False
    then have "cast_int n = n" using assms by (intro cast_int_id) (auto simp: int_min_def)
    with False assms show ?thesis by (simp add: option_get_size_def option_of_size_def)
  qed
  then show ?thesis
    by (cases t) (simp_all add: option_get_bool_def option_of_bool_def option_of_size_def linger_get_def
        linger_of_def Let_def)
qed

theorem option_values_round_trip_witness:
  "option_get_size (option_of_size 5000000000) = int_max \<and>
   linger_get (linger_of (Some 4294967296)) = Some 0"
proof -
  have "option_get_size (option_of_size 5000000000) = min 5000000000 int_max \<and>
      linger_get (linger_of (Some 4294967296)) = map_option cast_int (Some 4294967296)"
    using option_values_round_trip [of 5000000000 True "Some 4294967296"] by (simp add: size_max_def)
  then show ?thesis
    by (simp add: int_max_def cast_int_def signed_take_bit_eq_take_bit_shift take_bit_eq_mod)
qed

text \<open>
  On Linux the option for Nagle's algorithm names \<open>SO_DEBUG\<close>: its level is that of sockets, and its
  number at that level means something else. Linger options pass no data at all to the system.
\<close>

lemma no_delay_is_debug: "option_level No_delay \<noteq> ipproto_tcp \<and>
    (option_level No_delay, option_name No_delay) = (sol_socket, so_debug)"
  by (simp add: sol_socket_def ipproto_tcp_def so_debug_def)

lemma linger_size_unset: "linger_opt_size (linger_of t) = 0 \<and> linger_capacity \<noteq> 0"
  by (simp add: linger_of_def Let_def linger_capacity_def split: option.split)

lemma option_keys_distinct:
  "option_level k = option_level k' \<Longrightarrow> option_name k = option_name k' \<Longrightarrow> k = k'"
  by (cases k; cases k') simp_all

end
