(* ===== verification/Net_Event.thy ===== *)
theory Net_Event
  imports Rendezvous System_Calls
begin

text \<open>
  The events of \<open>ice/net/event.hpp\<close> that coroutines await for the completion of a call: on Windows a
  meeting of the awaiting coroutine and the completion port, on Linux a registration of a descriptor
  with epoll for one notification.
\<close>

section \<open>Windows\<close>

record win_event =
  ready :: bool
  win_awaiter :: addr

definition new_win_event :: win_event where
  "new_win_event = \<lparr>ready = False, win_awaiter = 0\<rparr>"

text \<open>\<open>await_suspend\<close> stores the awaiter and exchanges \<open>ready_\<close>; if it was set, it resumes at once.\<close>

definition set_awaiter :: "addr \<Rightarrow> win_event \<Rightarrow> win_event" where
  "set_awaiter awaiter ev = ev\<lparr>win_awaiter := awaiter\<rparr>"

definition exchange_ready :: "win_event \<Rightarrow> bool \<times> win_event" where
  "exchange_ready ev = (\<not> ready ev, ev\<lparr>ready := True\<rparr>)"

definition win_event_resume :: "win_event \<Rightarrow> addr option \<times> win_event" where
  "win_event_resume ev = (if ready ev then Some (win_awaiter ev) else None, ev\<lparr>ready := True\<rparr>)"

interpretation overlapped: rendezvous set_awaiter exchange_ready win_event_resume ready win_awaiter
  by unfold_locales (simp_all add: set_awaiter_def exchange_ready_def win_event_resume_def)

text \<open>
  A coroutine that awaits an overlapped event runs on exactly once, whether the completion comes
  before, between or after its two accesses; it stays suspended only if the completion is last.
\<close>

theorem event_resumes_once:
  assumes "\<not> ready ev" and "ms \<in> shuffles [Leave, Wait] [Finish]"
  shows "run_on (overlapped.play awaiter ev ms) = [awaiter] \<and>
         (suspended (overlapped.play awaiter ev ms) \<longleftrightarrow> ms = [Leave, Wait, Finish])"
  using overlapped.runs_on_once [OF assms] overlapped.suspended_iff_first [OF assms] by simp

theorem event_resumes_once_witness:
  "run_on (overlapped.play 5 new_win_event [Leave, Finish, Wait]) = [5]"
proof -
  have "\<not> ready new_win_event" by (simp add: new_win_event_def)
  moreover have "[Leave, Finish, Wait] \<in> shuffles [Leave, Wait] [Finish]" by simp
  ultimately show ?thesis using event_resumes_once by blast
qed

section \<open>Linux\<close>

record event =
  ev_awaiter :: addr
  ev_ec :: error_code

definition new_event :: event where
  "new_event = \<lparr>ev_awaiter = 0, ev_ec = no_error\<rparr>"

text \<open>
  \<open>await_suspend\<close>, on the result of the registration: whether the coroutine stays suspended. \<open>resume\<close>,
  on the result of the removal, resumes the awaiter, who then sees the error code.
\<close>

definition event_await_suspend :: "addr \<Rightarrow> unit sys \<Rightarrow> event \<Rightarrow> bool \<times> event" where
  "event_await_suspend awaiter add ev =
     (let ev = ev\<lparr>ev_awaiter := awaiter\<rparr>
      in case add of
           Failure e \<Rightarrow> (False, ev\<lparr>ev_ec := errno_code e\<rparr>)
         | Success _ \<Rightarrow> (True, ev))"

definition event_resume :: "unit sys \<Rightarrow> event \<Rightarrow> addr \<times> event" where
  "event_resume del ev =
     (let ev = (case del of Failure e \<Rightarrow> ev\<lparr>ev_ec := errno_code e\<rparr> | Success _ \<Rightarrow> ev)
      in (ev_awaiter ev, ev))"

definition event_await_resume :: "event \<Rightarrow> error_code" where
  "event_await_resume ev = ev_ec ev"

text \<open>What \<open>co_await event{...}\<close> gives, once it is resumed or at once when the registration failed.\<close>

definition await_event :: "addr \<Rightarrow> unit sys \<Rightarrow> unit sys \<Rightarrow> error_code" where
  "await_event awaiter add del =
     (let (stays, ev) = event_await_suspend awaiter add new_event
      in event_await_resume (if stays then snd (event_resume del ev) else ev))"

lemma await_event_result:
  "await_event awaiter add del =
     (case add of Failure e \<Rightarrow> errno_code e
      | Success _ \<Rightarrow> (case del of Failure e \<Rightarrow> errno_code e | Success _ \<Rightarrow> no_error))"
  by (simp add: await_event_def event_await_suspend_def event_resume_def event_await_resume_def
      new_event_def split: sys.split)

lemma event_resumes_awaiter:
  "event_await_suspend awaiter add ev = (True, ev') \<Longrightarrow> fst (event_resume del ev') = awaiter"
  by (auto simp: event_await_suspend_def event_resume_def Let_def split: sys.splits)

section \<open>FreeBSD\<close>

text \<open>
  With kqueue the registration is the same, and it is gone once it was reported: \<open>resume\<close> has nothing to
  remove.
\<close>

definition kevent_await_suspend :: "addr \<Rightarrow> unit sys \<Rightarrow> event \<Rightarrow> bool \<times> event" where
  "kevent_await_suspend awaiter add ev =
     (let ev = ev\<lparr>ev_awaiter := awaiter\<rparr>
      in case add of
           Failure e \<Rightarrow> (False, ev\<lparr>ev_ec := errno_code e\<rparr>)
         | Success _ \<Rightarrow> (True, ev))"

definition kevent_resume :: "event \<Rightarrow> addr" where
  "kevent_resume ev = ev_awaiter ev"

text \<open>So a registered wait resumes its awaiter without an error, where epoll can still fail to remove it.\<close>

lemma kevent_result:
  assumes "kevent_await_suspend awaiter add new_event = (stays, ev)"
  shows "event_await_resume ev = (case add of Failure e \<Rightarrow> errno_code e | Success _ \<Rightarrow> no_error)"
    and "stays \<Longrightarrow> kevent_resume ev = awaiter"
    and "add = Success () \<longleftrightarrow> stays"
  using assms
  by (auto simp: kevent_await_suspend_def event_await_resume_def new_event_def kevent_resume_def Let_def
      split: sys.splits)

end
