(* ===== verification/Event_Loop.thy ===== *)
theory Event_Loop
  imports Net_Event Tcp_Socket
begin

text \<open>
  Sockets, events and the service together, on Linux: coroutines in \<open>recv\<close> and \<open>send\<close> of
  \<open>ice/net/tcp/socket.cpp\<close> make calls, register descriptors with epoll (\<open>ice/net/event.hpp\<close>) when a call
  would block, and are resumed by the thread in \<open>run\<close> of \<open>ice/net/service.cpp\<close>. One step is one system
  call, with what its documentation promises; coroutines may run on any thread. Interruptions of the
  service are left to its own theory. A descriptor names one socket throughout: numbers of closed
  sockets are not used again.
\<close>

section \<open>Coroutines\<close>

text \<open>
  Where a coroutine is: not in an operation; before the call; before \<open>co_await event\<close>; suspended with
  its event; returned. \<open>Send\<close> has \<open>errno\<close>, what is left of the data, and what was sent.
\<close>

datatype io_op = Recv | Send int string string

datatype io_result = Received string error_code | Sent string error_code

datatype io_point =
    Io_idle
  | Io_call io_op int
  | Io_register io_op int
  | Io_await io_op int event
  | Io_done io_result

text \<open>Ghost fields: the answers of the calls and waits of the operation, and how it was started.\<close>

record io =
  io_at :: io_point
  io_reads :: "string sys list"
  io_writes :: "nat sys list"
  io_waits :: "(error_code \<times> int) list"
  io_errno :: int
  io_data :: string

definition new_io :: "io_point \<Rightarrow> int \<Rightarrow> string \<Rightarrow> io" where
  "new_io p errno data =
     \<lparr>io_at = p, io_reads = [], io_writes = [], io_waits = [], io_errno = errno, io_data = data\<rparr>"

text \<open>The code after \<open>read\<close>, after \<open>write\<close>, and after the wait.\<close>

definition after_read :: "int \<Rightarrow> string sys \<Rightarrow> io_point" where
  "after_read fd rc =
     (case rc of
        Success bytes \<Rightarrow> Io_done (Received bytes no_error)
      | Failure e \<Rightarrow>
          if e = eintr then Io_call Recv fd
          else if e \<noteq> eagain then Io_done (Received [] (errno_code e))
          else Io_register Recv fd)"

definition after_write :: "int \<Rightarrow> int \<Rightarrow> string \<Rightarrow> string \<Rightarrow> nat sys \<Rightarrow> io_point" where
  "after_write fd errno data sent rc =
     (if rc = Success 0 then Io_done (Sent sent no_error)
      else (let (errno, data, sent) =
                  (case rc of
                     Success n \<Rightarrow> (errno, drop n data, sent @ take n data)
                   | Failure e \<Rightarrow> (e, data, sent))
            in if errno = eintr
               then (if data \<noteq> [] then Io_call (Send errno data sent) fd else Io_done (Sent sent no_error))
               else if errno \<noteq> eagain then Io_done (Sent sent (errno_code errno))
               else Io_register (Send errno data sent) fd))"

fun after_wait :: "int \<Rightarrow> io_op \<Rightarrow> error_code \<Rightarrow> int \<Rightarrow> io_point" where
  "after_wait fd Recv ec errno =
     (if failed ec then Io_done (Received [] ec) else Io_call Recv fd)"
| "after_wait fd (Send _ data sent) ec errno =
     (if failed ec then Io_done (Sent sent ec)
      else if data \<noteq> [] then Io_call (Send errno data sent) fd
      else Io_done (Sent sent no_error))"

definition io_read :: "int \<Rightarrow> string sys \<Rightarrow> io \<Rightarrow> io" where
  "io_read fd rc x = x\<lparr>io_at := after_read fd rc, io_reads := io_reads x @ [rc]\<rparr>"

definition io_write :: "int \<Rightarrow> int \<Rightarrow> string \<Rightarrow> string \<Rightarrow> nat sys \<Rightarrow> io \<Rightarrow> io" where
  "io_write fd errno data sent rc x =
     x\<lparr>io_at := after_write fd errno data sent rc, io_writes := io_writes x @ [rc]\<rparr>"

definition io_waited :: "int \<Rightarrow> io_op \<Rightarrow> error_code \<Rightarrow> int \<Rightarrow> io \<Rightarrow> io" where
  "io_waited fd op ec errno x =
     x\<lparr>io_at := after_wait fd op ec errno, io_waits := io_waits x @ [(ec, errno)]\<rparr>"

text \<open>\<open>co_await event\<close>: the coroutine stays suspended, or runs on with the error of the registration.\<close>

definition io_suspend :: "addr \<Rightarrow> int \<Rightarrow> io_op \<Rightarrow> unit sys \<Rightarrow> int \<Rightarrow> io \<Rightarrow> io" where
  "io_suspend c fd op add errno x =
     (let (stays, ev) = event_await_suspend c add new_event
      in if stays then x\<lparr>io_at := Io_await op fd ev\<rparr>
         else io_waited fd op (event_await_resume ev) errno x)"

section \<open>The system\<close>

text \<open>
  The thread in \<open>run\<close>: waiting; with the events it has been given, each named by the coroutine in whose
  frame it lies; and with a coroutine it has resumed and the events still to go.
\<close>

datatype loop_state = Sv_wait | Sv_events "addr list" | Sv_running addr "addr list"

fun sv_batch :: "loop_state \<Rightarrow> addr list" where
  "sv_batch Sv_wait = []"
| "sv_batch (Sv_events evs) = evs"
| "sv_batch (Sv_running c evs) = evs"

text \<open>
  Of every descriptor: whether it is open, the bytes that have arrived and were not read, whether the
  peer has closed, whether there is an error or a hang-up, which epoll always reports, the room for
  writing, and its entry in the interest list of epoll: the event, and
  whether the one notification is still to come. Ghost fields: all bytes that arrived, and were read.
\<close>

record net =
  k_open :: "int \<Rightarrow> bool"
  k_in :: "int \<Rightarrow> string"
  k_eof :: "int \<Rightarrow> bool"
  k_hup :: "int \<Rightarrow> bool"
  k_room :: "int \<Rightarrow> nat"
  k_interest :: "int \<Rightarrow> (addr \<times> bool) option"
  net_co :: "addr \<Rightarrow> io"
  net_runner :: loop_state
  k_arrived :: "int \<Rightarrow> string"
  k_received :: "int \<Rightarrow> string"

definition new_net :: net where
  "new_net =
     \<lparr>k_open = (\<lambda>_. True), k_in = (\<lambda>_. []), k_eof = (\<lambda>_. False), k_hup = (\<lambda>_. False), k_room = (\<lambda>_. 0),
      k_interest = Map.empty, net_co = (\<lambda>_. new_io Io_idle 0 []), net_runner = Sv_wait,
      k_arrived = (\<lambda>_. []), k_received = (\<lambda>_. [])\<rparr>"

definition put_io :: "addr \<Rightarrow> io \<Rightarrow> net \<Rightarrow> net" where
  "put_io c x s = s\<lparr>net_co := (net_co s)(c := x)\<rparr>"

definition eexist :: int where
  "eexist = 17"

text \<open>What the calls may answer; every call may fail with an error that has no other meaning here.\<close>

fun may_read :: "net \<Rightarrow> int \<Rightarrow> string sys \<Rightarrow> bool" where
  "may_read s fd (Success bytes) =
     (k_open s fd \<and> prefix bytes (k_in s fd) \<and> (bytes = [] \<longrightarrow> k_in s fd = [] \<and> k_eof s fd))"
| "may_read s fd (Failure e) = (e = eagain \<longrightarrow> k_open s fd \<and> k_in s fd = [] \<and> \<not> k_eof s fd)"

fun may_write :: "net \<Rightarrow> int \<Rightarrow> string \<Rightarrow> nat sys \<Rightarrow> bool" where
  "may_write s fd data (Success n) =
     (k_open s fd \<and> n \<le> length data \<and> n \<le> k_room s fd \<and> (n = 0 \<longrightarrow> data = []))"
| "may_write s fd data (Failure e) = (e = eagain \<longrightarrow> k_open s fd \<and> k_room s fd = 0)"

fun may_add :: "net \<Rightarrow> int \<Rightarrow> unit sys \<Rightarrow> bool" where
  "may_add s fd (Success _) = (k_open s fd \<and> k_interest s fd = None)"
| "may_add s fd (Failure e) = (e = eexist \<longrightarrow> k_interest s fd \<noteq> None)"

fun may_del :: "net \<Rightarrow> int \<Rightarrow> unit sys \<Rightarrow> bool" where
  "may_del s fd (Success _) = (k_interest s fd \<noteq> None)"
| "may_del s fd (Failure e) = (k_interest s fd = None)"

fun sock_ready :: "net \<Rightarrow> int \<Rightarrow> io_op \<Rightarrow> bool" where
  "sock_ready s fd Recv = (k_hup s fd \<or> k_eof s fd \<or> k_in s fd \<noteq> [])"
| "sock_ready s fd (Send errno data sent) = (k_hup s fd \<or> 0 < k_room s fd)"

text \<open>How the calls change the system.\<close>

fun did_read :: "int \<Rightarrow> string sys \<Rightarrow> net \<Rightarrow> net" where
  "did_read fd (Success bytes) s =
     s\<lparr>k_in := (k_in s)(fd := drop (length bytes) (k_in s fd)),
       k_received := (k_received s)(fd := k_received s fd @ bytes)\<rparr>"
| "did_read fd (Failure e) s = s"

fun did_write :: "int \<Rightarrow> nat sys \<Rightarrow> net \<Rightarrow> net" where
  "did_write fd (Success n) s = s\<lparr>k_room := (k_room s)(fd := k_room s fd - n)\<rparr>"
| "did_write fd (Failure e) s = s"

fun did_add :: "addr \<Rightarrow> int \<Rightarrow> unit sys \<Rightarrow> net \<Rightarrow> net" where
  "did_add c fd (Success _) s = s\<lparr>k_interest := (k_interest s)(fd \<mapsto> (c, True))\<rparr>"
| "did_add c fd (Failure e) s = s"

fun did_del :: "int \<Rightarrow> unit sys \<Rightarrow> net \<Rightarrow> net" where
  "did_del fd (Success _) s = s\<lparr>k_interest := (k_interest s)(fd := None)\<rparr>"
| "did_del fd (Failure e) s = s"

definition awaits :: "net \<Rightarrow> addr \<Rightarrow> int \<Rightarrow> bool" where
  "awaits s c fd \<longleftrightarrow> (\<exists>op ev. io_at (net_co s c) = Io_await op fd ev)"

fun at_rest :: "io_point \<Rightarrow> bool" where
  "at_rest (Io_call op fd) = False"
| "at_rest (Io_register op fd) = False"
| "at_rest _ = True"

text \<open>
  A wait reports an armed registration whose descriptor is ready and disarms it; here one wait reports
  the events of a list of descriptors.
\<close>

definition reportable :: "net \<Rightarrow> int \<Rightarrow> addr \<Rightarrow> bool" where
  "reportable s fd c \<longleftrightarrow>
     k_interest s fd = Some (c, True) \<and>
     (\<exists>op ev. io_at (net_co s c) = Io_await op fd ev \<and> sock_ready s fd op)"

definition disarm :: "(int \<times> addr) list \<Rightarrow> (int \<Rightarrow> (addr \<times> bool) option) \<Rightarrow> int \<Rightarrow> (addr \<times> bool) option" where
  "disarm evs I fd =
     (case I fd of None \<Rightarrow> None | Some (c, armed) \<Rightarrow> Some (c, armed \<and> (fd, c) \<notin> set evs))"

definition did_report :: "(int \<times> addr) list \<Rightarrow> net \<Rightarrow> net" where
  "did_report evs s =
     s\<lparr>k_interest := disarm evs (k_interest s), net_runner := Sv_events (map snd evs)\<rparr>"

inductive net_step :: "net \<Rightarrow> net \<Rightarrow> bool" where
  arrive:
    "k_open s fd \<Longrightarrow> \<not> k_eof s fd \<Longrightarrow>
     net_step s (s\<lparr>k_in := (k_in s)(fd := k_in s fd @ bytes),
                   k_arrived := (k_arrived s)(fd := k_arrived s fd @ bytes)\<rparr>)"
| peer_closes:
    "net_step s (s\<lparr>k_eof := (k_eof s)(fd := True)\<rparr>)"
| hang_up:
    "net_step s (s\<lparr>k_hup := (k_hup s)(fd := True)\<rparr>)"
| drain:
    "net_step s (s\<lparr>k_room := (k_room s)(fd := k_room s fd + n)\<rparr>)"
| close_socket:
    "net_step s (s\<lparr>k_open := (k_open s)(fd := False), k_interest := (k_interest s)(fd := None)\<rparr>)"
| start_recv:
    "io_at (net_co s c) \<in> {Io_idle, Io_done r} \<Longrightarrow>
     net_step s (put_io c (new_io (Io_call Recv fd) errno []) s)"
| start_send:
    "io_at (net_co s c) \<in> {Io_idle, Io_done r} \<Longrightarrow>
     net_step s (put_io c (new_io (Io_call (Send errno data []) fd) errno data) s)"
| reading:
    "io_at (net_co s c) = Io_call Recv fd \<Longrightarrow> may_read s fd rc \<Longrightarrow>
     net_step s (put_io c (io_read fd rc (net_co s c)) (did_read fd rc s))"
| writing:
    "io_at (net_co s c) = Io_call (Send errno data sent) fd \<Longrightarrow> may_write s fd data rc \<Longrightarrow>
     net_step s (put_io c (io_write fd errno data sent rc (net_co s c)) (did_write fd rc s))"
| suspending:
    "io_at (net_co s c) = Io_register op fd \<Longrightarrow> may_add s fd add \<Longrightarrow>
     net_step s (put_io c (io_suspend c fd op add errno (net_co s c)) (did_add c fd add s))"
| waiting:
    "net_runner s = Sv_wait \<Longrightarrow> evs \<noteq> [] \<Longrightarrow> distinct (map fst evs) \<Longrightarrow>
     \<forall>(fd, c) \<in> set evs. reportable s fd c \<Longrightarrow>
     net_step s (did_report evs s)"
| resuming:
    "net_runner s = Sv_events (c # evs) \<Longrightarrow> io_at (net_co s c) = Io_await op fd ev \<Longrightarrow>
     may_del s fd del \<Longrightarrow> event_resume del ev = (awaiter, ev') \<Longrightarrow>
     net_step s
       ((put_io awaiter (io_waited fd op (event_await_resume ev') errno (net_co s awaiter))
           (did_del fd del s))\<lparr>net_runner := Sv_running awaiter evs\<rparr>)"
| returning:
    "net_runner s = Sv_running c evs \<Longrightarrow> at_rest (io_at (net_co s c)) \<Longrightarrow>
     net_step s (s\<lparr>net_runner := Sv_events evs\<rparr>)"
| all_resumed:
    "net_runner s = Sv_events [] \<Longrightarrow> net_step s (s\<lparr>net_runner := Sv_wait\<rparr>)"

inductive net_reach :: "net \<Rightarrow> bool" where
  net_start: "net_reach new_net"
| net_next: "net_reach s \<Longrightarrow> net_step s t \<Longrightarrow> net_reach t"

section \<open>One coroutine\<close>

text \<open>
  The operation at any point goes on as \<^const>\<open>tcp_recv\<close> or \<^const>\<open>tcp_send_loop\<close> does from the answers seen so
  far.
\<close>

fun op_ok :: "io \<Rightarrow> io_op \<Rightarrow> bool" where
  "op_ok x Recv =
     (\<forall>rs ws. tcp_recv (io_reads x @ rs) (map fst (io_waits x) @ ws) = tcp_recv rs ws)"
| "op_ok x (Send errno data sent) =
     (\<forall>rs ws. tcp_send_loop (io_errno x) (io_data x) [] (io_writes x @ rs) (io_waits x @ ws) =
              tcp_send_loop errno data sent rs ws)"

fun wait_ok :: "io \<Rightarrow> io_op \<Rightarrow> bool" where
  "wait_ok x Recv =
     (\<forall>rs w ws. tcp_recv (io_reads x @ rs) (map fst (io_waits x) @ w # ws) =
        (if failed w then Some ([], w) else tcp_recv rs ws))"
| "wait_ok x (Send errno data sent) =
     (\<forall>rs w e ws. tcp_send_loop (io_errno x) (io_data x) [] (io_writes x @ rs) (io_waits x @ (w, e) # ws) =
        (if failed w then Some (sent, w)
         else if data \<noteq> [] then tcp_send_loop e data sent rs ws else Some (sent, no_error)))"

fun result_ok :: "io \<Rightarrow> io_result \<Rightarrow> bool" where
  "result_ok x (Received bytes ec) = (tcp_recv (io_reads x) (map fst (io_waits x)) = Some (bytes, ec))"
| "result_ok x (Sent sent ec) =
     (tcp_send (io_data x) (io_errno x, io_writes x, io_waits x) = Some (sent, ec))"

fun point_ok :: "io \<Rightarrow> io_point \<Rightarrow> bool" where
  "point_ok x Io_idle = True"
| "point_ok x (Io_call op fd) = op_ok x op"
| "point_ok x (Io_register op fd) = wait_ok x op"
| "point_ok x (Io_await op fd ev) = wait_ok x op"
| "point_ok x (Io_done r) = result_ok x r"

definition io_ok :: "io \<Rightarrow> bool" where
  "io_ok x \<longleftrightarrow> point_ok x (io_at x)"

lemma op_ok_at [simp]: "op_ok (x\<lparr>io_at := p\<rparr>) op = op_ok x op"
  by (cases op) simp_all

lemma wait_ok_at [simp]: "wait_ok (x\<lparr>io_at := p\<rparr>) op = wait_ok x op"
  by (cases op) simp_all

lemma result_ok_at [simp]: "result_ok (x\<lparr>io_at := p\<rparr>) r = result_ok x r"
  by (cases r) simp_all

lemma point_ok_at [simp]: "point_ok (x\<lparr>io_at := p\<rparr>) q = point_ok x q"
  by (cases q) simp_all

lemma io_ok_start:
  "io_ok (new_io (Io_call Recv fd) errno data)" "io_ok (new_io (Io_call (Send errno data []) fd) errno data)"
  "io_ok (new_io Io_idle errno data)"
  by (simp_all add: io_ok_def new_io_def)

lemma io_ok_read:
  assumes "io_ok x" and "io_at x = Io_call Recv fd"
  shows "io_ok (io_read fd rc x)"
proof -
  from assms have ok: "tcp_recv (io_reads x @ rs) (map fst (io_waits x) @ ws) = tcp_recv rs ws" for rs ws
    by (simp add: io_ok_def)
  have "tcp_recv (io_reads x @ [rc]) (map fst (io_waits x)) = tcp_recv [rc] []"
    using ok [of "[rc]" "[]"] by simp
  with ok show ?thesis
    by (cases rc) (simp_all add: io_ok_def io_read_def after_read_def)
qed

lemma io_ok_write:
  assumes "io_ok x" and "io_at x = Io_call (Send errno data sent) fd"
  shows "io_ok (io_write fd errno data sent rc x)"
proof -
  from assms have ok: "tcp_send_loop (io_errno x) (io_data x) [] (io_writes x @ rs) (io_waits x @ ws) =
      tcp_send_loop errno data sent rs ws" for rs ws
    by (simp add: io_ok_def)
  have last: "tcp_send_loop (io_errno x) (io_data x) [] (io_writes x @ [rc]) (io_waits x) =
      tcp_send_loop errno data sent [rc] []"
    using ok [of "[rc]" "[]"] by simp
  show ?thesis
  proof (cases rc)
    case (Success n)
    with ok last show ?thesis
      by (cases "n = 0") (simp_all add: io_ok_def io_write_def after_write_def tcp_send_def)
  next
    case (Failure e)
    with ok last show ?thesis
      by (cases "e = eintr") (simp_all add: io_ok_def io_write_def after_write_def tcp_send_def)
  qed
qed

lemma io_ok_waited:
  assumes "wait_ok x op"
  shows "io_ok (io_waited fd op ec errno x)"
proof (cases op)
  case Recv
  from assms Recv have ok: "tcp_recv (io_reads x @ rs) (map fst (io_waits x) @ ec # ws) =
      (if failed ec then Some ([], ec) else tcp_recv rs ws)" for rs ws
    by simp
  from Recv ok [of "[]" "[]"] ok show ?thesis by (simp add: io_ok_def io_waited_def)
next
  case (Send e data sent)
  from assms Send have ok: "tcp_send_loop (io_errno x) (io_data x) [] (io_writes x @ rs)
        (io_waits x @ (ec, errno) # ws) =
      (if failed ec then Some (sent, ec)
       else if data \<noteq> [] then tcp_send_loop errno data sent rs ws else Some (sent, no_error))" for rs ws
    by simp
  from Send ok [of "[]" "[]"] ok show ?thesis by (simp add: io_ok_def io_waited_def tcp_send_def)
qed

lemma io_suspend_cases:
  "io_suspend c fd op (Success u) errno x = x\<lparr>io_at := Io_await op fd (new_event\<lparr>ev_awaiter := c\<rparr>)\<rparr>"
  "io_suspend c fd op (Failure e) errno x = io_waited fd op (errno_code e) errno x"
  by (simp_all add: io_suspend_def event_await_suspend_def event_await_resume_def new_event_def)

lemma io_ok_suspend:
  "wait_ok x op \<Longrightarrow> io_ok (io_suspend c fd op add errno x)"
  by (cases add) (simp_all add: io_suspend_cases io_ok_waited, simp add: io_ok_def)

section \<open>The invariant\<close>

definition io_inv :: "net \<Rightarrow> bool" where
  "io_inv s \<longleftrightarrow>
     (\<forall>c. io_ok (net_co s c)) \<and>
     (\<forall>c op fd ev. io_at (net_co s c) = Io_await op fd ev \<longrightarrow>
        ev_awaiter ev = c \<and> \<not> failed (ev_ec ev))"

definition stream_inv :: "net \<Rightarrow> bool" where
  "stream_inv s \<longleftrightarrow> (\<forall>fd. k_arrived s fd = k_received s fd @ k_in s fd)"

text \<open>
  Which events are pending, who awaits which descriptor, the interest list and the open descriptors: an
  awaited open descriptor is registered for its awaiter, and disarmed exactly while the event is in the
  batch of the service.
\<close>

definition wait_rel ::
    "addr list \<Rightarrow> (addr \<Rightarrow> int \<Rightarrow> bool) \<Rightarrow> (int \<Rightarrow> (addr \<times> bool) option) \<Rightarrow> (int \<Rightarrow> bool) \<Rightarrow> bool" where
  "wait_rel B A I Op \<longleftrightarrow>
     distinct B \<and>
     (\<forall>c fd fd'. A c fd \<longrightarrow> A c fd' \<longrightarrow> fd = fd') \<and>
     (\<forall>c \<in> set B. \<exists>fd. A c fd) \<and>
     (\<forall>fd c armed. I fd = Some (c, armed) \<longrightarrow> Op fd \<and> A c fd \<and> (armed \<longleftrightarrow> c \<notin> set B)) \<and>
     (\<forall>c fd. A c fd \<longrightarrow> Op fd \<longrightarrow> (\<exists>armed. I fd = Some (c, armed)))"

definition wait_inv :: "net \<Rightarrow> bool" where
  "wait_inv s \<longleftrightarrow> wait_rel (sv_batch (net_runner s)) (awaits s) (k_interest s) (k_open s)"

lemma wait_rel_distinct: "wait_rel B A I Op \<Longrightarrow> distinct B"
  by (simp add: wait_rel_def)

lemma wait_rel_one: "wait_rel B A I Op \<Longrightarrow> A c fd \<Longrightarrow> A c fd' \<Longrightarrow> fd = fd'"
  unfolding wait_rel_def by blast

lemma wait_rel_batch: "wait_rel B A I Op \<Longrightarrow> c \<in> set B \<Longrightarrow> \<exists>fd. A c fd"
  by (simp add: wait_rel_def)

lemma wait_rel_entry:
  "wait_rel B A I Op \<Longrightarrow> I fd = Some (c, armed) \<Longrightarrow> Op fd \<and> A c fd \<and> (armed \<longleftrightarrow> c \<notin> set B)"
  by (simp add: wait_rel_def)

lemma wait_rel_registered:
  assumes "wait_rel B A I Op" and "A c fd" and "Op fd"
  shows "I fd = Some (c, c \<notin> set B)"
proof -
  from assms obtain armed where "I fd = Some (c, armed)" unfolding wait_rel_def by blast
  with wait_rel_entry [OF assms(1) this] show ?thesis by blast
qed

lemma wait_relI:
  assumes "distinct B" and "\<And>c fd fd'. A c fd \<Longrightarrow> A c fd' \<Longrightarrow> fd = fd'"
    and "\<And>c. c \<in> set B \<Longrightarrow> \<exists>fd. A c fd"
    and "\<And>fd c armed. I fd = Some (c, armed) \<Longrightarrow> Op fd \<and> A c fd \<and> (armed \<longleftrightarrow> c \<notin> set B)"
    and "\<And>c fd. A c fd \<Longrightarrow> Op fd \<Longrightarrow> I fd \<noteq> None \<and> fst (the (I fd)) = c"
  shows "wait_rel B A I Op"
proof -
  have "\<exists>armed. I fd = Some (c, armed)" if "A c fd" "Op fd" for c fd
    using assms(5) [OF that] by (cases "I fd") auto
  then show ?thesis
    unfolding wait_rel_def
    by (intro conjI allI impI ballI) (use assms(1-4) in \<open>blast+\<close>)
qed

lemma wait_rel_add:
  assumes "wait_rel B A I Op" and "Op fd" and "I fd = None" and "\<And>fd'. \<not> A c fd'"
  shows "wait_rel B (A(c := (\<lambda>fd'. fd' = fd))) (I(fd \<mapsto> (c, True))) Op"
proof (rule wait_relI)
  have c: "c \<notin> set B" using wait_rel_batch [OF assms(1)] assms(4) by blast
  show "Op fd' \<and> (A(c := (\<lambda>fd'. fd' = fd))) d fd' \<and> (armed \<longleftrightarrow> d \<notin> set B)"
    if "(I(fd \<mapsto> (c, True))) fd' = Some (d, armed)" for fd' d armed
    using that wait_rel_entry [OF assms(1), of fd' d armed] assms(2,4) c by (auto split: if_splits)
  show "(I(fd \<mapsto> (c, True))) fd' \<noteq> None \<and> fst (the ((I(fd \<mapsto> (c, True))) fd')) = d"
    if "(A(c := (\<lambda>fd'. fd' = fd))) d fd'" "Op fd'" for d fd'
    using that wait_rel_registered [OF assms(1), of d fd'] assms(3) by (auto split: if_splits)
  show "fd1 = fd2" if "(A(c := (\<lambda>fd'. fd' = fd))) d fd1" "(A(c := (\<lambda>fd'. fd' = fd))) d fd2" for d fd1 fd2
    using that wait_rel_one [OF assms(1)] by (simp split: if_splits)
  show "\<exists>fd'. (A(c := (\<lambda>fd'. fd' = fd))) d fd'" if "d \<in> set B" for d
    using wait_rel_batch [OF assms(1) that] by auto
qed (rule wait_rel_distinct [OF assms(1)])

lemma wait_rel_del:
  assumes "wait_rel (c # B) A I Op" and "A c fd"
  shows "wait_rel B (A(c := (\<lambda>fd'. False))) (I(fd := None)) Op"
proof (rule wait_relI)
  have B: "c \<notin> set B" "distinct B" using wait_rel_distinct [OF assms(1)] by simp_all
  then show "distinct B" by simp
  show "Op fd' \<and> (A(c := (\<lambda>fd'. False))) d fd' \<and> (armed \<longleftrightarrow> d \<notin> set B)"
    if "(I(fd := None)) fd' = Some (d, armed)" for fd' d armed
  proof -
    from that have i: "I fd' = Some (d, armed)" "fd' \<noteq> fd" by (auto split: if_splits)
    from wait_rel_entry [OF assms(1) i(1)] have e: "Op fd'" "A d fd'" "armed \<longleftrightarrow> d \<notin> set (c # B)" by simp_all
    with i(2) have "d \<noteq> c" using wait_rel_one [OF assms(1) assms(2)] by blast
    with e show ?thesis by simp
  qed
  show "(I(fd := None)) fd' \<noteq> None \<and> fst (the ((I(fd := None)) fd')) = d"
    if "(A(c := (\<lambda>fd'. False))) d fd'" "Op fd'" for d fd'
  proof -
    from that have d: "d \<noteq> c" "A d fd'" by (auto split: if_splits)
    with wait_rel_registered [OF assms(1) d(2) that(2)] wait_rel_registered [OF assms(1,2)] that(2)
    show ?thesis by auto
  qed
  show "fd1 = fd2" if "(A(c := (\<lambda>fd'. False))) d fd1" "(A(c := (\<lambda>fd'. False))) d fd2" for d fd1 fd2
    using that wait_rel_one [OF assms(1)] by (simp split: if_splits)
  show "\<exists>fd. (A(c := (\<lambda>fd'. False))) d fd" if "d \<in> set B" for d
    using wait_rel_batch [OF assms(1), of d] that B by auto
qed

lemma wait_rel_close:
  assumes "wait_rel B A I Op"
  shows "wait_rel B A (I(fd := None)) (Op(fd := False))"
proof (rule wait_relI)
  show "(Op(fd := False)) fd' \<and> A c fd' \<and> (armed \<longleftrightarrow> c \<notin> set B)"
    if "(I(fd := None)) fd' = Some (c, armed)" for fd' c armed
    using that wait_rel_entry [OF assms, of fd' c armed] by (auto split: if_splits)
  show "(I(fd := None)) fd' \<noteq> None \<and> fst (the ((I(fd := None)) fd')) = c"
    if "A c fd'" "(Op(fd := False)) fd'" for c fd'
    using that wait_rel_registered [OF assms, of c fd'] by (auto split: if_splits)
qed (use assms in \<open>auto intro: wait_rel_distinct wait_rel_batch wait_rel_one\<close>)

lemma wait_rel_report:
  assumes "wait_rel [] A I Op" and "distinct (map fst evs)"
    and "\<And>fd c. (fd, c) \<in> set evs \<Longrightarrow> I fd = Some (c, True)"
  shows "wait_rel (map snd evs) A (disarm evs I) Op"
proof (rule wait_relI)
  have A: "A c fd" if "(fd, c) \<in> set evs" for fd c
    using wait_rel_entry [OF assms(1) assms(3) [OF that]] by simp
  have same: "p = q" if "p \<in> set evs" "q \<in> set evs" "snd p = snd q" for p q
    using A [of "fst p" "snd p"] A [of "fst q" "snd q"] that wait_rel_one [OF assms(1)]
    by (metis prod.collapse)
  have "distinct evs" using assms(2) by (simp add: distinct_map)
  with same show "distinct (map snd evs)" by (simp add: distinct_map inj_on_def)
  show "\<exists>fd. A c fd" if "c \<in> set (map snd evs)" for c
    using that A by force
  show "Op fd \<and> A c fd \<and> (armed \<longleftrightarrow> c \<notin> set (map snd evs))" if "disarm evs I fd = Some (c, armed)" for fd c armed
  proof -
    from that obtain armed' where i: "I fd = Some (c, armed')" and armed: "armed \<longleftrightarrow> armed' \<and> (fd, c) \<notin> set evs"
      by (auto simp: disarm_def split: option.splits)
    from wait_rel_entry [OF assms(1) i] have e: "Op fd" "A c fd" "armed'" by simp_all
    have "fd' = fd" if "(fd', c) \<in> set evs" for fd'
      using wait_rel_one [OF assms(1) A [OF that] e(2)] .
    then have "c \<in> set (map snd evs) \<longleftrightarrow> (fd, c) \<in> set evs" by force
    with e armed show ?thesis by simp
  qed
  show "disarm evs I fd \<noteq> None \<and> fst (the (disarm evs I fd)) = c" if "A c fd" "Op fd" for c fd
    using wait_rel_registered [OF assms(1) that] by (simp add: disarm_def)
qed (use assms(1) in \<open>auto intro: wait_rel_one\<close>)

lemma awaits_one: "awaits s c fd \<Longrightarrow> awaits s c fd' \<Longrightarrow> fd = fd'"
  by (auto simp: awaits_def)

lemma put_io_simps [simp]:
  "net_co (put_io c x s) = (net_co s)(c := x)" "k_in (put_io c x s) = k_in s"
  "k_open (put_io c x s) = k_open s" "k_interest (put_io c x s) = k_interest s"
  "net_runner (put_io c x s) = net_runner s" "k_arrived (put_io c x s) = k_arrived s"
  "k_received (put_io c x s) = k_received s"
  by (simp_all add: put_io_def)

lemma did_read_simps [simp]:
  "net_co (did_read fd r s) = net_co s" "net_runner (did_read fd r s) = net_runner s"
  "k_interest (did_read fd r s) = k_interest s" "k_open (did_read fd r s) = k_open s"
  "k_arrived (did_read fd r s) = k_arrived s"
  by ((cases r; simp)+)

lemma did_write_simps [simp]:
  "net_co (did_write fd n s) = net_co s" "net_runner (did_write fd n s) = net_runner s"
  "k_interest (did_write fd n s) = k_interest s" "k_open (did_write fd n s) = k_open s"
  "k_arrived (did_write fd n s) = k_arrived s" "k_received (did_write fd n s) = k_received s"
  "k_in (did_write fd n s) = k_in s"
  by ((cases n; simp)+)

lemma did_add_simps [simp]:
  "net_co (did_add c fd u s) = net_co s" "net_runner (did_add c fd u s) = net_runner s"
  "k_open (did_add c fd u s) = k_open s" "k_arrived (did_add c fd u s) = k_arrived s"
  "k_received (did_add c fd u s) = k_received s" "k_in (did_add c fd u s) = k_in s"
  by ((cases u; simp)+)

lemma did_del_simps [simp]:
  "net_co (did_del fd u s) = net_co s" "net_runner (did_del fd u s) = net_runner s"
  "k_open (did_del fd u s) = k_open s" "k_arrived (did_del fd u s) = k_arrived s"
  "k_received (did_del fd u s) = k_received s" "k_in (did_del fd u s) = k_in s"
  by ((cases u; simp)+)

lemma did_report_simps [simp]:
  "net_co (did_report evs s) = net_co s" "net_runner (did_report evs s) = Sv_events (map snd evs)"
  "k_open (did_report evs s) = k_open s" "k_arrived (did_report evs s) = k_arrived s"
  "k_received (did_report evs s) = k_received s" "k_in (did_report evs s) = k_in s"
  by (simp_all add: did_report_def)

lemma after_points [simp]:
  "after_read fd rc \<noteq> Io_await op fd' ev" "after_write fd e d b n \<noteq> Io_await op fd' ev"
  "after_wait fd op' ec e \<noteq> Io_await op fd' ev"
  by (auto simp: after_read_def after_write_def Let_def split: sys.split prod.split)
    (cases op'; simp split: if_splits)

lemma io_at_simps [simp]:
  "io_at (io_read fd rc x) = after_read fd rc" "io_at (io_write fd e d b n x) = after_write fd e d b n"
  "io_at (io_waited fd op ec e x) = after_wait fd op ec e" "io_at (new_io p e d) = p"
  by (simp_all add: io_read_def io_write_def io_waited_def new_io_def)

lemma io_suspend_event:
  "io_at (io_suspend c fd op add errno x) = Io_await op' fd' ev \<Longrightarrow> ev_awaiter ev = c \<and> \<not> failed (ev_ec ev)"
  by (cases add) (auto simp: io_suspend_cases new_event_def)

text \<open>Who awaits after a step of one coroutine.\<close>

lemma awaits_put_io:
  "awaits (put_io c x s) d fd \<longleftrightarrow>
     (if d = c then \<exists>op ev. io_at x = Io_await op fd ev else awaits s d fd)"
  by (simp add: awaits_def)

lemma awaits_at:
  "io_at (net_co s c) = Io_await op fd ev \<Longrightarrow> awaits s c fd' \<longleftrightarrow> fd' = fd"
  "io_at (net_co s c) = Io_call op fd \<Longrightarrow> \<not> awaits s c fd'"
  "io_at (net_co s c) = Io_register op fd \<Longrightarrow> \<not> awaits s c fd'"
  "io_at (net_co s c) \<in> {Io_idle, Io_done r} \<Longrightarrow> \<not> awaits s c fd'"
  by (auto simp: awaits_def)

lemma awaits_cong: "net_co t = net_co s \<Longrightarrow> awaits t = awaits s"
  by (simp add: awaits_def fun_eq_iff)

text \<open>A coroutine that awaits nothing may move on to any point but an await.\<close>

lemma awaits_put_moved:
  assumes "\<And>op fd ev. io_at x \<noteq> Io_await op fd ev"
  shows "awaits (put_io c x t) = (awaits t)(c := (\<lambda>fd'. False))"
  using assms by (auto simp: awaits_put_io fun_eq_iff)

lemma wait_inv_move:
  assumes "wait_inv s" and "\<And>fd. \<not> awaits s c fd" and "\<And>op fd ev. io_at x \<noteq> Io_await op fd ev"
    and "net_co t = net_co s" "net_runner t = net_runner s" "k_interest t = k_interest s" "k_open t = k_open s"
  shows "wait_inv (put_io c x t)"
proof -
  have "awaits (put_io c x t) = awaits s"
    using assms(2) unfolding awaits_put_moved [OF assms(3)] awaits_cong [OF assms(4)]
    by (auto simp: fun_eq_iff)
  with assms(1,5-7) show ?thesis by (simp add: wait_inv_def)
qed

lemma wait_inv_suspend:
  assumes "wait_inv s" and "io_at (net_co s c) = Io_register op fd" and "may_add s fd add"
  shows "wait_inv (put_io c (io_suspend c fd op add errno (net_co s c)) (did_add c fd add s))"
proof (cases add)
  case (Failure e)
  have "wait_inv (put_io c (io_waited fd op (errno_code e) errno (net_co s c)) s)"
    by (rule wait_inv_move [OF assms(1)]) (simp_all add: awaits_at(3) [OF assms(2)] io_waited_def)
  with Failure show ?thesis by (simp add: io_suspend_cases)
next
  case (Success u)
  have "awaits (put_io c (io_suspend c fd op add errno (net_co s c)) (did_add c fd add s)) =
      (awaits s)(c := (\<lambda>fd'. fd' = fd))"
    using Success by (auto simp: fun_eq_iff awaits_put_io io_suspend_cases awaits_def)
  moreover have "wait_rel (sv_batch (net_runner s)) ((awaits s)(c := (\<lambda>fd'. fd' = fd)))
      ((k_interest s)(fd \<mapsto> (c, True))) (k_open s)"
    using assms(1,3) Success awaits_at(3) [OF assms(2)] by (intro wait_rel_add) (simp_all add: wait_inv_def)
  ultimately show ?thesis using Success by (simp add: wait_inv_def)
qed

lemma wait_inv_resume:
  assumes "wait_inv s" and "net_runner s = Sv_events (c # evs)" and "io_at (net_co s c) = Io_await op fd ev"
    and "may_del s fd del" and "\<And>op fd ev. io_at x \<noteq> Io_await op fd ev"
  shows "wait_inv ((put_io c x (did_del fd del s))\<lparr>net_runner := Sv_running c evs\<rparr>)"
proof -
  have del: "k_interest (did_del fd del s) = (k_interest s)(fd := None)"
    using assms(4) by (cases del) auto
  have "awaits s c fd" using assms(3) by (simp add: awaits_def)
  with assms(1,2) have "wait_rel evs ((awaits s)(c := (\<lambda>fd'. False))) ((k_interest s)(fd := None)) (k_open s)"
    by (intro wait_rel_del) (simp_all add: wait_inv_def)
  moreover have "awaits ((put_io c x (did_del fd del s))\<lparr>net_runner := Sv_running c evs\<rparr>) =
      (awaits s)(c := (\<lambda>fd'. False))"
    using awaits_put_moved [OF assms(5), of c "did_del fd del s"] awaits_cong [of "did_del fd del s" s]
    by (simp add: awaits_def fun_eq_iff)
  ultimately show ?thesis by (simp add: wait_inv_def del)
qed

lemma awaits_only_co [simp]:
  "awaits (s\<lparr>k_in := a, k_arrived := b\<rparr>) = awaits s" "awaits (s\<lparr>k_eof := e\<rparr>) = awaits s"
  "awaits (s\<lparr>k_hup := e\<rparr>) = awaits s" "awaits (s\<lparr>k_room := r\<rparr>) = awaits s" "awaits (s\<lparr>k_open := q, k_interest := i\<rparr>) = awaits s"
  "awaits (s\<lparr>net_runner := n\<rparr>) = awaits s" "awaits (did_report evs s) = awaits s"
  by (simp_all add: awaits_def fun_eq_iff)

lemma event_resume_await:
  assumes "io_inv s" and "io_at (net_co s c) = Io_await op fd ev" and "event_resume del ev = (awaiter, ev')"
  shows "awaiter = c" and "wait_ok (net_co s c) op"
proof -
  from assms(1,2) have "ev_awaiter ev = c" "io_ok (net_co s c)" by (auto simp: io_inv_def)
  with assms(2,3) show "awaiter = c" "wait_ok (net_co s c) op"
    by (auto simp: event_resume_def io_ok_def Let_def split: sys.splits)
qed

lemma io_step: "net_step s t \<Longrightarrow> io_inv s \<Longrightarrow> io_inv t"
proof (induction rule: net_step.induct)
  case (suspending s c op fd add errno)
  then have "wait_ok (net_co s c) op" by (auto simp: io_inv_def io_ok_def dest: spec [of _ c])
  with suspending show ?case
    by (auto simp: io_inv_def io_ok_suspend dest: io_suspend_event)
next
  case (resuming s c evs op fd ev del awaiter ev' errno)
  note r = event_resume_await [OF resuming.prems resuming.hyps(2,4)]
  with resuming.prems show ?case by (auto simp: io_inv_def io_ok_waited)
qed (auto simp: io_inv_def io_ok_start io_ok_read io_ok_write)

lemma stream_step: "net_step s t \<Longrightarrow> stream_inv s \<Longrightarrow> stream_inv t"
proof (induction rule: net_step.induct)
  case (reading s c fd rc)
  then show ?case by (cases rc) (auto simp: stream_inv_def prefix_def)
qed (auto simp: stream_inv_def)

lemma wait_step: "net_step s t \<Longrightarrow> io_inv s \<Longrightarrow> wait_inv s \<Longrightarrow> wait_inv t"
proof (induction rule: net_step.induct)
  case (start_recv s c r fd errno)
  then show ?case by (intro wait_inv_move) (auto simp: awaits_at)
next
  case (start_send s c r errno data fd)
  then show ?case by (intro wait_inv_move) (auto simp: awaits_at)
next
  case (reading s c fd rc)
  then show ?case by (intro wait_inv_move) (simp_all add: awaits_at)
next
  case (writing s c errno data sent fd rc)
  then show ?case by (intro wait_inv_move) (simp_all add: awaits_at)
next
  case (suspending s c op fd add errno)
  then show ?case by (intro wait_inv_suspend)
next
  case (resuming s c evs op fd ev del awaiter ev' errno)
  from event_resume_await(1) [OF resuming.prems(1) resuming.hyps(2,4)]
  have "awaiter = c" .
  with resuming show ?case by (simp add: wait_inv_resume)
next
  case (close_socket s fd)
  then show ?case by (simp add: wait_inv_def wait_rel_close)
next
  case (waiting s evs)
  then have "\<And>fd c. (fd, c) \<in> set evs \<Longrightarrow> k_interest s fd = Some (c, True)"
    by (auto simp: reportable_def)
  with waiting show ?case
    by (simp add: wait_inv_def wait_rel_report) (simp add: did_report_def wait_rel_report)
qed (simp_all add: wait_inv_def)

definition net_inv :: "net \<Rightarrow> bool" where
  "net_inv s \<longleftrightarrow> io_inv s \<and> stream_inv s \<and> wait_inv s"

lemma net_reach_inv: "net_reach s \<Longrightarrow> net_inv s"
proof (induction rule: net_reach.induct)
  case net_start
  have "awaits new_net = (\<lambda>c fd. False)" by (simp add: awaits_def new_net_def fun_eq_iff)
  moreover have "io_inv new_net" "stream_inv new_net"
    by (simp_all add: new_net_def io_inv_def stream_inv_def io_ok_start)
  ultimately show ?case by (simp add: net_inv_def wait_inv_def wait_rel_def) (simp add: new_net_def)
qed (auto simp: net_inv_def intro: io_step stream_step wait_step)

section \<open>Properties\<close>

text \<open>
  C23: When a coroutine returns from \<open>recv\<close> or \<open>send\<close>, its result is the one that the functional model of
  the operation computes from the answers the coroutine has seen, whatever other coroutines, the peer and
  the service did in the meantime; and the bytes that arrived at a descriptor are those read from it, in
  order, followed by those still waiting.
\<close>

theorem net_refines_calls:
  assumes "net_reach s" and "io_at (net_co s c) = Io_done r"
  shows "(case r of
            Received bytes ec \<Rightarrow>
              tcp_recv (io_reads (net_co s c)) (map fst (io_waits (net_co s c))) = Some (bytes, ec)
          | Sent sent ec \<Rightarrow>
              tcp_send (io_data (net_co s c))
                (io_errno (net_co s c), io_writes (net_co s c), io_waits (net_co s c)) = Some (sent, ec)) \<and>
         (\<forall>fd. k_arrived s fd = k_received s fd @ k_in s fd)"
proof -
  from net_reach_inv [OF assms(1)] have "io_ok (net_co s c)" "stream_inv s"
    by (auto simp: net_inv_def io_inv_def)
  with assms(2) show ?thesis by (cases r) (auto simp: io_ok_def stream_inv_def)
qed

text \<open>
  C24: No coroutine that awaits an open descriptor is forgotten: its event is among those the service has
  been given, or its registration is armed; then, if the descriptor is ready, the service need not wait,
  and the next wait can report it. The service resumes only suspended coroutines.
\<close>

theorem net_no_lost_wakeup:
  assumes "net_reach s" and "io_at (net_co s c) = Io_await op fd ev" and "k_open s fd"
  shows "(c \<in> set (sv_batch (net_runner s)) \<or> k_interest s fd = Some (c, True)) \<and>
         (net_runner s = Sv_wait \<and> sock_ready s fd op \<longrightarrow>
            (\<exists>t. net_step s t \<and> net_runner t = Sv_events [c])) \<and>
         (\<forall>d \<in> set (sv_batch (net_runner s)). \<exists>fd. awaits s d fd)"
proof -
  from net_reach_inv [OF assms(1)] have rel:
      "wait_rel (sv_batch (net_runner s)) (awaits s) (k_interest s) (k_open s)"
    by (simp add: net_inv_def wait_inv_def)
  from assms(2) have "awaits s c fd" by (auto simp: awaits_def)
  from wait_rel_registered [OF rel this assms(3)]
  have reg: "k_interest s fd = Some (c, c \<notin> set (sv_batch (net_runner s)))" .
  have "\<exists>t. net_step s t \<and> net_runner t = Sv_events [c]" if "net_runner s = Sv_wait" "sock_ready s fd op"
  proof -
    have "net_step s (did_report [(fd, c)] s)"
      using that reg assms(2) by (intro waiting) (auto simp: reportable_def)
    then show ?thesis by (auto intro!: exI [of _ "did_report [(fd, c)] s"])
  qed
  with reg wait_rel_batch [OF rel] show ?thesis by auto
qed

text \<open>A registration is refused as a duplicate only while another coroutine awaits the same descriptor.\<close>

lemma net_one_awaiter:
  assumes "net_reach s" and "io_at (net_co s c) = Io_register op fd" and "k_interest s fd \<noteq> None"
  shows "\<exists>d. d \<noteq> c \<and> awaits s d fd"
proof -
  from net_reach_inv [OF assms(1)] have rel:
      "wait_rel (sv_batch (net_runner s)) (awaits s) (k_interest s) (k_open s)"
    by (simp add: net_inv_def wait_inv_def)
  from assms(3) obtain d armed where "k_interest s fd = Some (d, armed)" by auto
  with wait_rel_entry [OF rel this] have "awaits s d fd" by simp
  moreover with awaits_at(3) [OF assms(2)] have "d \<noteq> c" by blast
  ultimately show ?thesis by blast
qed

section \<open>Runs\<close>

text \<open>A reader finds nothing to read and is suspended.\<close>

lemma reader_suspends:
  assumes "net_reach s" and "io_at (net_co s c) = Io_idle" and "k_open s fd" and "k_in s fd = []"
    and "\<not> k_eof s fd" and "k_interest s fd = None"
  shows "\<exists>t. net_reach t \<and> io_at (net_co t c) = Io_await Recv fd (new_event\<lparr>ev_awaiter := c\<rparr>) \<and>
     k_interest t = (k_interest s)(fd \<mapsto> (c, True)) \<and> k_open t = k_open s \<and> k_in t = k_in s \<and>
     k_eof t = k_eof s \<and> k_room t = k_room s \<and> net_runner t = net_runner s \<and>
     (\<forall>d. d \<noteq> c \<longrightarrow> net_co t d = net_co s d)"
proof -
  let ?s1 = "put_io c (new_io (Io_call Recv fd) 0 []) s"
  have r1: "net_reach ?s1" using assms(1,2) by (intro net_next [OF assms(1)] start_recv) simp
  let ?s2 = "put_io c (io_read fd (Failure eagain) (net_co ?s1 c)) (did_read fd (Failure eagain) ?s1)"
  have r2: "net_reach ?s2" using assms by (intro net_next [OF r1] reading) (simp_all add: put_io_def)
  have at2: "io_at (net_co ?s2 c) = Io_register Recv fd" by (simp add: after_read_def)
  let ?s3 = "put_io c (io_suspend c fd Recv (Success ()) 0 (net_co ?s2 c)) (did_add c fd (Success ()) ?s2)"
  have r3: "net_reach ?s3" using assms at2 by (intro net_next [OF r2] suspending) simp_all
  have "io_at (net_co ?s3 c) = Io_await Recv fd (new_event\<lparr>ev_awaiter := c\<rparr>) \<and>
     k_interest ?s3 = (k_interest s)(fd \<mapsto> (c, True)) \<and> k_open ?s3 = k_open s \<and> k_in ?s3 = k_in s \<and>
     k_eof ?s3 = k_eof s \<and> k_room ?s3 = k_room s \<and> net_runner ?s3 = net_runner s \<and>
     (\<forall>d. d \<noteq> c \<longrightarrow> net_co ?s3 d = net_co s d)"
    by (simp add: io_suspend_cases) (simp add: put_io_def)
  with r3 show ?thesis by blast
qed

text \<open>
  Full duplex does not work: while a coroutine is suspended in \<open>recv\<close>, another that would have to wait in
  \<open>send\<close> on the same socket fails instead.
\<close>

lemma duplex_send_fails:
  "\<exists>s. net_reach s \<and> awaits s 1 3 \<and>
       io_at (net_co s 2) = Io_done (Sent [] (errno_code eexist)) \<and> failed (errno_code eexist)"
proof -
  obtain s where s: "net_reach s" "io_at (net_co s 1) = Io_await Recv 3 (new_event\<lparr>ev_awaiter := 1\<rparr>)"
      "k_interest s = [3 \<mapsto> (1, True)]" "k_open s 3" "k_room s 3 = 0" "io_at (net_co s 2) = Io_idle"
    using reader_suspends [OF net_start, of 1 3] by (auto simp: new_net_def)
  let ?s1 = "put_io 2 (new_io (Io_call (Send 0 ''x'' []) 3) 0 ''x'') s"
  have r1: "net_reach ?s1" using s by (intro net_next [OF s(1)] start_send) simp
  let ?s2 = "put_io 2 (io_write 3 0 ''x'' [] (Failure eagain) (net_co ?s1 2)) (did_write 3 (Failure eagain) ?s1)"
  have r2: "net_reach ?s2" using s by (intro net_next [OF r1] writing) (simp_all add: put_io_def)
  have at2: "io_at (net_co ?s2 2) = Io_register (Send eagain ''x'' []) 3" by (simp add: after_write_def)
  let ?s3 = "put_io 2 (io_suspend 2 3 (Send eagain ''x'' []) (Failure eexist) 0 (net_co ?s2 2))
    (did_add 2 3 (Failure eexist) ?s2)"
  have r3: "net_reach ?s3" using s at2 by (intro net_next [OF r2] suspending) simp_all
  have f: "failed (errno_code eexist)" by (simp add: failed_errno_code eexist_def int_min_def int_max_def)
  then have "awaits ?s3 1 3 \<and> io_at (net_co ?s3 2) = Io_done (Sent [] (errno_code eexist))"
    using s(2) by (simp add: awaits_def io_suspend_cases)
  with r3 f show ?thesis by blast
qed

text \<open>
  Closing a socket wakes nobody: a coroutine that awaits it, and whose event is not already with the
  service, stays suspended whatever happens.
\<close>

lemma closed_socket_sleeps:
  assumes "net_step s t" and "net_inv s" and "awaits s c fd" and "\<not> k_open s fd"
    and "c \<notin> set (sv_batch (net_runner s))"
  shows "awaits t c fd \<and> \<not> k_open t fd \<and> c \<notin> set (sv_batch (net_runner t))"
  using assms
proof (induction rule: net_step.induct)
  case (waiting s evs)
  then have rel: "wait_rel (sv_batch (net_runner s)) (awaits s) (k_interest s) (k_open s)"
    by (simp add: net_inv_def wait_inv_def)
  have "c \<noteq> d" if "(fd', d) \<in> set evs" for fd' d
  proof -
    from that waiting have "k_interest s fd' = Some (d, True)" by (auto simp: reportable_def)
    from wait_rel_entry [OF rel this] have "k_open s fd'" "awaits s d fd'" by simp_all
    with waiting.prems wait_rel_one [OF rel] show ?thesis by blast
  qed
  then have "c \<notin> snd ` set evs" by force
  with waiting.prems show ?case by simp
next
  case (resuming s d evs op fd' ev del awaiter ev' errno)
  then have "awaiter = d" using event_resume_await by (auto simp: net_inv_def)
  with resuming show ?case by (auto simp: awaits_def)
qed (auto simp: awaits_def)

theorem net_no_lost_wakeup_witness:
  "\<exists>s. net_reach s \<and> awaits s 1 3 \<and> k_interest s 3 = Some (1, True) \<and> net_runner s = Sv_wait"
proof -
  obtain s where s: "net_reach s" "io_at (net_co s 1) = Io_await Recv 3 (new_event\<lparr>ev_awaiter := 1\<rparr>)"
      "k_open s 3" "net_runner s = Sv_wait"
    using reader_suspends [OF net_start, of 1 3] by (auto simp: new_net_def)
  with net_no_lost_wakeup [OF s(1-3)] show ?thesis by (auto simp: awaits_def)
qed

theorem net_refines_calls_witness:
  "\<exists>s. net_reach s \<and> io_at (net_co s 1) = Io_done (Received ''hi'' no_error) \<and>
       tcp_recv (io_reads (net_co s 1)) (map fst (io_waits (net_co s 1))) = Some (''hi'', no_error)"
proof -
  obtain s where s: "net_reach s" "io_at (net_co s 1) = Io_await Recv 3 (new_event\<lparr>ev_awaiter := 1\<rparr>)"
      "k_interest s 3 = Some (1, True)" "k_open s 3" "k_in s 3 = []" "\<not> k_eof s 3" "net_runner s = Sv_wait"
    using reader_suspends [OF net_start, of 1 3] by (auto simp: new_net_def)
  let ?s1 = "s\<lparr>k_in := (k_in s)(3 := k_in s 3 @ ''hi''), k_arrived := (k_arrived s)(3 := k_arrived s 3 @ ''hi'')\<rparr>"
  have r1: "net_reach ?s1" using s by (intro net_next [OF s(1)] arrive) simp_all
  let ?s2 = "did_report [(3, 1)] ?s1"
  have r2: "net_reach ?s2" using s by (intro net_next [OF r1] waiting) (simp_all add: reportable_def)
  let ?s3 = "(put_io 1 (io_waited 3 Recv no_error 0 (net_co ?s2 1)) (did_del 3 (Success ()) ?s2))
    \<lparr>net_runner := Sv_running 1 []\<rparr>"
  let ?ev = "new_event\<lparr>ev_awaiter := 1\<rparr>"
  have ev: "event_resume (Success ()) ?ev = (1, ?ev)" "event_await_resume ?ev = no_error"
    by (simp_all add: event_resume_def event_await_resume_def new_event_def)
  have "net_step ?s2 ((put_io 1 (io_waited 3 Recv (event_await_resume ?ev) 0 (net_co ?s2 1))
      (did_del 3 (Success ()) ?s2))\<lparr>net_runner := Sv_running 1 []\<rparr>)"
    by (rule resuming [OF _ _ _ ev(1)]) (use s in \<open>simp_all add: did_report_def disarm_def\<close>)
  then have r3: "net_reach ?s3" by (intro net_next [OF r2]) (simp only: ev(2))
  let ?s4 = "put_io 1 (io_read 3 (Success ''hi'') (net_co ?s3 1)) (did_read 3 (Success ''hi'') ?s3)"
  have r4: "net_reach ?s4" using s by (intro net_next [OF r3] reading) (simp_all add: did_report_def put_io_def)
  have "io_at (net_co ?s4 1) = Io_done (Received ''hi'' no_error)" by (simp add: after_read_def)
  with net_refines_calls [OF r4 this] r4 show ?thesis by auto
qed

end
