(* ===== verification/Service.thy ===== *)
theory Service
  imports System_Calls
begin

text \<open>
  The network service of \<open>ice/net/service.cpp\<close> on Linux: a thread that waits for the events of
  descriptors, and for interruptions by which \<open>post\<close> and \<open>stop\<close> make it look at the scheduler. The
  scheduler appears as the queue it implements. Epoll appears by what its documentation promises of
  the interruption: the one-shot registration of the event descriptor is armed by every \<open>interrupt\<close>,
  a wait may report it only while it is armed and disarms it then. Otherwise a wait may report any
  events, time out when it has a timeout, be interrupted by a signal, or fail.
\<close>

section \<open>Creating the service\<close>

record service =
  svc_handle :: int
  svc_events :: int
  svc_closed :: "int list"

definition new_service :: service where
  "new_service = \<lparr>svc_handle = -1, svc_events = -1, svc_closed = []\<rparr>"

definition service_interrupt :: "unit sys \<Rightarrow> error_code" where
  "service_interrupt rc = (case rc of Failure e \<Rightarrow> errno_code e | Success _ \<Rightarrow> no_error)"

text \<open>Moving a new descriptor into a handle of the service closes the one it held.\<close>

definition set_events :: "int \<Rightarrow> service \<Rightarrow> service" where
  "set_events fd s =
     (if svc_events s \<noteq> -1 then s\<lparr>svc_closed := svc_closed s @ [svc_events s], svc_events := fd\<rparr>
      else s\<lparr>svc_events := fd\<rparr>)"

definition set_handle :: "int \<Rightarrow> service \<Rightarrow> service" where
  "set_handle fd s =
     (if svc_handle s \<noteq> -1 then s\<lparr>svc_closed := svc_closed s @ [svc_handle s], svc_handle := fd\<rparr>
      else s\<lparr>svc_handle := fd\<rparr>)"

text \<open>Descriptors that were opened before a later call failed are closed, the last one first.\<close>

definition service_create ::
    "int sys \<Rightarrow> int sys \<Rightarrow> unit sys \<Rightarrow> unit sys \<Rightarrow> service \<Rightarrow> error_code \<times> service" where
  "service_create epoll eventfd ctl_add ctl_mod s =
     (case epoll of
        Failure e \<Rightarrow> (errno_code e, s)
      | Success handle \<Rightarrow>
          (case eventfd of
             Failure e \<Rightarrow> (errno_code e, s\<lparr>svc_closed := svc_closed s @ [handle]\<rparr>)
           | Success events \<Rightarrow>
               (case ctl_add of
                  Failure e \<Rightarrow> (errno_code e, s\<lparr>svc_closed := svc_closed s @ [events, handle]\<rparr>)
                | Success _ \<Rightarrow>
                    (service_interrupt ctl_mod, set_handle handle (set_events events s)))))"

lemma service_create_leaks_nothing:
  "service_create (Success h) (Success v) ctl_add ctl_mod new_service = (ec, s) \<Longrightarrow>
   (svc_handle s = h \<and> svc_events s = v \<and> svc_closed s = []) \<or>
   (svc_handle s = -1 \<and> svc_events s = -1 \<and> svc_closed s = [v, h])"
  by (auto simp: service_create_def new_service_def set_handle_def set_events_def split: sys.splits)

section \<open>Running the service\<close>

text \<open>
  The running thread: not in \<open>run\<close>; at the wait, with its copy of \<open>stop_\<close>; going through the events
  reported (\<^const>\<open>None\<close> is the interruption, which has no event object), with \<open>interrupted\<close>; before
  \<open>process\<close>; resuming what \<open>process\<close> took; returned. A caller is either idle or has made its change
  and is about to interrupt. Ghost fields: what was posted and resumed, what the last call of each caller
  returned, and whether an interruption has failed since the last one that was made or seen.
\<close>

datatype run_state =
    V_out
  | V_wait bool
  | V_events "addr option list" bool bool
  | V_process bool
  | V_run "addr list" bool
  | V_done error_code

record svc =
  s_queue :: "addr list"
  s_stop :: bool
  s_armed :: bool
  s_runner :: run_state
  s_caller :: "nat \<Rightarrow> bool"
  s_posted :: "addr list"
  s_resumed :: "addr list"
  s_returned :: "nat \<Rightarrow> error_code"
  s_failed :: bool

definition new_svc :: svc where
  "new_svc =
     \<lparr>s_queue = [], s_stop = False, s_armed = True, s_runner = V_out, s_caller = (\<lambda>_. False),
      s_posted = [], s_resumed = [], s_returned = (\<lambda>_. no_error), s_failed = False\<rparr>"

inductive run_step :: "svc \<Rightarrow> svc \<Rightarrow> bool" where
  start:
    "s_runner s = V_out \<Longrightarrow> run_step s (s\<lparr>s_runner := V_wait (s_stop s)\<rparr>)"
| wait_events:
    "s_runner s = V_wait stop \<Longrightarrow> evs \<noteq> [] \<Longrightarrow> None \<in> set evs \<longrightarrow> s_armed s \<Longrightarrow>
     run_step s (s\<lparr>s_armed := (s_armed s \<and> None \<notin> set evs), s_runner := V_events evs False stop\<rparr>)"
| wait_timeout:
    "s_runner s = V_wait True \<Longrightarrow>
     run_step s (s\<lparr>s_runner := (if s_stop s then V_done no_error else V_events [] False True)\<rparr>)"
| wait_signal:
    "s_runner s = V_wait stop \<Longrightarrow>
     run_step s (s\<lparr>s_runner := (if s_stop s then V_done no_error else V_events [] False stop)\<rparr>)"
| wait_failed:
    "s_runner s = V_wait stop \<Longrightarrow> e \<noteq> eintr \<Longrightarrow>
     run_step s (s\<lparr>s_runner := V_done (errno_code e)\<rparr>)"
| resume_event:
    "s_runner s = V_events (Some ev # evs) interrupted stop \<Longrightarrow>
     run_step s (s\<lparr>s_runner := V_events evs interrupted stop\<rparr>)"
| see_interrupt:
    "s_runner s = V_events (None # evs) interrupted stop \<Longrightarrow>
     run_step s (s\<lparr>s_runner := V_events evs True (s_stop s), s_failed := False\<rparr>)"
| events_end:
    "s_runner s = V_events [] interrupted stop \<Longrightarrow>
     run_step s (s\<lparr>s_runner := (if interrupted then V_process stop else V_wait stop)\<rparr>)"
| take_queue:
    "s_runner s = V_process stop \<Longrightarrow>
     run_step s (s\<lparr>s_queue := [], s_runner := V_run (s_queue s) stop\<rparr>)"
| resume_next:
    "s_runner s = V_run (x # xs) stop \<Longrightarrow>
     run_step s (s\<lparr>s_runner := V_run xs stop, s_resumed := s_resumed s @ [x]\<rparr>)"
| run_end:
    "s_runner s = V_run [] stop \<Longrightarrow> run_step s (s\<lparr>s_runner := V_wait stop\<rparr>)"

text \<open>
  \<open>post\<close> and \<open>stop\<close> make their change, then interrupt and return the error of that; a change that could not
  be announced stays made.
\<close>

inductive call_step :: "svc \<Rightarrow> svc \<Rightarrow> bool" where
  call_post:
    "\<not> s_caller s c \<Longrightarrow> x \<noteq> 0 \<Longrightarrow>
     call_step s (s\<lparr>s_queue := s_queue s @ [x], s_posted := s_posted s @ [x],
                    s_caller := (s_caller s)(c := True)\<rparr>)"
| call_stop:
    "\<not> s_caller s c \<Longrightarrow>
     call_step s (s\<lparr>s_stop := b, s_caller := (s_caller s)(c := True)\<rparr>)"
| interrupt:
    "s_caller s c \<Longrightarrow> service_interrupt (Success ()) = ec \<Longrightarrow>
     call_step s (s\<lparr>s_armed := True, s_caller := (s_caller s)(c := False),
                    s_returned := (s_returned s)(c := ec), s_failed := False\<rparr>)"
| interrupt_fails:
    "s_caller s c \<Longrightarrow> 0 < e \<Longrightarrow> e \<le> int_max \<Longrightarrow> service_interrupt (Failure e) = ec \<Longrightarrow>
     call_step s (s\<lparr>s_caller := (s_caller s)(c := False), s_returned := (s_returned s)(c := ec),
                    s_failed := True\<rparr>)"

inductive svc_reach :: "svc \<Rightarrow> bool" where
  created: "svc_reach new_svc"
| by_runner: "svc_reach s \<Longrightarrow> run_step s t \<Longrightarrow> svc_reach t"
| by_caller: "svc_reach s \<Longrightarrow> call_step s t \<Longrightarrow> svc_reach t"

section \<open>The invariant\<close>

fun taken :: "run_state \<Rightarrow> addr list" where
  "taken (V_run xs stop) = xs"
| "taken _ = []"

text \<open>The runner has seen an interruption, or will see one, before it waits again.\<close>

fun will_process :: "run_state \<Rightarrow> bool" where
  "will_process (V_events evs interrupted stop) = (interrupted \<or> None \<in> set evs)"
| "will_process (V_process stop) = True"
| "will_process _ = False"

fun stale_stop :: "run_state \<Rightarrow> bool" where
  "stale_stop (V_wait stop) = (\<not> stop)"
| "stale_stop (V_events evs interrupted stop) = (\<not> stop \<and> None \<notin> set evs)"
| "stale_stop (V_process stop) = (\<not> stop)"
| "stale_stop (V_run xs stop) = (\<not> stop)"
| "stale_stop _ = False"

definition interrupt_coming :: "svc \<Rightarrow> bool" where
  "interrupt_coming s \<longleftrightarrow> s_armed s \<or> (\<exists>c. s_caller s c) \<or> s_failed s"

definition svc_inv :: "svc \<Rightarrow> bool" where
  "svc_inv s \<longleftrightarrow>
     s_posted s = s_resumed s @ taken (s_runner s) @ s_queue s \<and>
     (s_queue s \<noteq> [] \<longrightarrow> interrupt_coming s \<or> will_process (s_runner s)) \<and>
     (s_stop s \<and> stale_stop (s_runner s) \<longrightarrow> interrupt_coming s) \<and>
     (s_failed s \<longrightarrow> (\<exists>c. failed (s_returned s c)))"

lemma run_step_inv: "run_step s t \<Longrightarrow> svc_inv s \<Longrightarrow> svc_inv t"
  by (induction rule: run_step.induct) (auto simp: svc_inv_def interrupt_coming_def)

lemma calling_one: "\<exists>d. (f(c := True)) d"
  by (rule exI [of _ c]) simp

lemma told_one: "P v \<Longrightarrow> \<exists>d. P ((f(c := v)) d)"
  by (rule exI [of _ c]) simp

lemma interrupt_error [simp]: "0 < e \<Longrightarrow> e \<le> int_max \<Longrightarrow> failed (service_interrupt (Failure e))"
  by (simp add: service_interrupt_def failed_errno_code int_min_def)

lemma call_step_inv: "call_step s t \<Longrightarrow> svc_inv s \<Longrightarrow> svc_inv t"
  by (induction rule: call_step.induct)
     (auto simp: svc_inv_def interrupt_coming_def calling_one told_one simp del: fun_upd_apply)

lemma svc_reach_inv: "svc_reach s \<Longrightarrow> svc_inv s"
proof (induction rule: svc_reach.induct)
  case created
  show ?case by (simp add: svc_inv_def new_svc_def)
qed (auto intro: run_step_inv call_step_inv)

section \<open>Properties\<close>

text \<open>
  C22: The service loses no wake-up unless an interruption fails: when its thread waits while a coroutine
  is queued, or without timeout after a stop was requested, an interruption is armed or about to be, or
  one has failed since the last that was made or seen, and its caller was told so. Whether interruptions fail or
  not, what was posted is resumed in order, none twice and none dropped.
\<close>

theorem service_no_lost_wakeup:
  assumes "svc_reach s"
  shows "s_posted s = s_resumed s @ taken (s_runner s) @ s_queue s \<and>
         (\<forall>stop. s_runner s = V_wait stop \<and> (s_queue s \<noteq> [] \<or> s_stop s \<and> \<not> stop) \<longrightarrow>
                 s_armed s \<or> (\<exists>c. s_caller s c) \<or> s_failed s) \<and>
         (s_failed s \<longrightarrow> (\<exists>c. failed (s_returned s c)))"
  using svc_reach_inv [OF assms] by (auto simp: svc_inv_def interrupt_coming_def)

text \<open>A coroutine is posted while the thread waits, and resumed.\<close>

lemma service_run:
  "\<exists>s s'. svc_reach s \<and> s_runner s = V_wait False \<and> s_queue s = [7] \<and> \<not> s_failed s \<and>
          svc_reach s' \<and> s_posted s' = [7] \<and> s_resumed s' = [7] \<and> s_runner s' = V_wait False"
proof -
  note r = svc_reach.by_runner and c = svc_reach.by_caller
  note s1 = r [OF svc_reach.created run_step.start, simplified new_svc_def, simplified]
  note s2 = c [OF s1 call_step.call_post [of _ 1 7], simplified]
  note s3 = r [OF s2 run_step.wait_events [of _ False "[None]"], simplified]
  note s4 = r [OF s3 run_step.see_interrupt [of _ "[]" False False], simplified]
  note s5 = r [OF s4 run_step.events_end [of _ True False], simplified]
  note s6 = r [OF s5 run_step.take_queue [of _ False], simplified]
  note s7 = r [OF s6 run_step.resume_next [of _ 7 "[]" False], simplified]
  note s8 = r [OF s7 run_step.run_end [of _ False], simplified]
  show ?thesis
    by (intro exI conjI, rule s2, simp, simp, simp, rule s8) simp_all
qed

text \<open>
  The other case exists: a coroutine is posted, the interruption fails, and the thread waits without
  timeout with nothing to wake it. Only what \<open>post\<close> returned shows it.
\<close>

lemma service_failed_interrupt:
  "\<exists>s. svc_reach s \<and> s_runner s = V_wait False \<and> s_queue s = [7] \<and> \<not> s_armed s \<and>
       (\<forall>c. \<not> s_caller s c) \<and> failed (s_returned s 1)"
proof -
  note r = svc_reach.by_runner and c = svc_reach.by_caller
  note s1 = r [OF svc_reach.created run_step.start, simplified new_svc_def, simplified]
  note s2 = r [OF s1 run_step.wait_events [of _ False "[None]"], simplified]
  note s3 = r [OF s2 run_step.see_interrupt [of _ "[]" False False], simplified]
  note s4 = r [OF s3 run_step.events_end [of _ True False], simplified]
  note s5 = r [OF s4 run_step.take_queue [of _ False], simplified]
  note s6 = r [OF s5 run_step.run_end [of _ False], simplified]
  note s7 = c [OF s6 call_step.call_post [of _ 1 7], simplified]
  note s8 = c [OF s7 call_step.interrupt_fails [of _ 1 12, OF _ _ _ refl], simplified]
  show ?thesis
    by (intro exI conjI, rule s8) (simp_all add: int_max_def)
qed

theorem service_no_lost_wakeup_witness:
  "\<exists>s. svc_reach s \<and> s_runner s = V_wait False \<and> s_queue s = [7] \<and>
       \<not> s_failed s \<and> (s_armed s \<or> (\<exists>c. s_caller s c))"
proof -
  obtain s where s: "svc_reach s" "s_runner s = V_wait False" "s_queue s = [7]" "\<not> s_failed s"
    using service_run by blast
  with service_no_lost_wakeup [OF s(1)] show ?thesis by auto
qed

text \<open>\<open>run\<close> returns without an error only when a stop was requested.\<close>

lemma errno_code_not_ok: "errno_code e \<noteq> no_error"
  by (simp add: errno_code_def no_error_def)

lemma run_returns_stopped: "run_step s t \<Longrightarrow> s_runner t = V_done no_error \<Longrightarrow> s_stop s"
  by (erule run_step.cases) (auto simp: errno_code_not_ok split: if_splits)

end
