(* ===== verification/Service_Port.thy ===== *)
theory Service_Port
  imports Service
begin

text \<open>
  The network service of \<open>ice/net/service.cpp\<close> on its other two platforms. On FreeBSD only \<open>create\<close>
  differs: the user event of kqueue is triggered by \<open>interrupt\<close>, reported while it is triggered and
  cleared by the report, so the loop is the one of the epoll theory, where the same is said of the armed
  registration. On Windows the thread takes packets from a completion port: completions of events, and
  the packets without an event that \<open>interrupt\<close> posts.
\<close>

section \<open>Creating the service\<close>

definition service_create_kqueue :: "int sys \<Rightarrow> unit sys \<Rightarrow> unit sys \<Rightarrow> service \<Rightarrow> error_code \<times> service" where
  "service_create_kqueue kqueue add trigger s =
     (case kqueue of
        Failure e \<Rightarrow> (errno_code e, s)
      | Success handle \<Rightarrow>
          (case add of
             Failure e \<Rightarrow> (errno_code e, s\<lparr>svc_closed := svc_closed s @ [handle]\<rparr>)
           | Success _ \<Rightarrow> (service_interrupt trigger, set_handle handle s)))"

text \<open>
  Windows: the sockets are started once; the version that \<open>WSAStartup\<close> stores is checked even when it
  failed.
\<close>

definition wsa_startup :: "int \<Rightarrow> int \<Rightarrow> int \<Rightarrow> error_code" where
  "wsa_startup rc major minor =
     (let ec = (if rc \<noteq> 0 then errno_code rc else no_error)
      in if major < 2 \<or> major = 2 \<and> minor < 2 then make_error_code (Ice_errc Version_mismatch) else ec)"

definition service_create_port :: "error_code \<Rightarrow> int sys \<Rightarrow> unit sys \<Rightarrow> service \<Rightarrow> error_code \<times> service" where
  "service_create_port wsa port packet s =
     (if failed wsa then (wsa, s)
      else case port of
             Failure e \<Rightarrow> (errno_code e, s)
           | Success handle \<Rightarrow> (service_interrupt packet, set_handle handle s))"

lemma kqueue_create_leaks_nothing:
  "service_create_kqueue (Success h) add trigger new_service = (ec, s) \<Longrightarrow>
   svc_handle s = h \<and> svc_closed s = [] \<or> svc_handle s = -1 \<and> svc_closed s = [h]"
  by (auto simp: service_create_kqueue_def new_service_def set_handle_def split: sys.splits)

text \<open>A failure of \<open>WSAStartup\<close> is reported as a wrong version when it stored none.\<close>

lemma startup_error_hidden: "wsa_startup rc 0 0 = make_error_code (Ice_errc Version_mismatch)"
  by (simp add: wsa_startup_def)

section \<open>Running on a completion port\<close>

text \<open>
  Ghost fields: the coroutines posted and resumed, the completions delivered by the system and the
  events resumed, what the last call of each caller returned, and whether an interruption has failed since
  the last one that was made or seen.
\<close>

record port =
  p_queue :: "addr list"
  p_stop :: bool
  p_packets :: "addr option list"
  p_runner :: run_state
  p_caller :: "nat \<Rightarrow> bool"
  p_posted :: "addr list"
  p_resumed :: "addr list"
  p_completed :: "addr list"
  p_handled :: "addr list"
  p_returned :: "nat \<Rightarrow> error_code"
  p_failed :: bool

definition new_port :: port where
  "new_port =
     \<lparr>p_queue = [], p_stop = False, p_packets = [None], p_runner = V_out, p_caller = (\<lambda>_. False),
      p_posted = [], p_resumed = [], p_completed = [], p_handled = [],
      p_returned = (\<lambda>_. no_error), p_failed = False\<rparr>"

definition error_abandoned_wait :: int where
  "error_abandoned_wait = 735"

definition wait_timeout :: int where
  "wait_timeout = 258"

text \<open>A wait takes some packets; without any it times out if it has a timeout, or fails.\<close>

inductive port_step :: "port \<Rightarrow> port \<Rightarrow> bool" where
  start:
    "p_runner s = V_out \<Longrightarrow> port_step s (s\<lparr>p_runner := V_wait (p_stop s)\<rparr>)"
| dequeue:
    "p_runner s = V_wait stop \<Longrightarrow> p_packets s = evs @ rest \<Longrightarrow> evs \<noteq> [] \<Longrightarrow>
     port_step s (s\<lparr>p_packets := rest, p_runner := V_events evs False stop\<rparr>)"
| timeout:
    "p_runner s = V_wait True \<Longrightarrow> p_packets s = [] \<Longrightarrow> e = wait_timeout \<Longrightarrow>
     port_step s (s\<lparr>p_runner := V_done no_error\<rparr>)"
| abandoned:
    "p_runner s = V_wait stop \<Longrightarrow> e = error_abandoned_wait \<Longrightarrow>
     port_step s (s\<lparr>p_runner := V_done no_error\<rparr>)"
| wait_failed:
    "p_runner s = V_wait stop \<Longrightarrow> e \<notin> {error_abandoned_wait, wait_timeout} \<Longrightarrow>
     port_step s (s\<lparr>p_runner := V_done (errno_code e)\<rparr>)"
| resume_event:
    "p_runner s = V_events (Some ev # evs) interrupted stop \<Longrightarrow>
     port_step s (s\<lparr>p_runner := V_events evs interrupted stop, p_handled := p_handled s @ [ev]\<rparr>)"
| see_interrupt:
    "p_runner s = V_events (None # evs) interrupted stop \<Longrightarrow>
     port_step s (s\<lparr>p_runner := V_events evs True (p_stop s), p_failed := False\<rparr>)"
| events_end:
    "p_runner s = V_events [] interrupted stop \<Longrightarrow>
     port_step s (s\<lparr>p_runner := (if interrupted then V_process stop else V_wait stop)\<rparr>)"
| take_queue:
    "p_runner s = V_process stop \<Longrightarrow>
     port_step s (s\<lparr>p_queue := [], p_runner := V_run (p_queue s) stop\<rparr>)"
| resume_next:
    "p_runner s = V_run (x # xs) stop \<Longrightarrow>
     port_step s (s\<lparr>p_runner := V_run xs stop, p_resumed := p_resumed s @ [x]\<rparr>)"
| run_end:
    "p_runner s = V_run [] stop \<Longrightarrow> port_step s (s\<lparr>p_runner := V_wait stop\<rparr>)"

inductive port_call :: "port \<Rightarrow> port \<Rightarrow> bool" where
  call_post:
    "\<not> p_caller s c \<Longrightarrow> x \<noteq> 0 \<Longrightarrow>
     port_call s (s\<lparr>p_queue := p_queue s @ [x], p_posted := p_posted s @ [x],
                    p_caller := (p_caller s)(c := True)\<rparr>)"
| call_stop:
    "\<not> p_caller s c \<Longrightarrow>
     port_call s (s\<lparr>p_stop := b, p_caller := (p_caller s)(c := True)\<rparr>)"
| interrupt:
    "p_caller s c \<Longrightarrow> service_interrupt (Success ()) = ec \<Longrightarrow>
     port_call s (s\<lparr>p_packets := p_packets s @ [None], p_caller := (p_caller s)(c := False),
                    p_returned := (p_returned s)(c := ec), p_failed := False\<rparr>)"
| interrupt_fails:
    "p_caller s c \<Longrightarrow> 0 < e \<Longrightarrow> e \<le> int_max \<Longrightarrow> service_interrupt (Failure e) = ec \<Longrightarrow>
     port_call s (s\<lparr>p_caller := (p_caller s)(c := False), p_returned := (p_returned s)(c := ec),
                    p_failed := True\<rparr>)"
| completion:
    "port_call s (s\<lparr>p_packets := p_packets s @ [Some ev], p_completed := p_completed s @ [ev]\<rparr>)"

inductive port_reach :: "port \<Rightarrow> bool" where
  created: "port_reach new_port"
| by_runner: "port_reach s \<Longrightarrow> port_step s t \<Longrightarrow> port_reach t"
| by_caller: "port_reach s \<Longrightarrow> port_call s t \<Longrightarrow> port_reach t"

section \<open>The invariant\<close>

fun batch :: "run_state \<Rightarrow> addr option list" where
  "batch (V_events evs interrupted stop) = evs"
| "batch _ = []"

definition events_of :: "addr option list \<Rightarrow> addr list" where
  "events_of ps = map the (filter (\<lambda>p. p \<noteq> None) ps)"

lemma events_of_simps [simp]:
  "events_of [] = []" "events_of (None # ps) = events_of ps" "events_of (Some ev # ps) = ev # events_of ps"
  "events_of (ps @ qs) = events_of ps @ events_of qs"
  by (simp_all add: events_of_def)

definition packet_coming :: "port \<Rightarrow> bool" where
  "packet_coming s \<longleftrightarrow> None \<in> set (p_packets s) \<or> (\<exists>c. p_caller s c) \<or> p_failed s"

definition port_inv :: "port \<Rightarrow> bool" where
  "port_inv s \<longleftrightarrow>
     p_posted s = p_resumed s @ taken (p_runner s) @ p_queue s \<and>
     p_completed s = p_handled s @ events_of (batch (p_runner s)) @ events_of (p_packets s) \<and>
     (p_queue s \<noteq> [] \<longrightarrow> packet_coming s \<or> will_process (p_runner s) \<or> (\<exists>ec. p_runner s = V_done ec)) \<and>
     (p_stop s \<and> stale_stop (p_runner s) \<longrightarrow> packet_coming s) \<and>
     (p_failed s \<longrightarrow> (\<exists>c. failed (p_returned s c)))"

lemma port_step_inv: "port_step s t \<Longrightarrow> port_inv s \<Longrightarrow> port_inv t"
  by (induction rule: port_step.induct) (auto simp: port_inv_def packet_coming_def)

lemma port_call_inv: "port_call s t \<Longrightarrow> port_inv s \<Longrightarrow> port_inv t"
  by (induction rule: port_call.induct)
     (auto simp: port_inv_def packet_coming_def calling_one told_one simp del: fun_upd_apply)

lemma port_reach_inv: "port_reach s \<Longrightarrow> port_inv s"
proof (induction rule: port_reach.induct)
  case created
  show ?case by (simp add: port_inv_def new_port_def)
qed (auto intro: port_step_inv port_call_inv)

section \<open>Properties\<close>

text \<open>
  C32: On a completion port, every completion is handled once and in the order of the port, every posted
  coroutine is resumed once and in order, whether interruptions fail or not. When the thread waits while a
  coroutine is queued, or without timeout after a stop was requested, an interruption is in the port or
  about to be posted, or one has failed since the last that was posted or seen, and its caller was told so.
\<close>

theorem port_no_lost_wakeup:
  assumes "port_reach s"
  shows "p_completed s = p_handled s @ events_of (batch (p_runner s)) @ events_of (p_packets s) \<and>
         p_posted s = p_resumed s @ taken (p_runner s) @ p_queue s \<and>
         (\<forall>stop. p_runner s = V_wait stop \<and> (p_queue s \<noteq> [] \<or> p_stop s \<and> \<not> stop) \<longrightarrow>
                 None \<in> set (p_packets s) \<or> (\<exists>c. p_caller s c) \<or> p_failed s) \<and>
         (p_failed s \<longrightarrow> (\<exists>c. failed (p_returned s c)))"
  using port_reach_inv [OF assms] by (auto simp: port_inv_def packet_coming_def)

text \<open>The other case exists here too: a coroutine is queued and the port is empty.\<close>

lemma port_failed_interrupt:
  "\<exists>s. port_reach s \<and> p_runner s = V_wait False \<and> p_queue s = [7] \<and> p_packets s = [] \<and>
       (\<forall>c. \<not> p_caller s c) \<and> failed (p_returned s 1)"
proof -
  note r = port_reach.by_runner and c = port_reach.by_caller
  note s1 = r [OF port_reach.created port_step.start, simplified new_port_def, simplified]
  note s2 = r [OF s1 port_step.dequeue [of _ False "[None]" "[]"], simplified]
  note s3 = r [OF s2 port_step.see_interrupt [of _ "[]" False False], simplified]
  note s4 = r [OF s3 port_step.events_end [of _ True False], simplified]
  note s5 = r [OF s4 port_step.take_queue [of _ False], simplified]
  note s6 = r [OF s5 port_step.run_end [of _ False], simplified]
  note s7 = c [OF s6 port_call.call_post [of _ 1 7], simplified]
  note s8 = c [OF s7 port_call.interrupt_fails [of _ 1 12, OF _ _ _ refl], simplified]
  show ?thesis
    by (intro exI conjI, rule s8) (simp_all add: int_max_def)
qed

theorem port_no_lost_wakeup_witness:
  "\<exists>s. port_reach s \<and> p_runner s = V_wait False \<and> p_queue s = [7] \<and> p_completed s = [9] \<and>
       events_of (p_packets s) = [9] \<and> \<not> p_failed s \<and> (None \<in> set (p_packets s) \<or> (\<exists>c. p_caller s c))"
proof -
  note r = port_reach.by_runner and c = port_reach.by_caller
  note s1 = r [OF port_reach.created port_step.start, simplified new_port_def, simplified]
  note s2 = c [OF s1 port_call.call_post [of _ 1 7], simplified]
  note s3 = c [OF s2 port_call.completion [of _ 9], simplified]
  have "\<exists>s. port_reach s \<and> p_runner s = V_wait False \<and> p_queue s = [7] \<and> p_completed s = [9] \<and>
      events_of (p_packets s) = [9] \<and> \<not> p_failed s"
    by (intro exI conjI, rule s3) simp_all
  then obtain s where s: "port_reach s" "p_runner s = V_wait False" "p_queue s = [7]" "p_completed s = [9]"
    "events_of (p_packets s) = [9]" "\<not> p_failed s" by blast
  with port_no_lost_wakeup [OF s(1)] show ?thesis by auto
qed

text \<open>
  What differs from epoll: \<open>run\<close> returns when it times out on its copy of the flag, also when the stop
  was taken back in the meantime, and what is queued then stays queued.
\<close>

lemma port_leaves_on_stale_stop:
  "p_runner s = V_wait True \<Longrightarrow> p_packets s = [] \<Longrightarrow> \<exists>t. port_step s t \<and> p_runner t = V_done no_error"
  using port_step.timeout [of s wait_timeout] by fastforce

end
