(* ===== verification/Ssh_Session.thy ===== *)
theory Ssh_Session
  imports Byte_Stream "HOL-Library.Multiset"
begin

text \<open>
  SSH sessions (\<open>ice/net/ssh/session.cpp\<close>) in the Linux build, over the functions of libssh2. Their
  results and those of the awaited events are inputs of the model.
\<close>

section \<open>The session\<close>

datatype operation = Op_none | Op_recv | Op_send

text \<open>What the session owns: the descriptor of its socket, a libssh2 session and a channel.\<close>

datatype resource = Socket_of int | Session_of addr | Channel_of addr

record session =
  ssh_socket :: int
  ssh_handle :: addr
  ssh_channel :: addr
  ssh_operation :: operation
  released :: "resource list"

definition new_session :: session where
  "new_session =
     \<lparr>ssh_socket = -1, ssh_handle = 0, ssh_channel = 0, ssh_operation = Op_none, released = []\<rparr>"

definition session_ok :: "session \<Rightarrow> bool" where
  "session_ok s \<longleftrightarrow> ssh_socket s \<noteq> -1 \<and> ssh_handle s \<noteq> 0 \<and> ssh_channel s \<noteq> 0"

definition reset_channel :: "addr \<Rightarrow> session \<Rightarrow> session" where
  "reset_channel c s =
     (if ssh_channel s \<noteq> 0
      then s\<lparr>ssh_channel := c, released := released s @ [Channel_of (ssh_channel s)]\<rparr>
      else s\<lparr>ssh_channel := c\<rparr>)"

definition reset_session :: "addr \<Rightarrow> session \<Rightarrow> session" where
  "reset_session h s =
     (if ssh_handle s \<noteq> 0
      then s\<lparr>ssh_handle := h, released := released s @ [Session_of (ssh_handle s)]\<rparr>
      else s\<lparr>ssh_handle := h\<rparr>)"

definition reset_socket :: "int \<Rightarrow> session \<Rightarrow> session" where
  "reset_socket fd s =
     (if ssh_socket s \<noteq> -1
      then s\<lparr>ssh_socket := fd, released := released s @ [Socket_of (ssh_socket s)]\<rparr>
      else s\<lparr>ssh_socket := fd\<rparr>)"

definition session_close :: "session \<Rightarrow> session" where
  "session_close s = reset_socket (-1) (reset_session 0 (reset_channel 0 s))"

section \<open>Waiting\<close>

definition libssh2_eagain :: int where
  "libssh2_eagain = -37"

definition libssh2_alloc :: int where
  "libssh2_alloc = -6"

definition ssh_code :: "int \<Rightarrow> error_code" where
  "ssh_code rc = make_error_code_in rc Ssh_domain_category"

text \<open>
  \<open>io\<close>: the event that is awaited for the last operation that would have blocked; both wait until
  the socket can be read.
\<close>

datatype direction = Wait_recv | Wait_send

fun io_event :: "operation \<Rightarrow> direction option" where
  "io_event Op_recv = Some Wait_recv"
| "io_event Op_send = Some Wait_recv"
| "io_event Op_none = None"

definition einval_code :: error_code where
  "einval_code = make_error_code (Std_errc 22)"

definition ssh_io :: "(direction \<Rightarrow> error_code) \<Rightarrow> operation \<Rightarrow> error_code" where
  "ssh_io event operation =
     (case io_event operation of Some d \<Rightarrow> event d | None \<Rightarrow> einval_code)"

text \<open>
  \<open>loop\<close>: call again while the call would block. The second list: what \<open>io\<close> gives each time; the loop
  does not look at it.
\<close>

fun ssh_loop :: "int list \<Rightarrow> error_code list \<Rightarrow> error_code option" where
  "ssh_loop [] ios = None"
| "ssh_loop (rc # rcs) ios =
     (if rc = 0 then Some no_error
      else if rc \<noteq> libssh2_eagain then Some (ssh_code rc)
      else (case ios of [] \<Rightarrow> None | _ # ios' \<Rightarrow> ssh_loop rcs ios'))"

text \<open>
  The callbacks that libssh2 uses to receive and send: repeated while interrupted; a failure is
  reported as a negative \<open>errno\<close> and noted as the operation to wait for.
\<close>

fun on_transfer :: "operation \<Rightarrow> nat sys list \<Rightarrow> operation \<Rightarrow> (int \<times> operation) option" where
  "on_transfer this [] operation = None"
| "on_transfer this (Success n # rs) operation = Some (int n, operation)"
| "on_transfer this (Failure e # rs) operation =
     (if e = eintr then on_transfer this rs operation else Some (if e > 0 then - e else e, this))"

definition on_recv :: "nat sys list \<Rightarrow> operation \<Rightarrow> (int \<times> operation) option" where
  "on_recv = on_transfer Op_recv"

definition on_send :: "nat sys list \<Rightarrow> operation \<Rightarrow> (int \<times> operation) option" where
  "on_send = on_transfer Op_send"

section \<open>Operations\<close>

text \<open>
  \<open>connect\<close>: the initialisation of the library, the socket, the libssh2 session (null on failure), its
  flags, the connection, and the handshake. Local handles are released when the function returns
  early, the session before the socket.
\<close>

definition ssh_connect ::
    "int \<Rightarrow> int sys \<Rightarrow> addr \<Rightarrow> int \<Rightarrow> error_code \<Rightarrow> int list \<Rightarrow> error_code list \<Rightarrow> session \<Rightarrow>
     (error_code \<times> session) option" where
  "ssh_connect library create init flag connect rcs ios s =
     (if library \<noteq> 0 then Some (ssh_code library, s)
      else (let s = session_close s
            in case create of
                 Failure e \<Rightarrow> Some (errno_code e, s)
               | Success fd \<Rightarrow>
                   if init = 0
                   then Some (ssh_code libssh2_alloc, s\<lparr>released := released s @ [Socket_of fd]\<rparr>)
                   else if flag \<noteq> 0
                   then Some (ssh_code flag, s\<lparr>released := released s @ [Session_of init, Socket_of fd]\<rparr>)
                   else if failed connect
                   then Some (connect, s\<lparr>released := released s @ [Session_of init, Socket_of fd]\<rparr>)
                   else (let s = reset_socket fd (reset_session init s)
                         in case ssh_loop rcs ios of
                              None \<Rightarrow> None
                            | Some ec \<Rightarrow>
                                if failed ec then Some (ec, reset_socket (-1) (reset_session 0 s))
                                else Some (no_error, s))))"

text \<open>
  \<open>disconnect\<close> returns the error of a loop, or reaches its end, where it has no \<open>co_return\<close>: then the
  behaviour is undefined.
\<close>

datatype completion = Returned error_code | Flowed_off

definition ssh_disconnect ::
    "int list \<Rightarrow> error_code list \<Rightarrow> int list \<Rightarrow> error_code list \<Rightarrow> session \<Rightarrow>
     (completion \<times> session) option" where
  "ssh_disconnect close_rcs close_ios disc_rcs disc_ios s =
     (let disconnect_session =
            (\<lambda>s. if ssh_handle s \<noteq> 0
                 then (case ssh_loop disc_rcs disc_ios of
                         None \<Rightarrow> None
                       | Some ec \<Rightarrow>
                           if failed ec then Some (Returned ec, s)
                           else Some (Flowed_off, reset_socket (-1) (reset_session 0 s)))
                 else Some (Flowed_off, reset_socket (-1) s))
      in if ssh_channel s \<noteq> 0
         then (case ssh_loop close_rcs close_ios of
                 None \<Rightarrow> None
               | Some ec \<Rightarrow>
                   if failed ec then Some (Returned ec, s)
                   else disconnect_session (reset_channel 0 s))
         else disconnect_session s)"

text \<open>
  \<open>authenticate\<close>: log in, then open a channel; each attempt gives a channel or null, and the last
  error of the session.
\<close>

fun open_channel ::
    "(addr \<times> int) list \<Rightarrow> error_code list \<Rightarrow> session \<Rightarrow> (error_code \<times> session) option" where
  "open_channel [] ios s = None"
| "open_channel ((channel, rc) # rs) ios s =
     (let s = reset_channel channel s
      in if channel \<noteq> 0 then Some (no_error, s)
         else if rc \<noteq> libssh2_eagain then Some (ssh_code rc, s)
         else (case ios of [] \<Rightarrow> None | _ # ios' \<Rightarrow> open_channel rs ios' s))"

definition ssh_authenticate ::
    "int list \<Rightarrow> error_code list \<Rightarrow> (addr \<times> int) list \<Rightarrow> error_code list \<Rightarrow> session \<Rightarrow>
     (error_code \<times> session) option" where
  "ssh_authenticate rcs ios rs open_ios s =
     (case ssh_loop rcs ios of
        None \<Rightarrow> None
      | Some ec \<Rightarrow> if failed ec then Some (ec, s) else open_channel rs open_ios s)"

definition ssh_exec :: "int list \<Rightarrow> error_code list \<Rightarrow> int \<Rightarrow> (error_code \<times> int) option" where
  "ssh_exec rcs ios exit_status =
     (case ssh_loop rcs ios of
        None \<Rightarrow> None
      | Some ec \<Rightarrow> Some (ec, if failed ec then 1 else exit_status))"

text \<open>
  \<open>recv\<close> and \<open>send\<close>: a call gives bytes, or a negative number. The error code of the caller is not
  cleared first, and errors are made with the native category.
\<close>

fun ssh_recv ::
    "error_code \<Rightarrow> string sys list \<Rightarrow> error_code list \<Rightarrow> (string \<times> error_code) option" where
  "ssh_recv ec [] ios = None"
| "ssh_recv ec (Success bytes # rs) ios = Some (bytes, ec)"
| "ssh_recv ec (Failure rc # rs) ios =
     (if rc \<noteq> libssh2_eagain then Some ([], if rc \<noteq> 0 then errno_code rc else ec)
      else (case ios of [] \<Rightarrow> None | _ # ios' \<Rightarrow> ssh_recv ec rs ios'))"

fun ssh_send_loop ::
    "error_code \<Rightarrow> string \<Rightarrow> string \<Rightarrow> nat sys list \<Rightarrow> error_code list \<Rightarrow>
     (string \<times> error_code) option" where
  "ssh_send_loop ec data sent [] ios = None"
| "ssh_send_loop ec data sent (rc # rs) ios =
     (case rc of
        Success n \<Rightarrow>
          if n = 0 then Some (sent, ec)
          else if drop n data \<noteq> [] then ssh_send_loop ec (drop n data) (sent @ take n data) rs ios
          else Some (sent @ take n data, ec)
      | Failure e \<Rightarrow>
          if e \<noteq> libssh2_eagain then Some (sent, if e \<noteq> 0 then errno_code e else ec)
          else (case ios of
                  [] \<Rightarrow> None
                | _ # ios' \<Rightarrow> if data \<noteq> [] then ssh_send_loop ec data sent rs ios' else Some (sent, ec)))"

definition ssh_send ::
    "string \<Rightarrow> error_code \<times> nat sys list \<times> error_code list \<Rightarrow> (string \<times> error_code) option" where
  "ssh_send data s = (case s of (ec, rs, ios) \<Rightarrow> ssh_send_loop ec data [] rs ios)"

section \<open>Properties\<close>

text \<open>
  \<open>loop\<close> gives the first result of its function that does not mean "try again", as an error code of
  the SSH category, one wait for every attempt before; what the waits give, even an error, plays no
  part.
\<close>

theorem ssh_loop_result:
  assumes "rc \<noteq> libssh2_eagain" and "k \<le> length ios"
  shows "ssh_loop (replicate k libssh2_eagain @ rc # rcs) ios =
         Some (if rc = 0 then no_error else ssh_code rc)"
  using assms(2)
proof (induction k arbitrary: ios)
  case 0
  then show ?case using assms(1) by simp
next
  case (Suc k)
  then obtain w ios' where "ios = w # ios'" by (cases ios) auto
  with Suc show ?case by (simp add: libssh2_eagain_def)
qed

theorem ssh_loop_result_witness:
  "ssh_loop [libssh2_eagain, 0] [einval_code] = Some no_error"
  using ssh_loop_result [of 0 1 "[einval_code]" "[]"] by (simp add: libssh2_eagain_def)

text \<open>What a session holds.\<close>

definition session_holds :: "session \<Rightarrow> resource list" where
  "session_holds s =
     (if ssh_channel s \<noteq> 0 then [Channel_of (ssh_channel s)] else []) @
     (if ssh_handle s \<noteq> 0 then [Session_of (ssh_handle s)] else []) @
     (if ssh_socket s \<noteq> -1 then [Socket_of (ssh_socket s)] else [])"

definition accounted :: "session \<Rightarrow> resource multiset" where
  "accounted s = mset (released s) + mset (session_holds s)"

lemmas reset_defs = reset_channel_def reset_session_def reset_socket_def

lemma accounted_close [simp]: "accounted (session_close s) = accounted s" "session_holds (session_close s) = []"
  by (simp_all add: accounted_def session_close_def reset_defs session_holds_def)

lemma accounted_reset:
  "ssh_handle s = 0 \<Longrightarrow> h \<noteq> 0 \<Longrightarrow> accounted (reset_session h s) = add_mset (Session_of h) (accounted s)"
  "ssh_socket s = -1 \<Longrightarrow> fd \<noteq> -1 \<Longrightarrow> accounted (reset_socket fd s) = add_mset (Socket_of fd) (accounted s)"
  "accounted (reset_session 0 s) = accounted s"
  "accounted (reset_socket (-1) s) = accounted s"
  "accounted (reset_channel 0 s) = accounted s"
  by (simp_all add: accounted_def reset_defs session_holds_def)

lemma held_reset:
  "session_holds (reset_socket (-1) (reset_session 0 s)) =
     (if ssh_channel s \<noteq> 0 then [Channel_of (ssh_channel s)] else [])"
  by (simp add: reset_defs session_holds_def)

definition opened :: "int sys \<Rightarrow> addr \<Rightarrow> resource multiset" where
  "opened create init =
     (case create of
        Failure e \<Rightarrow> {#}
      | Success fd \<Rightarrow> add_mset (Socket_of fd) (if init \<noteq> 0 then {#Session_of init#} else {#}))"

lemma closed_fields [simp]:
  "ssh_channel (session_close s) = 0" "ssh_handle (session_close s) = 0"
  "ssh_socket (session_close s) = -1"
  by (simp_all add: session_close_def reset_defs)

lemma released_early:
  "accounted (s\<lparr>released := released s @ rs\<rparr>) = accounted s + mset rs"
  "session_holds (s\<lparr>released := released s @ rs\<rparr>) = session_holds s"
  by (simp_all add: accounted_def session_holds_def)

lemma accounted_connected:
  assumes "init \<noteq> 0" and "fd \<noteq> -1"
  shows "accounted (reset_socket fd (reset_session init (session_close s))) =
         accounted s + opened (Success fd) init"
    and "session_holds (reset_socket fd (reset_session init (session_close s))) = [Session_of init, Socket_of fd]"
  using assms by (simp_all add: accounted_def session_close_def reset_defs session_holds_def opened_def)

lemma accounted_given_up:
  "accounted (reset_socket (-1) (reset_session 0 s)) = accounted s"
  by (simp add: accounted_reset)

text \<open>
  C30: \<open>connect\<close> accounts for every resource: whatever step fails, what the session held and what it
  opened is afterwards held or was released once; after a failure past the library's initialisation
  the session holds nothing, and after success it holds the new socket and the new session.
\<close>

theorem ssh_connect_no_leak:
  assumes "ssh_connect 0 create init flag connect rcs ios s = Some (ec, s')"
    and "create \<noteq> Success (-1)"
  shows "accounted s' = accounted s + opened create init \<and>
         (case create of
            Success fd \<Rightarrow>
              session_holds s' = (if failed ec \<or> init = 0 \<or> flag \<noteq> 0 then [] else [Session_of init, Socket_of fd])
          | Failure e \<Rightarrow> session_holds s' = [])"
proof (cases create)
  case (Failure e)
  then show ?thesis using assms by (auto simp: ssh_connect_def opened_def)
next
  case (Success fd)
  with assms(2) have fd: "fd \<noteq> -1" by simp
  consider "init = 0" | "init \<noteq> 0" "flag \<noteq> 0 \<or> failed connect"
    | ec' where "init \<noteq> 0" "flag = 0" "\<not> failed connect" "ssh_loop rcs ios = Some ec'"
    using assms(1) by (auto simp: ssh_connect_def Success Let_def split: if_splits option.splits)
  then show ?thesis
  proof cases
    case 1
    then show ?thesis using assms(1)
      by (auto simp: ssh_connect_def Success Let_def released_early opened_def)
  next
    case 2
    then show ?thesis using assms(1)
      by (auto simp: ssh_connect_def Success Let_def released_early opened_def split: if_splits)
  next
    case 3
    let ?t = "reset_socket fd (reset_session init (session_close s))"
    have "ssh_channel ?t = 0" by (simp add: reset_defs)
    with 3 show ?thesis using assms(1) accounted_connected [OF 3(1) fd, of s]
      by (auto simp: ssh_connect_def Success Let_def accounted_given_up held_reset split: if_splits)
  qed
qed

theorem ssh_connect_no_leak_witness:
  "\<exists>ec s'. ssh_connect 0 (Success 5) 9 0 no_error [libssh2_eagain, -5] [no_error] new_session = Some (ec, s') \<and>
     failed ec \<and> released s' = [Session_of 9, Socket_of 5] \<and>
     accounted s' = accounted new_session + opened (Success 5) 9"
proof -
  let ?r = "ssh_connect 0 (Success 5) 9 0 no_error [libssh2_eagain, -5] [no_error] new_session"
  have r: "?r = Some (ssh_code (-5), new_session\<lparr>released := [Session_of 9, Socket_of 5]\<rparr>)"
    by (simp add: ssh_connect_def session_close_def reset_defs new_session_def libssh2_eagain_def ssh_code_def
      failed_def no_error_def make_error_code_in_def Let_def cast_int_def)
  from ssh_connect_no_leak [OF r] r show ?thesis
    by (simp add: ssh_code_def failed_def make_error_code_in_def new_session_def cast_int_def)
qed

text \<open>
  \<open>disconnect\<close> never reports success: it returns an error or runs past its end. \<open>connect\<close> and
  \<open>disconnect\<close> do not depend on what was awaited.
\<close>

lemma disconnect_never_succeeds:
  "ssh_disconnect close_rcs close_ios disc_rcs disc_ios s = Some (Returned ec, s') \<Longrightarrow> failed ec"
  by (auto simp: ssh_disconnect_def split: if_splits option.splits)

lemma disconnect_accounts:
  "ssh_disconnect close_rcs close_ios disc_rcs disc_ios s = Some (r, s') \<Longrightarrow> accounted s' = accounted s"
  by (auto simp: ssh_disconnect_def accounted_reset split: if_splits option.splits)

lemma io_waits_to_receive: "ssh_io event Op_send = event Wait_recv"
  by (simp add: ssh_io_def)

section \<open>The interface\<close>

lemma ssh_send_loop_prefix:
  "ssh_send_loop ec data sent rs ios = Some (r, ec') \<Longrightarrow> prefix r (sent @ data)"
proof (induction ec data sent rs ios arbitrary: r rule: ssh_send_loop.induct)
  case (2 ec data sent rc rs ios)
  show ?case
  proof (cases rc)
    case (Success n)
    have part: "prefix (sent @ take n data) (sent @ data)" by (simp add: take_is_prefix)
    show ?thesis
    proof (cases "n \<noteq> 0 \<and> drop n data \<noteq> []")
      case True
      with 2(1) [OF Success] 2(3) Success show ?thesis by simp
    next
      case False
      with 2(3) Success part show ?thesis by (auto split: if_splits)
    qed
  next
    case (Failure e)
    with 2 show ?thesis by (auto split: if_splits list.splits)
  qed
qed simp

interpretation ssh: byte_stream ssh_send
  by unfold_locales (auto simp: ssh_send_def dest: ssh_send_loop_prefix)

end
