(* ===== verification/Ssh_Exchange.thy ===== *)
theory Ssh_Exchange
  imports Ssh_Session
begin

text \<open>
  SSH sessions in the Windows build (\<open>ice/net/ssh/session.cpp\<close>): the callbacks of libssh2 do not touch
  the socket but leave a request in a buffer of the session, \<open>io\<close> carries it out, and the next callback
  takes the outcome.
\<close>

section \<open>The buffer\<close>

record exchange =
  x_operation :: operation
  x_storage :: string
  x_size :: nat
  x_ready :: bool

definition storage_capacity :: nat where
  "storage_capacity = 4096"

definition new_exchange :: "string \<Rightarrow> exchange" where
  "new_exchange storage = \<lparr>x_operation = Op_none, x_storage = storage, x_size = 0, x_ready = False\<rparr>"

text \<open>Copying into the buffer leaves what lies beyond.\<close>

definition overwrite :: "string \<Rightarrow> string \<Rightarrow> string" where
  "overwrite bytes storage = bytes @ drop (length bytes) storage"

text \<open>
  A callback asks to be called again, or gives what was moved. The first component: whether the
  assertions of the callback hold.
\<close>

datatype 'a moved = Again | Moved 'a

definition win_on_recv :: "nat \<Rightarrow> exchange \<Rightarrow> bool \<times> string moved \<times> exchange" where
  "win_on_recv n x =
     (if x_ready x
      then (x_size x \<le> n, Moved (take (x_size x) (x_storage x)), x\<lparr>x_ready := False\<rparr>)
      else (True, Again, x\<lparr>x_operation := Op_recv, x_size := min n storage_capacity\<rparr>))"

definition win_on_send :: "string \<Rightarrow> exchange \<Rightarrow> bool \<times> nat moved \<times> exchange" where
  "win_on_send bytes x =
     (if x_ready x
      then (x_size x \<le> length bytes \<and> take (x_size x) bytes = take (x_size x) (x_storage x),
            Moved (x_size x), x\<lparr>x_ready := False\<rparr>)
      else (let n = min (length bytes) storage_capacity
            in (True, Again, x\<lparr>x_operation := Op_send, x_size := n,
                               x_storage := overwrite (take n bytes) (x_storage x)\<rparr>)))"

text \<open>
  \<open>io\<close>, on what the socket does: receive bytes into the buffer, or send a part of it; each with an error
  code. The result: the bytes that went to the socket, and the error code.
\<close>

definition win_io :: "string \<times> error_code \<Rightarrow> nat \<times> error_code \<Rightarrow> exchange \<Rightarrow> string \<times> error_code \<times> exchange" where
  "win_io receive transmit x =
     (let (out, ec, y) =
            (case x_operation x of
               Op_recv \<Rightarrow>
                 ([], snd receive, x\<lparr>x_storage := overwrite (fst receive) (x_storage x),
                                     x_size := length (fst receive)\<rparr>)
             | Op_send \<Rightarrow>
                 (take (fst transmit) (take (x_size x) (x_storage x)), snd transmit,
                  x\<lparr>x_size := fst transmit\<rparr>)
             | Op_none \<Rightarrow> ([], einval_code, x));
          ec = (if x_size y = 0 \<and> \<not> failed ec then make_error_code (Ice_errc Eof) else ec)
      in (out, ec, y\<lparr>x_ready := True\<rparr>))"

section \<open>Transfers\<close>

text \<open>
  One round: a callback that asks, \<open>io\<close>, and the callback that gets the outcome. What the second
  callback gets, what went to the socket, and whether the assertions held.
\<close>

definition recv_round ::
    "nat \<Rightarrow> nat \<Rightarrow> string \<times> error_code \<Rightarrow> exchange \<Rightarrow> bool \<times> string moved \<times> exchange" where
  "recv_round n m receive x =
     (let (ok1, r1, x1) = win_on_recv n x;
          (out, ec, x2) = win_io receive (0, no_error) x1;
          (ok2, r2, x3) = win_on_recv m x2
      in (ok1 \<and> ok2, r2, x3))"

definition send_round ::
    "string \<Rightarrow> nat \<times> error_code \<Rightarrow> exchange \<Rightarrow> bool \<times> nat moved \<times> string \<times> exchange" where
  "send_round bytes transmit x =
     (let (ok1, r1, x1) = win_on_send bytes x;
          (out, ec, x2) = win_io ([], no_error) transmit x1;
          (ok2, r2, x3) = win_on_send bytes x2
      in (ok1 \<and> ok2, r2, out, x3))"

text \<open>
  C33: When libssh2 repeats the callback that asked, the transfer is right: it receives exactly the bytes
  that came from the socket, provided it still offers room for them, and the count it gets for sending
  is that of the bytes that went to the socket, which are the first of its data. The assertions hold and
  the buffer is ready for the next request.
\<close>

theorem ssh_exchange_transfers:
  assumes "\<not> x_ready x" and "length (fst receive) \<le> m"
    and "fst transmit \<le> min (length bytes) storage_capacity"
  shows "(\<exists>y. recv_round n m receive x = (True, Moved (fst receive), y) \<and> \<not> x_ready y) \<and>
         (\<exists>y. send_round bytes transmit x =
                (True, Moved (fst transmit), take (fst transmit) bytes, y) \<and> \<not> x_ready y)"
  using assms
  by (auto simp: recv_round_def send_round_def win_on_recv_def win_on_send_def win_io_def overwrite_def
    Let_def min_def split: if_splits)

theorem ssh_exchange_transfers_witness:
  "(\<exists>y. send_round ''hello'' (3, no_error) (new_exchange []) = (True, Moved 3, ''hel'', y))"
  using ssh_exchange_transfers [of "new_exchange []" "(''ab'', no_error)" 2 "(3, no_error)" "''hello''" 0]
  by (auto simp: new_exchange_def storage_capacity_def)

text \<open>
  The outcome is not tied to the callback that asked: if libssh2 sends after a request to receive, \<open>io\<close>
  sends, and the next callback that receives is given the session's own bytes.
\<close>

lemma ssh_exchange_crosses:
  assumes "\<not> x_ready x" and "length bytes \<le> storage_capacity"
  shows "case win_on_recv n x of (_, r1, x1) \<Rightarrow> r1 = Again \<and>
          (case win_on_send bytes x1 of (_, r2, x2) \<Rightarrow> r2 = Again \<and>
           (case win_io receive (length bytes, no_error) x2 of (out, _, x3) \<Rightarrow> out = bytes \<and>
            (case win_on_recv n x3 of (_, r4, _) \<Rightarrow> r4 = Moved bytes)))"
  using assms
  by (simp add: win_on_recv_def win_on_send_def win_io_def overwrite_def Let_def)

end
