(* ===== verification/Ssh_Objects.thy ===== *)
theory Ssh_Objects
  imports Ssh_Session
begin

text \<open>
  Session objects and the callbacks of libssh2 (\<open>ice/net/ssh/session.cpp\<close>): libssh2 keeps with each of
  its sessions a pointer, the abstract, by which the callbacks find the session object. Objects are
  named by their addresses, so are the sessions of libssh2.
\<close>

section \<open>Objects\<close>

record ssh_world =
  sess :: "addr \<rightharpoonup> session"
  abstract :: "addr \<Rightarrow> addr"

definition ssh_construct :: "addr \<Rightarrow> ssh_world \<Rightarrow> ssh_world option" where
  "ssh_construct a w =
     (case sess w a of None \<Rightarrow> Some (w\<lparr>sess := (sess w)(a \<mapsto> new_session)\<rparr>) | Some _ \<Rightarrow> None)"

text \<open>
  \<open>connect\<close> on the object, with the arguments of \<^const>\<open>ssh_connect\<close>; the session that libssh2 makes is
  given the address of the object.
\<close>

definition ssh_connect_at ::
    "addr \<Rightarrow> int \<Rightarrow> int sys \<Rightarrow> addr \<Rightarrow> int \<Rightarrow> error_code \<Rightarrow> int list \<Rightarrow> error_code list \<Rightarrow>
     ssh_world \<Rightarrow> (error_code \<times> ssh_world) option" where
  "ssh_connect_at a library create init flag connect rcs ios w =
     (case sess w a of
        None \<Rightarrow> None
      | Some s \<Rightarrow>
          (case ssh_connect library create init flag connect rcs ios s of
             None \<Rightarrow> None
           | Some (ec, s') \<Rightarrow>
               Some (ec, w\<lparr>sess := (sess w)(a \<mapsto> s'), abstract := (abstract w)(init := a)\<rparr>)))"

text \<open>
  What moving takes from the other object: its three handles, which are left invalid, and its operation.
  The end of both move operations writes the abstract of the session; for a null session that is
  undefined.
\<close>

definition ssh_taken :: "session \<Rightarrow> session" where
  "ssh_taken s = s\<lparr>ssh_socket := -1, ssh_handle := 0, ssh_channel := 0\<rparr>"

definition write_abstract :: "addr \<Rightarrow> addr \<Rightarrow> ssh_world \<Rightarrow> ssh_world option" where
  "write_abstract h a w = (if h = 0 then None else Some (w\<lparr>abstract := (abstract w)(h := a)\<rparr>))"

definition ssh_move :: "addr \<Rightarrow> addr \<Rightarrow> ssh_world \<Rightarrow> ssh_world option" where
  "ssh_move this other w =
     (case (sess w this, sess w other) of
        (None, Some s) \<Rightarrow>
          write_abstract (ssh_handle s) this
            (w\<lparr>sess := (sess w)(other \<mapsto> ssh_taken s,
                 this \<mapsto> new_session\<lparr>ssh_socket := ssh_socket s, ssh_handle := ssh_handle s,
                                     ssh_channel := ssh_channel s, ssh_operation := ssh_operation s\<rparr>)\<rparr>)
      | _ \<Rightarrow> None)"

text \<open>
  Assignment: the socket first, then the session, then the channel; each closes what this object held
  unless both objects are the same.
\<close>

definition ssh_assign :: "addr \<Rightarrow> addr \<Rightarrow> ssh_world \<Rightarrow> ssh_world option" where
  "ssh_assign this other w =
     (case (sess w this, sess w other) of
        (Some mine, Some theirs) \<Rightarrow>
          if this = other then write_abstract (ssh_handle mine) this w
          else write_abstract (ssh_handle theirs) this
                 (w\<lparr>sess := (sess w)(other \<mapsto> ssh_taken theirs,
                      this \<mapsto> (reset_channel (ssh_channel theirs)
                               (reset_session (ssh_handle theirs)
                                 (reset_socket (ssh_socket theirs) mine)))
                              \<lparr>ssh_operation := ssh_operation theirs\<rparr>)\<rparr>)
      | _ \<Rightarrow> None)"

text \<open>The members are destroyed in reverse order: channel, session, socket, as in \<open>close\<close>.\<close>

definition ssh_destroy :: "addr \<Rightarrow> ssh_world \<Rightarrow> ssh_world option" where
  "ssh_destroy a w =
     (case sess w a of
        None \<Rightarrow> None
      | Some s \<Rightarrow> Some (w\<lparr>sess := (sess w)(a := None)\<rparr>))"

definition ssh_close_at :: "addr \<Rightarrow> ssh_world \<Rightarrow> ssh_world option" where
  "ssh_close_at a w =
     (case sess w a of
        None \<Rightarrow> None
      | Some s \<Rightarrow> Some (w\<lparr>sess := (sess w)(a \<mapsto> session_close s)\<rparr>))"

text \<open>
  \<open>disconnect\<close> and \<open>authenticate\<close> on the object. \<open>disconnect\<close> that reaches its end leaves the object as its last
  statement left it, whatever its caller reads as the result.
\<close>

definition ssh_disconnect_at ::
    "addr \<Rightarrow> int list \<Rightarrow> error_code list \<Rightarrow> int list \<Rightarrow> error_code list \<Rightarrow> ssh_world \<Rightarrow>
     (completion \<times> ssh_world) option" where
  "ssh_disconnect_at a close_rcs close_ios disc_rcs disc_ios w =
     (case sess w a of
        None \<Rightarrow> None
      | Some s \<Rightarrow>
          (case ssh_disconnect close_rcs close_ios disc_rcs disc_ios s of
             None \<Rightarrow> None
           | Some (r, s') \<Rightarrow> Some (r, w\<lparr>sess := (sess w)(a \<mapsto> s')\<rparr>)))"

definition ssh_authenticate_at ::
    "addr \<Rightarrow> int list \<Rightarrow> error_code list \<Rightarrow> (addr \<times> int) list \<Rightarrow> error_code list \<Rightarrow> ssh_world \<Rightarrow>
     (error_code \<times> ssh_world) option" where
  "ssh_authenticate_at a rcs ios rs open_ios w =
     (case sess w a of
        None \<Rightarrow> None
      | Some s \<Rightarrow>
          (case ssh_authenticate rcs ios rs open_ios s of
             None \<Rightarrow> None
           | Some (ec, s') \<Rightarrow> Some (ec, w\<lparr>sess := (sess w)(a \<mapsto> s')\<rparr>)))"

section \<open>Callbacks\<close>

text \<open>
  The callbacks of a session of libssh2: the raw socket when the abstract is null, else the object that
  the abstract names. Both record the operation in the object.
\<close>

datatype callback = Raw_socket | Object_of addr

definition callback_target :: "ssh_world \<Rightarrow> addr \<Rightarrow> callback" where
  "callback_target w h = (if abstract w h = 0 then Raw_socket else Object_of (abstract w h))"

definition run_callback ::
    "(nat sys list \<Rightarrow> operation \<Rightarrow> (int \<times> operation) option) \<Rightarrow> nat sys list \<Rightarrow> addr \<Rightarrow> ssh_world \<Rightarrow>
     (int \<times> ssh_world) option" where
  "run_callback on_io rs h w =
     (case callback_target w h of
        Raw_socket \<Rightarrow>
          (case rs of
             [] \<Rightarrow> None
           | Success n # _ \<Rightarrow> Some (int n, w)
           | Failure e # _ \<Rightarrow> Some (-1, w))
      | Object_of a \<Rightarrow>
          (case sess w a of
             None \<Rightarrow> None
           | Some s \<Rightarrow>
               (case on_io rs (ssh_operation s) of
                  None \<Rightarrow> None
                | Some (n, operation) \<Rightarrow>
                    Some (n, w\<lparr>sess := (sess w)(a \<mapsto> s\<lparr>ssh_operation := operation\<rparr>)\<rparr>))))"

definition recv_callback :: "nat sys list \<Rightarrow> addr \<Rightarrow> ssh_world \<Rightarrow> (int \<times> ssh_world) option" where
  "recv_callback = run_callback on_recv"

definition send_callback :: "nat sys list \<Rightarrow> addr \<Rightarrow> ssh_world \<Rightarrow> (int \<times> ssh_world) option" where
  "send_callback = run_callback on_send"

text \<open>\<open>request_pty\<close> and \<open>open_shell\<close> are loops over one function of libssh2.\<close>

definition ssh_request_pty :: "(string \<Rightarrow> int list) \<Rightarrow> string \<Rightarrow> error_code list \<Rightarrow> error_code option" where
  "ssh_request_pty request terminal ios = ssh_loop (request terminal) ios"

definition ssh_open_shell :: "int list \<Rightarrow> error_code list \<Rightarrow> error_code option" where
  "ssh_open_shell shell ios = ssh_loop shell ios"

section \<open>Programs with sessions\<close>

text \<open>
  Addresses of objects and new sessions are not null; a session of libssh2 that is made is not one that
  an object holds.
\<close>

inductive ssh_step :: "ssh_world \<Rightarrow> ssh_world \<Rightarrow> bool" where
  construct:
    "a \<noteq> 0 \<Longrightarrow> ssh_construct a w = Some v \<Longrightarrow> ssh_step w v"
| connecting:
    "(\<And>b s. sess w b = Some s \<Longrightarrow> ssh_handle s \<noteq> init) \<Longrightarrow> init \<noteq> 0 \<Longrightarrow>
     ssh_connect_at a library create init flag connect rcs ios w = Some (ec, v) \<Longrightarrow> ssh_step w v"
| moving:
    "this \<noteq> 0 \<Longrightarrow> ssh_move this other w = Some v \<Longrightarrow> ssh_step w v"
| assigning:
    "ssh_assign this other w = Some v \<Longrightarrow> ssh_step w v"
| disconnecting:
    "ssh_disconnect_at a close_rcs close_ios disc_rcs disc_ios w = Some (r, v) \<Longrightarrow> ssh_step w v"
| authenticating:
    "ssh_authenticate_at a rcs ios rs open_ios w = Some (ec, v) \<Longrightarrow> ssh_step w v"
| closing:
    "ssh_close_at a w = Some v \<Longrightarrow> ssh_step w v"
| destroying:
    "ssh_destroy a w = Some v \<Longrightarrow> ssh_step w v"
| calling_back:
    "run_callback on_io rs h w = Some (n, v) \<Longrightarrow> ssh_step w v"

inductive ssh_reach :: "ssh_world \<Rightarrow> bool" where
  ssh_start: "ssh_reach \<lparr>sess = Map.empty, abstract = (\<lambda>_. 0)\<rparr>"
| ssh_next: "ssh_reach w \<Longrightarrow> ssh_step w v \<Longrightarrow> ssh_reach v"

text \<open>Every session of libssh2 that an object holds names that object.\<close>

definition ssh_inv :: "ssh_world \<Rightarrow> bool" where
  "ssh_inv w \<longleftrightarrow>
     (\<forall>a s. sess w a = Some s \<longrightarrow> a \<noteq> 0 \<and> (ssh_handle s \<noteq> 0 \<longrightarrow> abstract w (ssh_handle s) = a))"

lemma reset_handles [simp]:
  "ssh_handle (reset_channel c s) = ssh_handle s" "ssh_handle (reset_session h s) = h"
  "ssh_handle (reset_socket fd s) = ssh_handle s"
  by (simp_all add: reset_defs)

lemma ssh_connect_handle:
  assumes "ssh_connect library create init flag connect rcs ios s = Some (ec, s')"
  shows "ssh_handle s' \<in> {ssh_handle s, 0, init}"
  using assms
  by (auto simp: ssh_connect_def Let_def split: if_splits sys.splits option.splits)

lemma ssh_disconnect_handle:
  assumes "ssh_disconnect close_rcs close_ios disc_rcs disc_ios s = Some (r, s')"
  shows "ssh_handle s' \<in> {ssh_handle s, 0}"
  using assms by (auto simp: ssh_disconnect_def Let_def split: if_splits option.splits)

lemma open_channel_handle: "open_channel rs ios s = Some (ec, s') \<Longrightarrow> ssh_handle s' = ssh_handle s"
  by (induction rs ios s rule: open_channel.induct) (auto simp: Let_def split: if_splits list.splits)

lemma ssh_authenticate_handle:
  "ssh_authenticate rcs ios rs open_ios s = Some (ec, s') \<Longrightarrow> ssh_handle s' = ssh_handle s"
  by (auto simp: ssh_authenticate_def open_channel_handle split: option.splits if_splits)

text \<open>An operation that leaves an object with the session it held, or with none.\<close>

lemma ssh_inv_keep:
  assumes "ssh_inv w" and "sess w a = Some s" and "ssh_handle s' \<in> {ssh_handle s, 0}"
  shows "ssh_inv (w\<lparr>sess := (sess w)(a \<mapsto> s')\<rparr>)"
  using assms by (auto simp: ssh_inv_def split: if_splits)

lemma ssh_inv_unique:
  assumes "ssh_inv w" and "sess w a = Some s" and "sess w b = Some t" and "ssh_handle s = ssh_handle t"
    and "ssh_handle t \<noteq> 0"
  shows "a = b"
  using assms unfolding ssh_inv_def by metis

lemma ssh_inv_take:
  assumes "ssh_inv w" and "sess w other = Some t" and "this \<noteq> 0" and "ssh_handle t \<noteq> 0"
    and "ssh_handle r = ssh_handle t" and "ssh_handle t' = 0"
  shows "ssh_inv (w\<lparr>sess := (sess w)(other \<mapsto> t', this \<mapsto> r), abstract := (abstract w)(ssh_handle t := this)\<rparr>)"
proof -
  have other: "other \<noteq> 0" using assms(1,2) by (simp add: ssh_inv_def)
  have "abstract w (ssh_handle s) = a \<and> ssh_handle s \<noteq> ssh_handle t \<and> a \<noteq> 0"
    if "sess w a = Some s" "ssh_handle s \<noteq> 0" "a \<noteq> other" for a s
    using that assms(1) ssh_inv_unique [OF assms(1) that(1) assms(2)] assms(4) by (auto simp: ssh_inv_def)
  moreover have "a \<noteq> 0" if "sess w a = Some s" for a s using that assms(1) by (simp add: ssh_inv_def)
  ultimately show ?thesis using assms(3,5,6) other by (auto simp: ssh_inv_def split: if_splits)
qed

lemma ssh_step_inv: "ssh_step w v \<Longrightarrow> ssh_inv w \<Longrightarrow> ssh_inv v"
proof (induction rule: ssh_step.induct)
  case (construct a w v)
  then show ?case by (auto simp: ssh_construct_def ssh_inv_def new_session_def split: option.splits if_splits)
next
  case (connecting w init a library create flag connect rcs ios ec v)
  then obtain s s' where s: "sess w a = Some s"
      "ssh_connect library create init flag connect rcs ios s = Some (ec, s')"
      "v = w\<lparr>sess := (sess w)(a \<mapsto> s'), abstract := (abstract w)(init := a)\<rparr>"
    by (auto simp: ssh_connect_at_def split: option.splits)
  with ssh_connect_handle [OF s(2)] connecting show ?case by (auto simp: ssh_inv_def split: if_splits)
next
  case (moving this other w v)
  then obtain t where t: "sess w other = Some t" "ssh_handle t \<noteq> 0"
    by (auto simp: ssh_move_def write_abstract_def split: option.splits if_splits)
  with moving ssh_inv_take [OF moving.prems t(1) moving.hyps(1) t(2)] show ?case
    by (auto simp: ssh_move_def write_abstract_def ssh_taken_def split: option.splits)
next
  case (assigning this other w v)
  then obtain s t where t: "sess w this = Some s" "sess w other = Some t" "ssh_handle t \<noteq> 0"
    by (auto simp: ssh_assign_def write_abstract_def split: option.splits if_splits)
  with assigning.prems have "this \<noteq> 0" by (simp add: ssh_inv_def)
  note take = ssh_inv_take [OF assigning.prems t(2) this t(3)]
  show ?case
  proof (cases "this = other")
    case True
    have "(abstract w)(ssh_handle s := this) = abstract w"
      using assigning.prems t True by (auto simp: ssh_inv_def fun_eq_iff)
    with assigning t True have "v = w" by (auto simp: ssh_assign_def write_abstract_def)
    with assigning.prems show ?thesis by simp
  next
    case False
    with assigning t take show ?thesis by (auto simp: ssh_assign_def write_abstract_def ssh_taken_def)
  qed
next
  case (disconnecting a close_rcs close_ios disc_rcs disc_ios w r v)
  then obtain s s' where s: "sess w a = Some s"
      "ssh_disconnect close_rcs close_ios disc_rcs disc_ios s = Some (r, s')" "v = w\<lparr>sess := (sess w)(a \<mapsto> s')\<rparr>"
    by (auto simp: ssh_disconnect_at_def split: option.splits)
  with ssh_inv_keep [OF disconnecting.prems s(1) ssh_disconnect_handle [OF s(2)]] show ?case by simp
next
  case (authenticating a rcs ios rs open_ios w ec v)
  then obtain s s' where s: "sess w a = Some s" "ssh_authenticate rcs ios rs open_ios s = Some (ec, s')"
      "v = w\<lparr>sess := (sess w)(a \<mapsto> s')\<rparr>"
    by (auto simp: ssh_authenticate_at_def split: option.splits)
  with ssh_inv_keep [OF authenticating.prems s(1)] ssh_authenticate_handle [OF s(2)] show ?case by simp
next
  case (closing a w v)
  then show ?case by (auto simp: ssh_close_at_def ssh_inv_def split: option.splits if_splits)
next
  case (destroying a w v)
  then show ?case by (auto simp: ssh_destroy_def ssh_inv_def split: option.splits if_splits)
next
  case (calling_back on_io rs h w n v)
  then show ?case
    by (auto simp: run_callback_def ssh_inv_def split: callback.splits option.splits list.splits sys.splits if_splits)
qed

lemma ssh_reach_inv: "ssh_reach w \<Longrightarrow> ssh_inv w"
proof (induction rule: ssh_reach.induct)
  case ssh_start
  show ?case by (simp add: ssh_inv_def)
qed (rule ssh_step_inv)

section \<open>Properties\<close>

text \<open>
  C31: However session objects are connected, authenticated, disconnected, moved, assigned, closed and destroyed, a session of libssh2
  belongs to at most one object, and its callbacks find that object.
\<close>

theorem ssh_callbacks_find_session:
  assumes "ssh_reach w" and "sess w a = Some s" and "ssh_handle s \<noteq> 0"
  shows "callback_target w (ssh_handle s) = Object_of a \<and>
         (\<forall>b r. sess w b = Some r \<and> ssh_handle r = ssh_handle s \<longrightarrow> b = a)"
proof -
  from ssh_reach_inv [OF assms(1)]
  have inv: "\<And>b r. sess w b = Some r \<Longrightarrow> b \<noteq> 0 \<and> (ssh_handle r \<noteq> 0 \<longrightarrow> abstract w (ssh_handle r) = b)"
    by (simp add: ssh_inv_def)
  from inv [OF assms(2)] assms(3) have a: "a \<noteq> 0" "abstract w (ssh_handle s) = a" by simp_all
  have "b = a" if "sess w b = Some r" "ssh_handle r = ssh_handle s" for b r
    using inv [OF that(1)] that(2) assms(3) a(2) by simp
  with a show ?thesis by (auto simp: callback_target_def)
qed

lemma ssh_run:
  "\<exists>w s. ssh_reach w \<and> sess w 2 = Some s \<and> ssh_handle s = 7 \<and> sess w 1 \<noteq> None"
proof -
  note go = ssh_next
  have "ssh_construct 1 \<lparr>sess = Map.empty, abstract = (\<lambda>_. 0)\<rparr> =
      Some \<lparr>sess = [1 \<mapsto> new_session], abstract = (\<lambda>_. 0)\<rparr>" (is "_ = Some ?w1")
    by (simp add: ssh_construct_def)
  then have r1: "ssh_reach ?w1" by (intro go [OF ssh_start] construct) simp_all
  let ?s = "new_session\<lparr>ssh_socket := 3, ssh_handle := 7\<rparr>"
  have "ssh_connect_at 1 0 (Success 3) 7 0 no_error [0] [] ?w1 =
      Some (no_error, \<lparr>sess = [1 \<mapsto> ?s], abstract = (\<lambda>_. 0)(7 := 1)\<rparr>)" (is "_ = Some (_, ?w2)")
    by (simp add: ssh_connect_at_def ssh_connect_def session_close_def reset_defs new_session_def)
  then have r2: "ssh_reach ?w2"
    by (intro go [OF r1] connecting [of ?w1 7]) (auto simp: new_session_def split: if_splits)
  have "\<exists>w3. ssh_move 2 1 ?w2 = Some w3 \<and> (\<exists>s. sess w3 2 = Some s \<and> ssh_handle s = 7) \<and> sess w3 1 \<noteq> None"
    by (simp add: ssh_move_def write_abstract_def)
  then obtain w3 s where w3: "ssh_move 2 1 ?w2 = Some w3" "sess w3 2 = Some s" "ssh_handle s = 7"
      "sess w3 1 \<noteq> None" by blast
  from w3(1) have "ssh_reach w3" by (intro go [OF r2] moving) simp_all
  with w3(2-4) show ?thesis by blast
qed

theorem ssh_callbacks_find_session_witness:
  "\<exists>w. ssh_reach w \<and> sess w 1 \<noteq> None \<and> callback_target w 7 = Object_of 2"
proof -
  obtain w s where w: "ssh_reach w" "sess w 2 = Some s" "ssh_handle s = 7" "sess w 1 \<noteq> None"
    using ssh_run by blast
  with ssh_callbacks_find_session [OF w(1,2)] show ?thesis by auto
qed

text \<open>
  Moving a session that is not connected is undefined: both operations write through its null handle.
\<close>

lemma ssh_move_unconnected:
  "sess w other = Some s \<Longrightarrow> ssh_handle s = 0 \<Longrightarrow> ssh_move this other w = None \<and> ssh_assign this other w = None"
  by (auto simp: ssh_move_def ssh_assign_def write_abstract_def split: option.split)

text \<open>
  Assignment gives up what the object held in the wrong order: the channel after the session it
  belongs to, where \<open>close\<close> does the opposite.
\<close>

lemma ssh_assign_order:
  assumes "sess w this = Some s" and "sess w other = Some t" and "this \<noteq> other" and "ssh_handle t \<noteq> 0"
    and "ssh_socket s = fd" and "fd \<noteq> -1" and "ssh_handle s = h" and "h \<noteq> 0" and "ssh_channel s = c" and "c \<noteq> 0"
  shows "\<exists>v r. ssh_assign this other w = Some v \<and> sess v this = Some r \<and>
           released r = released s @ [Socket_of fd, Session_of h, Channel_of c]"
    and "released (session_close s) = released s @ [Channel_of c, Session_of h, Socket_of fd]"
  using assms by (auto simp: ssh_assign_def write_abstract_def reset_defs session_close_def)

end
