(* ===== verification/Ssh_Errors.thy ===== *)
theory Ssh_Errors
  imports Errors
begin

text \<open>
  The messages of the SSH category (\<open>ice/net/ssh/error.cpp\<close>). The numbers of the errors are those of
  libssh2 and a parameter of the model; the compiler guarantees that no two cases of the switch have
  the same number. The case of an unrecognized public key is left out by the preprocessor: libssh2
  defines its number as the one of a failed authentication.
\<close>

section \<open>The table\<close>

datatype (plugins only: ) ssh_error =
    Ssh_socket_none
  | Ssh_banner_recv
  | Ssh_banner_send
  | Ssh_invalid_mac
  | Ssh_kex_failure
  | Ssh_alloc
  | Ssh_socket_send
  | Ssh_key_exchange_failure
  | Ssh_timeout
  | Ssh_hostkey_init
  | Ssh_hostkey_sign
  | Ssh_decrypt
  | Ssh_socket_disconnect
  | Ssh_proto
  | Ssh_password_expired
  | Ssh_file
  | Ssh_method_none
  | Ssh_authentication_failed
  | Ssh_publickey_unverified
  | Ssh_channel_outoforder
  | Ssh_channel_failure
  | Ssh_channel_request_denied
  | Ssh_channel_unknown
  | Ssh_channel_window_exceeded
  | Ssh_channel_packet_exceeded
  | Ssh_channel_closed
  | Ssh_channel_eof_sent
  | Ssh_scp_protocol
  | Ssh_zlib
  | Ssh_socket_timeout
  | Ssh_sftp_protocol
  | Ssh_request_denied
  | Ssh_method_not_supported
  | Ssh_inval
  | Ssh_invalid_poll_type
  | Ssh_publickey_protocol
  | Ssh_eagain
  | Ssh_buffer_too_small
  | Ssh_bad_use
  | Ssh_compress
  | Ssh_out_of_boundary
  | Ssh_agent_protocol
  | Ssh_socket_recv
  | Ssh_encrypt
  | Ssh_bad_socket
  | Ssh_known_hosts

definition ssh_error_order :: "ssh_error list" where
  "ssh_error_order =
     [Ssh_socket_none, Ssh_banner_recv, Ssh_banner_send,
      Ssh_invalid_mac, Ssh_kex_failure, Ssh_alloc,
      Ssh_socket_send, Ssh_key_exchange_failure, Ssh_timeout,
      Ssh_hostkey_init, Ssh_hostkey_sign, Ssh_decrypt,
      Ssh_socket_disconnect, Ssh_proto, Ssh_password_expired,
      Ssh_file, Ssh_method_none, Ssh_authentication_failed,
      Ssh_publickey_unverified, Ssh_channel_outoforder, Ssh_channel_failure,
      Ssh_channel_request_denied, Ssh_channel_unknown, Ssh_channel_window_exceeded,
      Ssh_channel_packet_exceeded, Ssh_channel_closed, Ssh_channel_eof_sent,
      Ssh_scp_protocol, Ssh_zlib, Ssh_socket_timeout,
      Ssh_sftp_protocol, Ssh_request_denied, Ssh_method_not_supported,
      Ssh_inval, Ssh_invalid_poll_type, Ssh_publickey_protocol,
      Ssh_eagain, Ssh_buffer_too_small, Ssh_bad_use,
      Ssh_compress, Ssh_out_of_boundary, Ssh_agent_protocol,
      Ssh_socket_recv, Ssh_encrypt, Ssh_bad_socket,
      Ssh_known_hosts]"

fun ssh_error_text :: "ssh_error \<Rightarrow> string" where
  "ssh_error_text Ssh_socket_none = ''no socket''"
| "ssh_error_text Ssh_banner_recv = ''recv banner''"
| "ssh_error_text Ssh_banner_send = ''send banner''"
| "ssh_error_text Ssh_invalid_mac = ''invalid_mac''"
| "ssh_error_text Ssh_kex_failure = ''kex_failure''"
| "ssh_error_text Ssh_alloc = ''bad alloc''"
| "ssh_error_text Ssh_socket_send = ''socket send error''"
| "ssh_error_text Ssh_key_exchange_failure = ''key exchange error''"
| "ssh_error_text Ssh_timeout = ''timeout''"
| "ssh_error_text Ssh_hostkey_init = ''hostkey init error''"
| "ssh_error_text Ssh_hostkey_sign = ''hostkey sign error''"
| "ssh_error_text Ssh_decrypt = ''decrypt error''"
| "ssh_error_text Ssh_socket_disconnect = ''socket disconnected''"
| "ssh_error_text Ssh_proto = ''protocol error''"
| "ssh_error_text Ssh_password_expired = ''password expired''"
| "ssh_error_text Ssh_file = ''file error''"
| "ssh_error_text Ssh_method_none = ''missing method''"
| "ssh_error_text Ssh_authentication_failed = ''authentication failed''"
| "ssh_error_text Ssh_publickey_unverified = ''publickey unverified''"
| "ssh_error_text Ssh_channel_outoforder = ''channel out of order''"
| "ssh_error_text Ssh_channel_failure = ''channel error''"
| "ssh_error_text Ssh_channel_request_denied = ''channel request denied''"
| "ssh_error_text Ssh_channel_unknown = ''channel unknown''"
| "ssh_error_text Ssh_channel_window_exceeded = ''channel window exceeded''"
| "ssh_error_text Ssh_channel_packet_exceeded = ''channel packet exceeded''"
| "ssh_error_text Ssh_channel_closed = ''channel closed''"
| "ssh_error_text Ssh_channel_eof_sent = ''channel eof sent''"
| "ssh_error_text Ssh_scp_protocol = ''scp protocol error''"
| "ssh_error_text Ssh_zlib = ''zlib error''"
| "ssh_error_text Ssh_socket_timeout = ''socket timeout''"
| "ssh_error_text Ssh_sftp_protocol = ''sftp protocol error''"
| "ssh_error_text Ssh_request_denied = ''request denied''"
| "ssh_error_text Ssh_method_not_supported = ''method not supported''"
| "ssh_error_text Ssh_inval = ''invalid''"
| "ssh_error_text Ssh_invalid_poll_type = ''invalid poll type''"
| "ssh_error_text Ssh_publickey_protocol = ''publickey protocol error''"
| "ssh_error_text Ssh_eagain = ''eagain''"
| "ssh_error_text Ssh_buffer_too_small = ''buffer too small''"
| "ssh_error_text Ssh_bad_use = ''bad use''"
| "ssh_error_text Ssh_compress = ''compress error''"
| "ssh_error_text Ssh_out_of_boundary = ''out of boundary''"
| "ssh_error_text Ssh_agent_protocol = ''agent protocol''"
| "ssh_error_text Ssh_socket_recv = ''socket recv error''"
| "ssh_error_text Ssh_encrypt = ''encrypt error''"
| "ssh_error_text Ssh_bad_socket = ''bad socket''"
| "ssh_error_text Ssh_known_hosts = ''known hosts''"

text \<open>\<open>std::to_string\<close> is the parameter \<open>number\<close>.\<close>

definition ssh_message :: "(ssh_error \<Rightarrow> int) \<Rightarrow> (int \<Rightarrow> string) \<Rightarrow> int \<Rightarrow> string" where
  "ssh_message value number code =
     (case List.find (\<lambda>e. value e = code) ssh_error_order of
        Some e \<Rightarrow> ssh_error_text e
      | None \<Rightarrow> ''error '' @ number code)"

section \<open>Properties\<close>

lemma ssh_error_order_all: "e \<in> set ssh_error_order"
  by (cases e) (simp_all add: ssh_error_order_def)

lemma find_inj:
  "inj f \<Longrightarrow> x \<in> set xs \<Longrightarrow> List.find (\<lambda>e. f e = f x) xs = Some x"
  by (induction xs) (auto dest: injD)

lemma ssh_error_texts: "distinct (map ssh_error_text ssh_error_order)"
  by (simp add: ssh_error_order_def)

text \<open>
  Every error of libssh2 has its own text, no two the same, and any other number is printed as a
  number.
\<close>

lemma ssh_message_distinct:
  assumes "inj value"
  shows "ssh_message value number (value e) = ssh_error_text e \<and>
         (ssh_error_text e = ssh_error_text e' \<longrightarrow> e = e') \<and>
         (code \<notin> range value \<longrightarrow> ssh_message value number code = ''error '' @ number code)"
proof (intro conjI impI)
  show "ssh_message value number (value e) = ssh_error_text e"
    using find_inj [OF assms ssh_error_order_all] by (simp add: ssh_message_def)
next
  assume "ssh_error_text e = ssh_error_text e'"
  with ssh_error_texts show "e = e'"
    unfolding distinct_map using ssh_error_order_all by (meson inj_onD)
next
  assume "code \<notin> range value"
  then have "List.find (\<lambda>e. value e = code) ssh_error_order = None"
    by (auto simp: find_None_iff)
  then show "ssh_message value number code = ''error '' @ number code"
    by (simp add: ssh_message_def)
qed

end
