(* ===== verification/Terminal.thy ===== *)
theory Terminal
  imports Prelude
begin

text \<open>
  Text formats and the terminal (\<open>ice/terminal.hpp\<close>, \<open>ice/terminal.cpp\<close>): the 16-bit value of a
  \<open>format\<close>, the escape sequences it is turned into outside Windows, and \<open>terminal::manager\<close>, which
  takes a format back.
\<close>

unbundle bit_operations_syntax

section \<open>Colors and styles\<close>

datatype color = None_color | Grey | Red | Green | Yellow | Blue | Magenta | Cyan | White

fun color_value :: "color \<Rightarrow> 16 word" where
  "color_value None_color = 0"
| "color_value Grey = 1"
| "color_value Red = 2"
| "color_value Green = 3"
| "color_value Yellow = 4"
| "color_value Blue = 5"
| "color_value Magenta = 6"
| "color_value Cyan = 7"
| "color_value White = 8"

datatype style = None_style | Bold | Dark | Underline | Blink | Reverse | Conceal

fun style_value :: "style \<Rightarrow> 16 word" where
  "style_value None_style = 0"
| "style_value Bold = push_bit 4 0x1"
| "style_value Dark = push_bit 4 0x2"
| "style_value Underline = push_bit 4 0x4"
| "style_value Blink = push_bit 4 0x8"
| "style_value Reverse = push_bit 4 0x10"
| "style_value Conceal = push_bit 4 0x20"

section \<open>Formats\<close>

type_synonym format = "16 word"

definition format_set :: "format \<Rightarrow> bool" where
  "format_set f \<longleftrightarrow> f \<noteq> 0"

text \<open>\<open>format | color\<close> and \<open>format | style\<close> change the format; the other three operators build one.\<close>

definition or_color :: "format \<Rightarrow> color \<Rightarrow> format" where
  "or_color f c = (f AND 0xF0) OR color_value c"

definition or_style :: "format \<Rightarrow> style \<Rightarrow> format" where
  "or_style f s = f OR style_value s"

definition color_or_style :: "color \<Rightarrow> style \<Rightarrow> format" where
  "color_or_style c s = color_value c OR style_value s"

definition style_or_color :: "style \<Rightarrow> color \<Rightarrow> format" where
  "style_or_color s c = style_value s OR color_value c"

definition style_or_style :: "style \<Rightarrow> style \<Rightarrow> format" where
  "style_or_style s t = style_value s OR style_value t"

text \<open>\<open>color()\<close> gives a number, which need not be the number of a color.\<close>

definition format_color :: "format \<Rightarrow> 16 word" where
  "format_color f = f AND 0x0F"

definition format_is :: "format \<Rightarrow> style \<Rightarrow> bool" where
  "format_is f s \<longleftrightarrow> f AND style_value s \<noteq> 0"

section \<open>Escape sequences\<close>

datatype stream = Stdout | Stderr | Other_stream

definition esc :: char where
  "esc = CHR 0x1B"

text \<open>What \<open>set\<close> writes for a color, and for a number that is none.\<close>

definition color_text :: "16 word \<Rightarrow> string" where
  "color_text n =
     (if n = color_value Grey then esc # ''[38;2;130;130;130m''
      else if n = color_value Red then esc # ''[31m''
      else if n = color_value Green then esc # ''[32m''
      else if n = color_value Yellow then esc # ''[33m''
      else if n = color_value Blue then esc # ''[34m''
      else if n = color_value Magenta then esc # ''[35m''
      else if n = color_value Cyan then esc # ''[36m''
      else if n = color_value White then esc # ''[37m''
      else [])"

definition style_text :: "format \<Rightarrow> string" where
  "style_text f =
     (if format_is f Bold then esc # ''[1m'' else []) @
     (if format_is f Dark then esc # ''[2m'' else []) @
     (if format_is f Underline then esc # ''[4m'' else []) @
     (if format_is f Blink then esc # ''[5m'' else []) @
     (if format_is f Reverse then esc # ''[7m'' else []) @
     (if format_is f Conceal then esc # ''[8m'' else [])"

text \<open>The manager of the process: whether each of the two standard streams is a terminal.\<close>

record terminal_manager =
  stdout_is_tty :: bool
  stderr_is_tty :: bool

definition is_tty :: "terminal_manager \<Rightarrow> stream \<Rightarrow> bool" where
  "is_tty m stream =
     (if stream = Stdout then stdout_is_tty m else if stream = Stderr then stderr_is_tty m else False)"

definition term_set :: "terminal_manager \<Rightarrow> stream \<Rightarrow> format \<Rightarrow> string" where
  "term_set m stream f =
     (if \<not> format_set f \<or> \<not> is_tty m stream then [] else color_text (format_color f) @ style_text f)"

definition term_reset :: "terminal_manager \<Rightarrow> stream \<Rightarrow> string" where
  "term_reset m stream = (if \<not> is_tty m stream then [] else esc # ''[00m'')"

section \<open>terminal::manager\<close>

text \<open>The object, and what its operations append to the stream.\<close>

record manager =
  m_stream :: stream
  m_reset :: bool

definition manager_reset :: "terminal_manager \<Rightarrow> manager \<Rightarrow> string \<times> manager" where
  "manager_reset t m = (if m_reset m then (term_reset t (m_stream m), m\<lparr>m_reset := False\<rparr>) else ([], m))"

definition manager_set :: "terminal_manager \<Rightarrow> format \<Rightarrow> manager \<Rightarrow> string \<times> manager" where
  "manager_set t f m =
     (let (out, m) = manager_reset t m
      in if format_set f then (out @ term_set t (m_stream m) f, m\<lparr>m_reset := True\<rparr>) else (out, m))"

definition new_manager :: "terminal_manager \<Rightarrow> stream \<Rightarrow> format \<Rightarrow> string \<times> manager" where
  "new_manager t stream f = manager_set t f \<lparr>m_stream = stream, m_reset = False\<rparr>"

definition delete_manager :: "terminal_manager \<Rightarrow> manager \<Rightarrow> string" where
  "delete_manager t m = fst (manager_reset t m)"

section \<open>What a terminal shows\<close>

text \<open>
  A terminal that understands escape sequences up to the letter m, as the ones above are: it shows the
  other characters, with default attributes or not.
\<close>

definition reset_sequence :: string where
  "reset_sequence = ''[00''"

fun screen :: "bool \<Rightarrow> string \<Rightarrow> (char \<times> bool) list \<times> bool"
and in_escape :: "bool \<Rightarrow> string \<Rightarrow> string \<Rightarrow> (char \<times> bool) list \<times> bool" where
  "screen plain [] = ([], plain)"
| "screen plain (c # cs) =
     (if c = esc then in_escape plain [] cs
      else (case screen plain cs of (shown, plain') \<Rightarrow> ((c, plain) # shown, plain')))"
| "in_escape plain seen [] = ([], plain)"
| "in_escape plain seen (c # cs) =
     (if c = CHR ''m'' then screen (seen = reset_sequence) cs else in_escape plain (seen @ [c]) cs)"

lemma screen_text:
  "esc \<notin> set cs \<Longrightarrow> screen plain (cs @ xs) =
     (map (\<lambda>c. (c, plain)) cs @ fst (screen plain xs), snd (screen plain xs))"
  by (induction cs) (auto split: prod.split)

lemma screen_reset: "screen plain (esc # ''[00m'' @ xs) = screen True xs"
  by (simp add: reset_sequence_def)

lemma screen_color:
  "fst (screen plain (color_text n @ xs)) = fst (screen (plain \<and> color_text n = []) xs)"
  "snd (screen plain (color_text n @ xs)) = snd (screen (plain \<and> color_text n = []) xs)"
  by (simp_all add: color_text_def reset_sequence_def)

section \<open>Properties\<close>

lemmas format_defs = or_color_def or_style_def format_color_def format_is_def

text \<open>The bit of a style.\<close>

fun style_bit :: "style \<Rightarrow> nat" where
  "style_bit None_style = 16"
| "style_bit Bold = 4"
| "style_bit Dark = 5"
| "style_bit Underline = 6"
| "style_bit Blink = 7"
| "style_bit Reverse = 8"
| "style_bit Conceal = 9"

lemma style_value_bit: "style_value s = 2 ^ style_bit s"
  by (cases s) simp_all

lemma format_is_bit: "format_is f s \<longleftrightarrow> bit f (style_bit s)"
  by (simp add: format_is_def style_value_bit and_exp_eq_0_iff_not_bit)

lemma color_bits: "bit (color_value c) n \<Longrightarrow> n < 4"
proof -
  assume b: "bit (color_value c) n"
  have "take_bit 4 (color_value c) = color_value c" by (cases c) simp_all
  with b show "n < 4" by (metis bit_take_bit_iff)
qed

lemma mask_bits: "bit (0xF0 :: int) n \<longleftrightarrow> 4 \<le> n \<and> n < 8"
proof -
  have "bit (push_bit 4 (mask 4) :: int) n \<longleftrightarrow> 4 \<le> n \<and> n < 8"
    unfolding bit_push_bit_iff bit_mask_iff by auto
  then show ?thesis by (simp add: mask_eq_exp_minus_1)
qed

lemma no_bit_16: "\<not> bit (f :: format) 16"
  using bit_imp_le_length [of f 16] by auto

lemma low_mask: "(0x0F :: 16 word) = mask 4"
  by (simp add: mask_eq_exp_minus_1)

lemma style_bit_props [simp]:
  "4 \<le> style_bit s" "\<not> style_bit s < 4" "style_bit s < 8 \<longleftrightarrow> s \<notin> {None_style, Reverse, Conceal}"
  "style_bit s < 16 \<longleftrightarrow> s \<noteq> None_style" "style_bit s = style_bit r \<longleftrightarrow> s = r"
  by (cases s; cases r; simp)+

text \<open>
  The operators of formats: after \<open>| color\<close> the format has that color and keeps the styles up to
  blink, but not reverse and conceal, whose bits lie outside the mask; after \<open>| style\<close> it has that
  style and every style and the color it had.
\<close>

theorem format_operators:
  "format_color (or_color f c) = color_value c \<and>
   (format_is (or_color f c) s \<longleftrightarrow> format_is f s \<and> s \<noteq> Reverse \<and> s \<noteq> Conceal) \<and>
   format_color (or_style f r) = format_color f \<and>
   (format_is (or_style f r) s \<longleftrightarrow> format_is f s \<or> s = r \<and> s \<noteq> None_style)"
proof (intro conjI)
  have c: "\<not> bit (color_value c) n" if "4 \<le> n" for n using color_bits [of c n] that by auto
  show "format_color (or_color f c) = color_value c"
    by (rule bit_word_eqI) (auto simp: format_defs low_mask bit_simps mask_bits dest: color_bits)
  show "format_is (or_color f c) s \<longleftrightarrow> format_is f s \<and> s \<noteq> Reverse \<and> s \<noteq> Conceal"
    by (auto simp: format_is_bit or_color_def bit_simps mask_bits c no_bit_16)
  show "format_color (or_style f r) = format_color f"
    by (rule bit_word_eqI) (auto simp: format_defs low_mask bit_simps style_value_bit)
  show "format_is (or_style f r) s \<longleftrightarrow> format_is f s \<or> s = r \<and> s \<noteq> None_style"
    by (auto simp: format_is_bit or_style_def bit_simps style_value_bit no_bit_16)
qed

lemma built_formats:
  "format_color (color_or_style c s) = color_value c" "format_is (color_or_style c s) t \<longleftrightarrow> t = s \<and> s \<noteq> None_style"
  "style_or_color s c = color_or_style c s"
  by (cases c; cases s; cases t; simp add: color_or_style_def style_or_color_def format_defs or.commute)+

section \<open>The console of Windows\<close>

text \<open>
  On Windows the manager also keeps the attributes that the two consoles had at the start, 0 if they
  could not be read; the bits of the foreground are blue, green, red and intensity.
\<close>

record console =
  stdout_attributes :: "16 word"
  stderr_attributes :: "16 word"

definition new_console :: "16 word option \<Rightarrow> 16 word option \<Rightarrow> console" where
  "new_console out err =
     \<lparr>stdout_attributes = (case out of Some a \<Rightarrow> a | None \<Rightarrow> 0),
      stderr_attributes = (case err of Some a \<Rightarrow> a | None \<Rightarrow> 0)\<rparr>"

definition console_attributes :: "console \<Rightarrow> stream \<Rightarrow> 16 word" where
  "console_attributes c stream =
     (if stream = Stdout then stdout_attributes c else if stream = Stderr then stderr_attributes c else 0)"

definition foreground_intensity :: "16 word" where
  "foreground_intensity = 8"

text \<open>The private \<open>set\<close>: the default attributes with another foreground, dim if the format is dark.\<close>

definition console_color :: "console \<Rightarrow> stream \<Rightarrow> format \<Rightarrow> 16 word \<Rightarrow> 16 word" where
  "console_color c stream f color =
     (let base = console_attributes c stream;
          base = base AND NOT (base AND 0x0F);
          base = (if \<not> format_is f Dark then base OR foreground_intensity else base)
      in base OR color)"

text \<open>What \<open>set\<close> gives to \<open>SetConsoleTextAttribute\<close>, if it calls it.\<close>

definition console_set :: "terminal_manager \<Rightarrow> console \<Rightarrow> stream \<Rightarrow> format \<Rightarrow> 16 word option" where
  "console_set m c stream f =
     (if \<not> format_set f \<or> \<not> is_tty m stream then None
      else if format_color f = color_value Grey then Some (console_color c stream f 0)
      else if format_color f = color_value Red then Some (console_color c stream f 4)
      else if format_color f = color_value Green then Some (console_color c stream f 2)
      else if format_color f = color_value Yellow then Some (console_color c stream f (2 OR 4))
      else if format_color f = color_value Blue then Some (console_color c stream f 1)
      else if format_color f = color_value Magenta then Some (console_color c stream f (1 OR 4))
      else if format_color f = color_value Cyan then Some (console_color c stream f (1 OR 2))
      else if format_color f = color_value White then Some (console_color c stream f (1 OR 2 OR 4))
      else None)"

definition console_reset :: "terminal_manager \<Rightarrow> console \<Rightarrow> stream \<Rightarrow> 16 word option" where
  "console_reset m c stream = (if \<not> is_tty m stream then None else Some (console_attributes c stream))"

text \<open>
  Setting a format changes the foreground only: the bits of the background are those the console had,
  and the intensity is cleared exactly by dark. A format without a color changes nothing, so styles alone
  are not shown.
\<close>

lemma console_color_bits:
  assumes "\<And>n. bit color n \<Longrightarrow> n < 3"
  shows "4 \<le> n \<Longrightarrow> bit (console_color c stream f color) n = bit (console_attributes c stream) n"
    and "n < 3 \<Longrightarrow> bit (console_color c stream f color) n = bit color n"
    and "bit (console_color c stream f color) 3 \<longleftrightarrow> \<not> format_is f Dark"
proof -
  have i: "bit foreground_intensity n \<longleftrightarrow> n = 3" for n
  proof -
    have f: "foreground_intensity = 2 ^ 3" by (simp add: foreground_intensity_def)
    show ?thesis unfolding f bit_exp_iff by auto
  qed
  have c: "\<not> bit color n" if "3 \<le> n" for n using assms that by fastforce
  show "4 \<le> n \<Longrightarrow> bit (console_color c stream f color) n = bit (console_attributes c stream) n"
    using bit_imp_le_length [of "console_attributes c stream" n]
    by (auto simp: console_color_def Let_def low_mask bit_simps i c)
  show "n < 3 \<Longrightarrow> bit (console_color c stream f color) n = bit color n"
    by (auto simp: console_color_def Let_def low_mask bit_simps i)
  show "bit (console_color c stream f color) 3 \<longleftrightarrow> \<not> format_is f Dark"
    by (auto simp: console_color_def Let_def low_mask bit_simps i c)
qed

lemma console_set_none: "format_color f = color_value None_color \<Longrightarrow> console_set m c stream f = None"
  by (simp add: console_set_def)

end
