(* ===== verification/Log_Text.thy ===== *)
theory Log_Text
  imports Terminal Errors
begin

text \<open>
  Log entries and their text (\<open>ice/log.hpp\<close>, \<open>ice/log.cpp\<close>). What \<open>localtime\<close> makes of a time and what
  fmt makes of its fields, and the texts of the categories, are parameters.
\<close>

section \<open>Levels\<close>

datatype level =
    Emergency | Alert | Critical | Error | Warning | Notice | Info | Debug | Custom
  | Other_level nat

fun level_value :: "level \<Rightarrow> nat" where
  "level_value Emergency = 0"
| "level_value Alert = 1"
| "level_value Critical = 2"
| "level_value Error = 3"
| "level_value Warning = 4"
| "level_value Notice = 5"
| "level_value Info = 6"
| "level_value Debug = 7"
| "level_value Custom = 8"
| "level_value (Other_level n) = n"

fun get_level_format :: "level \<Rightarrow> format" where
  "get_level_format Emergency = color_value Cyan"
| "get_level_format Alert = color_value Blue"
| "get_level_format Critical = color_value Magenta"
| "get_level_format Error = color_value Red"
| "get_level_format Warning = color_value Yellow"
| "get_level_format Notice = color_value Green"
| "get_level_format Info = 0"
| "get_level_format Debug = color_value Grey"
| "get_level_format Custom = 0"
| "get_level_format (Other_level n) = 0"

fun get_level_string :: "level \<Rightarrow> bool \<Rightarrow> string" where
  "get_level_string Emergency padding = (if padding then ''emergency'' else ''emergency'')"
| "get_level_string Alert padding = (if padding then ''alert    '' else ''alert'')"
| "get_level_string Critical padding = (if padding then ''critical '' else ''critical'')"
| "get_level_string Error padding = (if padding then ''error    '' else ''error'')"
| "get_level_string Warning padding = (if padding then ''warning  '' else ''warning'')"
| "get_level_string Notice padding = (if padding then ''notice   '' else ''notice'')"
| "get_level_string Info padding = (if padding then ''info     '' else ''info'')"
| "get_level_string Debug padding = (if padding then ''debug    '' else ''debug'')"
| "get_level_string Custom padding = (if padding then ''custom   '' else ''custom'')"
| "get_level_string (Other_level n) padding = (if padding then ''unknown  '' else ''unknown'')"

lemma padded_levels: "length (get_level_string l True) = 9"
  by (cases l) simp_all

lemma level_string_clean: "esc \<notin> set (get_level_string l p)" "CHR 0x00 \<notin> set (get_level_string l p)"
  by (cases l; simp add: esc_def)+

section \<open>Entries\<close>

record 't entry =
  e_tm :: 't
  e_ms :: int
  e_level :: level
  e_format :: format
  e_message :: string

text \<open>
  \<open>queue\<close>: times are nanoseconds since the epoch. Division of durations truncates towards zero, and so
  does the remainder: before the epoch the milliseconds are negative.
\<close>

definition truncate_div :: "int \<Rightarrow> int \<Rightarrow> int" where
  "truncate_div a b = (if a < 0 then - (- a div b) else a div b)"

definition truncate_mod :: "int \<Rightarrow> int \<Rightarrow> int" where
  "truncate_mod a b = a - b * truncate_div a b"

definition make_entry :: "(int \<Rightarrow> 't) \<Rightarrow> int \<Rightarrow> level \<Rightarrow> format \<Rightarrow> string \<Rightarrow> 't entry" where
  "make_entry localtime tp l f message =
     \<lparr>e_tm = localtime (truncate_div tp 1000000000), e_ms = truncate_mod (truncate_div tp 1000000) 1000,
      e_level = l, e_format = f, e_message = message\<rparr>"

text \<open>\<open>queue\<close> with an error code: the text of the entry, and the value that is returned.\<close>

definition error_text ::
    "(error_category \<Rightarrow> string) \<Rightarrow> (int \<Rightarrow> string) \<Rightarrow> (error_code \<Rightarrow> string) \<Rightarrow> error_code \<Rightarrow> string \<Rightarrow> string" where
  "error_text name number text ec message =
     name (ec_category ec) @ '' error '' @ number (ec_value ec) @ '': '' @ message @ '' ('' @ text ec @ '')''"

text \<open>What is logged for an exception that leaves a \<open>log::task\<close>.\<close>

datatype log_exception = System_error error_code string | Std_exception string | Other_exception

fun exception_text ::
    "(error_category \<Rightarrow> string) \<Rightarrow> (int \<Rightarrow> string) \<Rightarrow> (error_code \<Rightarrow> string) \<Rightarrow> log_exception \<Rightarrow> string" where
  "exception_text name number text (System_error ec w) = error_text name number text ec w"
| "exception_text name number text (Std_exception w) = w"
| "exception_text name number text Other_exception = ''unhandled exception''"

section \<open>Printing\<close>

text \<open>\<open>fputs\<close> writes up to the first null character.\<close>

definition fputs :: "string \<Rightarrow> string" where
  "fputs cs = takeWhile (\<lambda>c. c \<noteq> CHR 0x00) cs"

definition log_stream :: "level \<Rightarrow> stream" where
  "log_stream l = (if level_value l > level_value Error then Stdout else Stderr)"

definition log_print :: "('t \<Rightarrow> int \<Rightarrow> string) \<Rightarrow> terminal_manager \<Rightarrow> 't entry \<Rightarrow> string" where
  "log_print fmt t entry =
     (let stream = log_stream (e_level entry);
          level_format = get_level_format (e_level entry);
          level_string = get_level_string (e_level entry) True;
          head = fmt (e_tm entry) (e_ms entry) @ '' [''
      in if is_tty t stream
         then (let (o1, m) = new_manager t stream level_format;
                   (o2, m) = manager_reset t m;
                   (o3, m) = (if format_set (e_format entry) then manager_set t (e_format entry) m
                              else if e_level entry = Debug then manager_set t level_format m
                              else ([], m));
                   (o4, m) = manager_reset t m
               in head @ o1 @ fputs level_string @ o2 @ ''] '' @ o3 @ fputs (e_message entry) @ o4 @ [CHR 0x0A] @
                  delete_manager t m)
         else head @ level_string @ ''] '' @ e_message entry @ [CHR 0x0A])"

section \<open>Properties\<close>

text \<open>What the terminal makes of the pieces.\<close>

lemma screen_style:
  "screen plain (style_text f @ xs) = screen (plain \<and> style_text f = []) xs"
  by (simp add: style_text_def reset_sequence_def)

lemma screen_set:
  "screen plain (term_set t stream f @ xs) = screen (plain \<and> term_set t stream f = []) xs"
  by (cases "screen plain (color_text (format_color f) @ style_text f @ xs)")
    (auto simp: term_set_def color_text_def screen_style reset_sequence_def)

lemma screen_plain_text:
  "esc \<notin> set cs \<Longrightarrow> map fst (fst (screen plain (cs @ xs))) = cs @ map fst (fst (screen plain xs))"
  "esc \<notin> set cs \<Longrightarrow> snd (screen plain (cs @ xs)) = snd (screen plain xs)"
  by (simp_all add: screen_text comp_def)

lemma fputs_id: "CHR 0x00 \<notin> set cs \<Longrightarrow> fputs cs = cs"
  by (auto simp: fputs_def takeWhile_eq_all_conv)

lemmas manager_defs = new_manager_def manager_set_def manager_reset_def delete_manager_def Let_def

lemmas print_simps =
  manager_defs term_reset_def screen_set screen_reset screen_plain_text level_string_clean fputs_id

text \<open>A piece of text between its format and the reset.\<close>

definition formatted :: "terminal_manager \<Rightarrow> stream \<Rightarrow> format \<Rightarrow> string \<Rightarrow> string" where
  "formatted t stream f cs =
     term_set t stream f @ cs @ (if format_set f then term_reset t stream else [])"

lemma log_print_pieces:
  "log_print fmt t entry =
     (let stream = log_stream (e_level entry); lf = get_level_format (e_level entry)
      in fmt (e_tm entry) (e_ms entry) @ '' ['' @
         (if is_tty t stream
          then formatted t stream lf (fputs (get_level_string (e_level entry) True)) @ ''] '' @
               formatted t stream
                 (if format_set (e_format entry) then e_format entry
                  else if e_level entry = Debug then lf else 0)
                 (fputs (e_message entry))
          else get_level_string (e_level entry) True @ ''] '' @ e_message entry) @ [CHR 0x0A])"
  by (simp add: log_print_def manager_defs formatted_def term_set_def format_set_def)

lemma screen_formatted:
  assumes "esc \<notin> set cs" and "is_tty t stream"
  shows "map fst (fst (screen True (formatted t stream f cs @ xs))) = cs @ map fst (fst (screen True xs))"
    and "snd (screen True (formatted t stream f cs @ xs)) = snd (screen True xs)"
proof -
  have "\<not> format_set f \<Longrightarrow> term_set t stream f = []" by (simp add: term_set_def)
  with assms show "map fst (fst (screen True (formatted t stream f cs @ xs))) = cs @ map fst (fst (screen True xs))"
    and "snd (screen True (formatted t stream f cs @ xs)) = snd (screen True xs)"
    using screen_plain_text [OF assms(1)] screen_reset
    by (cases "format_set f"; simp add: formatted_def screen_set term_reset_def)+
qed

text \<open>
  The entry whose message is what the terminal's manager prints of it: \<open>operator<<\<close> hands the text of a
  message on a terminal to \<open>fputs\<close>, which ends at a null character.
\<close>

definition as_shown :: "terminal_manager \<Rightarrow> 'd entry \<Rightarrow> 'd entry" where
  "as_shown t entry =
     (if is_tty t (log_stream (e_level entry)) then entry\<lparr>e_message := fputs (e_message entry)\<rparr> else entry)"

lemma set_fputs: "set (fputs cs) \<subseteq> set cs"
  by (auto simp: fputs_def dest: set_takeWhileD)

lemma as_shown_id: "CHR 0x00 \<notin> set (e_message entry) \<Longrightarrow> as_shown t entry = entry"
  by (simp add: as_shown_def fputs_id)

lemma screen_log_print:
  assumes "esc \<notin> set (fmt (e_tm entry) (e_ms entry))" and "esc \<notin> set (e_message entry)"
  shows "map fst (fst (screen True (log_print fmt t entry))) =
           log_print fmt \<lparr>stdout_is_tty = False, stderr_is_tty = False\<rparr> (as_shown t entry) \<and>
         snd (screen True (log_print fmt t entry))"
proof -
  have clean: "esc \<notin> set '' [''" "esc \<notin> set ''] ''" "CHR 0x0A \<noteq> esc"
    by (simp_all add: esc_def)
  have message: "esc \<notin> set (fputs (e_message entry))" using assms(2) set_fputs by blast
  let ?t = "\<lparr>stdout_is_tty = False, stderr_is_tty = False\<rparr>"
  have off: "\<not> is_tty ?t s" for s by (simp add: is_tty_def)
  note one = screen_plain_text [OF assms(1)] screen_plain_text [OF assms(2)]
    screen_plain_text [OF clean(1)] screen_plain_text [OF clean(2)]
    screen_plain_text [OF level_string_clean(1)]
  note two = screen_formatted [OF message] screen_formatted [OF level_string_clean(1)]
  show ?thesis
    by (simp add: log_print_pieces off Let_def one two clean fputs_id level_string_clean as_shown_def
      del: append.append_Cons append_Cons)
qed

text \<open>
  C37: An entry whose time and message carry no escape character shows on a terminal the text it has
  without one, up to a null character in the message, where the terminal's text of the message ends; and
  the terminal is left with its default attributes: the escape sequences printed never change the text,
  whatever the level and the format.
\<close>

theorem log_print_same_text:
  assumes "esc \<notin> set (fmt (e_tm entry) (e_ms entry))" and "esc \<notin> set (e_message entry)"
  shows "map fst (fst (screen True (log_print fmt t entry))) =
           log_print fmt \<lparr>stdout_is_tty = False, stderr_is_tty = False\<rparr> (as_shown t entry) \<and>
         snd (screen True (log_print fmt t entry))"
  using assms by (rule screen_log_print)

definition sample_entry :: "int entry" where
  "sample_entry =
     \<lparr>e_tm = 0, e_ms = 5, e_level = Debug, e_format = color_or_style Red Bold, e_message = ''hi''\<rparr>"

theorem log_print_same_text_witness:
  "map fst (fst (screen True (log_print (\<lambda>d m. ''12:00'')
     \<lparr>stdout_is_tty = True, stderr_is_tty = False\<rparr> sample_entry))) = ''12:00 [debug    ] hi'' @ [CHR 0x0A]"
  using log_print_same_text [of "\<lambda>d m. ''12:00''" sample_entry "\<lparr>stdout_is_tty = True, stderr_is_tty = False\<rparr>"]
  by (simp add: sample_entry_def esc_def as_shown_def fputs_def log_print_def [of _ "\<lparr>stdout_is_tty = False, stderr_is_tty = False\<rparr>"]
    is_tty_def log_stream_def)

text \<open>
  Before the epoch the milliseconds of an entry are negative: the remainder follows the sign of the
  count.
\<close>

lemma milliseconds_range:
  "\<bar>e_ms (make_entry localtime tp l f message)\<bar> < 1000"
  "tp \<ge> 0 \<Longrightarrow> e_ms (make_entry localtime tp l f message) \<ge> 0"
  by (auto simp: make_entry_def truncate_mod_def truncate_div_def minus_div_mult_eq_mod
    minus_mult_div_eq_mod abs_if)

lemma milliseconds_before_epoch: "e_ms (make_entry localtime (-5000000) l f message) = -5"
  by (simp add: make_entry_def truncate_mod_def truncate_div_def)

text \<open>Without a terminal a null character is printed; on a terminal it ends the message.\<close>

lemma null_ends_message: "fputs (xs @ CHR 0x00 # ys) = fputs xs"
  by (induction xs) (simp_all add: fputs_def)

end
