(* ===== verification/Async_Objects.thy ===== *)
theory Async_Objects
  imports Async_Await Async_Generator
begin

text \<open>
  What surrounds the two protocols of \<open>ice/async.hpp\<close>: the detached coroutine \<open>task\<close>, the promises of
  \<open>async<void>\<close> and \<open>async<T&>\<close>, the three ways to await a task, and the iterators of an asynchronous
  generator.
\<close>

section \<open>Detached coroutines\<close>

text \<open>
  The frame of a \<open>task\<close>: how many suspensions its body has left, and how it ends, \<^const>\<open>None\<close> for a
  return. The object \<open>task\<close> is empty, so nobody but the coroutine itself can destroy the frame. A frame
  at its final suspend point can not be resumed.
\<close>

record 'e detached =
  suspensions :: nat
  outcome :: "'e option"
  at_final :: bool

text \<open>
  Running on to the next suspension or the end: a return passes the final suspend point, which never
  suspends, and the frame goes; an exception is rethrown by \<open>unhandled_exception\<close> to whoever resumed the
  coroutine, which then counts as suspended at its final suspend point.
\<close>

definition task_resume ::
    "addr \<Rightarrow> (addr \<rightharpoonup> 'e detached) \<Rightarrow> ('e option \<times> (addr \<rightharpoonup> 'e detached)) option" where
  "task_resume c w =
     (case w c of
        None \<Rightarrow> None
      | Some f \<Rightarrow>
          if at_final f then None
          else if suspensions f > 0 then Some (None, w(c \<mapsto> f\<lparr>suspensions := suspensions f - 1\<rparr>))
          else (case outcome f of
                  None \<Rightarrow> Some (None, w(c := None))
                | Some e \<Rightarrow> Some (Some e, w(c \<mapsto> f\<lparr>at_final := True\<rparr>))))"

text \<open>The initial suspend point does not suspend: the call runs the body.\<close>

definition task_call ::
    "addr \<Rightarrow> nat \<Rightarrow> 'e option \<Rightarrow> (addr \<rightharpoonup> 'e detached) \<Rightarrow> ('e option \<times> (addr \<rightharpoonup> 'e detached)) option" where
  "task_call c n r w =
     (if w c = None then task_resume c (w(c \<mapsto> \<lparr>suspensions = n, outcome = r, at_final = False\<rparr>)) else None)"

fun task_resumes ::
    "nat \<Rightarrow> addr \<Rightarrow> 'e option \<times> (addr \<rightharpoonup> 'e detached) \<Rightarrow> ('e option \<times> (addr \<rightharpoonup> 'e detached)) option" where
  "task_resumes 0 c x = Some x"
| "task_resumes (Suc n) c (thrown, w) =
     (case task_resume c w of None \<Rightarrow> None | Some x \<Rightarrow> task_resumes n c x)"

lemma task_resumes_end:
  "w c = Some \<lparr>suspensions = n, outcome = r, at_final = False\<rparr> \<Longrightarrow>
   task_resumes (Suc n) c (t, w) =
     Some (r, if r = None then w(c := None)
              else w(c \<mapsto> \<lparr>suspensions = 0, outcome = r, at_final = True\<rparr>))"
proof (induction n arbitrary: w t)
  case 0
  then show ?case by (cases r) (simp_all add: task_resume_def fun_eq_iff)
next
  case (Suc n)
  let ?w = "w(c \<mapsto> \<lparr>suspensions = n, outcome = r, at_final = False\<rparr>)"
  have "task_resume c w = Some (None, ?w)" using Suc.prems by (simp add: task_resume_def)
  moreover have "task_resumes (Suc n) c (None, ?w) =
      Some (r, if r = None then ?w(c := None)
               else ?w(c \<mapsto> \<lparr>suspensions = 0, outcome = r, at_final = True\<rparr>))"
    by (rule Suc.IH) simp
  ultimately show ?case by (simp del: task_resumes.simps(2) add: task_resumes.simps(2) [of "Suc n"])
qed

text \<open>
  A task is started by its call, needs one resumption for each suspension, and destroys its frame when
  it returns. When it throws, the exception reaches whoever resumed it last, and the frame is leaked: it
  stays for ever, since no handle to it exists and it can not be resumed.
\<close>

theorem task_frame_ends:
  assumes "w c = None"
  shows "\<exists>x. task_call c n r w = Some x \<and>
         task_resumes n c x =
           Some (r, if r = None then w else w(c \<mapsto> \<lparr>suspensions = 0, outcome = r, at_final = True\<rparr>))"
proof -
  let ?w = "w(c \<mapsto> \<lparr>suspensions = n, outcome = r, at_final = False\<rparr>)"
  have "task_resumes (Suc n) c (None, ?w) =
      Some (r, if r = None then ?w(c := None)
               else ?w(c \<mapsto> \<lparr>suspensions = 0, outcome = r, at_final = True\<rparr>))"
    by (rule task_resumes_end) simp
  with assms show ?thesis
    by (auto simp: task_call_def fun_upd_idem split: option.splits if_splits)
qed

theorem task_frame_ends_witness:
  "(\<exists>x. task_call 5 1 (Some True) Map.empty = Some x \<and>
     task_resumes 1 5 x =
       Some (Some True, [5 \<mapsto> \<lparr>suspensions = 0, outcome = Some True, at_final = True\<rparr>])) \<and>
   (\<exists>x. task_call 5 2 (None :: bool option) Map.empty = Some x \<and> task_resumes 2 5 x = Some (None, Map.empty))"
  using task_frame_ends [of Map.empty 5 1 "Some True"] task_frame_ends [of Map.empty 5 2 "None :: bool option"]
  by (simp only: simp_thms if_True if_False option.simps refl)

lemma task_leaked:
  "w c = Some f \<Longrightarrow> at_final f \<Longrightarrow> task_resume c w = None"
  by (simp add: task_resume_def)

section \<open>Promises of void and of references\<close>

text \<open>
  The base class is the same; \<open>async<void>\<close> stores nothing, \<open>async<T&>\<close> a pointer that is null until
  \<open>return_value\<close>, and dereferencing null is \<^const>\<open>None\<close>. Neither has a destructor of its own.
\<close>

definition void_promise_result :: "(unit, 'e) promise \<Rightarrow> 'e + unit" where
  "void_promise_result p = (case p_exception p of Some e \<Rightarrow> Inl e | None \<Rightarrow> Inr ())"

definition ref_return_value :: "addr \<Rightarrow> (addr, 'e) promise \<Rightarrow> (addr, 'e) promise" where
  "ref_return_value value p = p\<lparr>p_value := Some value\<rparr>"

definition ref_result :: "(addr, 'e) promise \<Rightarrow> ('e + addr) option" where
  "ref_result p =
     (case p_exception p of
        Some e \<Rightarrow> Some (Inl e)
      | None \<Rightarrow> (case p_value p of None \<Rightarrow> None | Some value \<Rightarrow> Some (Inr value)))"

text \<open>They agree with the general promise wherever that one is defined.\<close>

lemma void_promise_result_agrees: "promise_result p = Some r \<Longrightarrow> void_promise_result p = r"
  by (auto simp: promise_result_def void_promise_result_def split: option.splits)

lemma ref_result_agrees: "ref_result p = promise_result p"
  by (simp add: ref_result_def promise_result_def split: option.split)

section \<open>Awaiting\<close>

text \<open>
  \<open>co_await task\<close> gives a reference to the result, \<open>co_await std::move(task)\<close> the result to move from,
  \<open>co_await task.when_ready()\<close> nothing: it neither reads the promise nor throws.
\<close>

datatype await_kind = Lvalue | Rvalue | When_ready

datatype 'a awaited = Reference 'a | Movable 'a | Nothing

definition await_resume_as ::
    "await_kind \<Rightarrow> addr \<Rightarrow> ('a, 'e) promise \<Rightarrow> ('e await_error + 'a awaited) option" where
  "await_resume_as k coroutine p =
     (case k of
        Lvalue \<Rightarrow> map_option (map_sum id Reference) (await_resume coroutine p)
      | Rvalue \<Rightarrow> map_option (map_sum id Movable) (await_resume coroutine p)
      | When_ready \<Rightarrow> Some (Inr Nothing))"

text \<open>
  Once the awaiter of a task runs on, each of the three is defined; only \<open>when_ready\<close> hides the
  exception of the body, and it is what awaits an empty task without an exception.
\<close>

lemma await_kinds_defined:
  assumes "task_reach c s" and "awaiter s = A_continued" and "coroutine \<noteq> 0"
  shows "\<exists>r. promise_result (promise s) = Some r \<and>
         await_resume_as Lvalue coroutine (promise s) = Some (map_sum Rethrown Reference r) \<and>
         await_resume_as Rvalue coroutine (promise s) = Some (map_sum Rethrown Movable r) \<and>
         await_resume_as When_ready coroutine (promise s) = Some (Inr Nothing)"
proof -
  from task_reach_inv [OF assms(1)] assms(2) have "has_result (promise s)"
    by (auto simp: task_inv_def)
  then obtain r where "promise_result (promise s) = Some r"
    by (auto simp: has_result_def promise_result_def split: option.splits)
  with assms(3) show ?thesis
    by (cases r) (simp_all add: await_resume_as_def await_resume_def)
qed

lemma await_empty_task:
  "await_resume_as Lvalue 0 p = Some (Inl Broken_promise)"
  "await_resume_as When_ready 0 p = Some (Inr Nothing)"
  by (simp_all add: await_resume_as_def await_resume_def)

section \<open>Iterators of asynchronous generators\<close>

text \<open>
  An iterator is the address of the coroutine, 0 at the end. \<open>rethrow_if_unhandled_exception\<close> moves the
  exception out of the promise.
\<close>

definition gen_finished :: "('a, 'e) generator \<Rightarrow> bool" where
  "gen_finished s \<longleftrightarrow> m_current s = None"

definition gen_rethrow :: "('a, 'e) generator \<Rightarrow> 'e option \<times> ('a, 'e) generator" where
  "gen_rethrow s = (m_exception s, s\<lparr>m_exception := None\<rparr>)"

definition gen_value :: "('a, 'e) generator \<Rightarrow> 'a option" where
  "gen_value s = m_current s"

text \<open>\<open>await_resume\<close> of \<open>begin\<close> and of \<open>++\<close>; \<open>++\<close> stores the iterator before it throws.\<close>

definition begin_await_resume ::
    "addr \<Rightarrow> ('a, 'e) generator \<Rightarrow> ('e + addr) \<times> ('a, 'e) generator" where
  "begin_await_resume coroutine s =
     (if coroutine = 0 then (Inr 0, s)
      else if gen_finished s
      then (case gen_rethrow s of (Some e, t) \<Rightarrow> (Inl e, t) | (None, t) \<Rightarrow> (Inr 0, t))
      else (Inr coroutine, s))"

definition increment_await_resume ::
    "addr \<Rightarrow> ('a, 'e) generator \<Rightarrow> 'e option \<times> addr \<times> ('a, 'e) generator" where
  "increment_await_resume it s =
     (if gen_finished s
      then (let it = 0 in case gen_rethrow s of (r, t) \<Rightarrow> (r, it, t))
      else (None, it, s))"

text \<open>The outcome of the step relation's \<open>await_resume\<close>, read off the iterator.\<close>

fun outcome_of :: "'e + addr \<Rightarrow> 'e consumer_pc" where
  "outcome_of (Inl e) = C_threw e"
| "outcome_of (Inr it) = (if it = 0 then C_end else C_value)"

lemma begin_outcome:
  "coroutine \<noteq> 0 \<Longrightarrow> outcome_of (fst (begin_await_resume coroutine s)) = gen_await_resume s"
  by (auto simp: begin_await_resume_def gen_finished_def gen_rethrow_def gen_await_resume_def
      split: option.split)

lemma increment_outcome:
  assumes "coroutine \<noteq> 0" and "increment_await_resume coroutine s = (r, it, t)"
  shows "outcome_of (case r of Some e \<Rightarrow> Inl e | None \<Rightarrow> Inr it) = gen_await_resume s"
  using assms
  by (auto simp: increment_await_resume_def gen_finished_def gen_rethrow_def gen_await_resume_def Let_def
      split: option.splits if_splits)

text \<open>
  What a loop over a generator relies on: an iterator that is not the end can be dereferenced and
  reads the value published last; the iterator of \<open>++\<close> is the end whenever it throws; and an exception
  is thrown once, by the first operation that finds the end.
\<close>

theorem generator_iterators:
  assumes "coroutine \<noteq> 0"
  shows "(begin_await_resume coroutine s = (Inr it, t) \<and> it \<noteq> 0 \<longrightarrow>
            it = coroutine \<and> t = s \<and> gen_value s \<noteq> None) \<and>
         (increment_await_resume coroutine s = (r, it, t) \<longrightarrow>
            (it \<noteq> 0 \<longrightarrow> it = coroutine \<and> t = s \<and> gen_value s \<noteq> None \<and> r = None) \<and>
            (it = 0 \<longrightarrow> r = m_exception s \<and> fst (gen_rethrow t) = None))"
  using assms
  by (auto simp: begin_await_resume_def increment_await_resume_def gen_finished_def gen_rethrow_def
      gen_value_def Let_def split: option.splits if_splits)

text \<open>
  \<open>begin\<close> may be called once: at the end the coroutine is over, but the state word can still ask for it
  to be resumed.
\<close>

lemma generator_begin_after_end:
  assumes "gen_reach k s" and "consumer s = C_end"
  shows "body_over s"
proof -
  from gen_reach_inv [OF assms(1)] assms(2)
  have l: "received s \<noteq> []" "last (received s) = m_current s" "m_current s = None"
    and p: "None \<in> set (published s) \<longleftrightarrow> body_over s" "set (received s) \<subseteq> set (published s)"
    by (auto simp: gen_inv_def settled_def)
  from l have "None \<in> set (received s)" using last_in_set by fastforce
  with p show ?thesis by blast
qed

end
