(* ===== verification/Log_Api.thy ===== *)
theory Log_Api
  imports Log_Text Async_Objects System_Messages Ssh_Errors
begin

text \<open>
  How errors and log calls reach their text: the names and messages of all error categories
  (\<open>ice/error.cpp\<close>, \<open>ssh/error.cpp\<close>), \<open>throw_exception\<close> (\<open>ice/error.hpp\<close>), and the interface of the
  logger (\<open>ice/log.hpp\<close>) with its coroutine \<open>log::task\<close>. \<open>fmt::format\<close>, the conversion of numbers, and the
  texts of the operating system are parameters.
\<close>

section \<open>Error categories\<close>

fun category_name :: "error_category \<Rightarrow> string" where
  "category_name Std_system_category = ''system''"
| "category_name Native_category = ''native''"
| "category_name System_category = ''system''"
| "category_name Domain_category = ''domain''"
| "category_name Ssh_domain_category = ''ssh''"

text \<open>What the system provides: its native texts, the numbers of \<open>std::errc\<close>, of libssh2, decimals.\<close>

record platform =
  native_text :: "int \<Rightarrow> string"
  std_text :: "int \<Rightarrow> string"
  errno_of :: "std_errc \<Rightarrow> int"
  ssh_value :: "ssh_error \<Rightarrow> int"
  to_string :: "int \<Rightarrow> string"

definition error_message :: "platform \<Rightarrow> error_code \<Rightarrow> string" where
  "error_message pf ec =
     (case ec_category ec of
        Std_system_category \<Rightarrow> std_text pf (ec_value ec)
      | Native_category \<Rightarrow> native_message (native_text pf) (ec_value ec)
      | System_category \<Rightarrow> system_message (errno_of pf) (ec_value ec)
      | Domain_category \<Rightarrow> domain_message (ec_value ec)
      | Ssh_domain_category \<Rightarrow> ssh_message (ssh_value pf) (to_string pf) (ec_value ec))"

text \<open>
  \<open>native_category::message\<close> on Windows: a wide text, cut at its first null character, is converted to
  UTF-8 in two calls, the first for the size. The terminating null is counted on top of the size.
\<close>

definition unknown_error :: string where
  "unknown_error = ''unknown error''"

definition win_native_message ::
    "(nat \<Rightarrow> nat list option) \<Rightarrow> (nat list \<Rightarrow> nat) \<Rightarrow> (nat list \<Rightarrow> nat \<Rightarrow> string) \<Rightarrow> int \<Rightarrow> string" where
  "win_native_message format_message utf8_size utf8_write ev =
     (let ident = nat (ev mod 2 ^ 32);
          wstr = (case format_message ident of
                    None \<Rightarrow> []
                  | Some buffer \<Rightarrow> takeWhile (\<lambda>c. c \<noteq> 0) buffer)
      in if wstr = [] then unknown_error
         else (let size = utf8_size wstr + 1; str = utf8_write wstr size
               in if str = [] then unknown_error
                  else native_format (takeWhile (\<lambda>c. c \<noteq> CHR 0x00) str)))"

text \<open>On both platforms the text of a native error is in the canonical form of \<open>format\<close>.\<close>

lemma win_native_message_canonical:
  "native_format (win_native_message fm us uw ev) = win_native_message fm us uw ev"
proof -
  have "native_format unknown_error = unknown_error"
    by (simp add: native_format_def unknown_error_def find_first_not_of_def find_last_not_of_def
        find_char_def blanks_def printable_ascii_def tolower_def)
  moreover have "native_format (native_format s) = native_format s" for s
    using native_format_canonical by blast
  ultimately show ?thesis
    by (simp add: win_native_message_def Let_def split: option.split)
qed

section \<open>Throwing\<close>

text \<open>
  \<open>throw_exception\<close> throws, or without exceptions prints to the error stream in bold red and aborts.
\<close>

datatype thrown = Thrown log_exception | Aborted string

definition exception_line :: "platform \<Rightarrow> log_exception \<Rightarrow> string" where
  "exception_line pf e =
     (case e of
        System_error ec w \<Rightarrow>
          error_text category_name (to_string pf) (error_message pf) ec w @ [CHR 0x0A]
      | Std_exception w \<Rightarrow> ''critical error: '' @ w @ [CHR 0x0A]
      | Other_exception \<Rightarrow> [])"

definition throw_exception ::
    "bool \<Rightarrow> terminal_manager \<Rightarrow> platform \<Rightarrow> log_exception \<Rightarrow> thrown" where
  "throw_exception exceptions t pf e =
     (if exceptions then Thrown e
      else (let (o1, m) = new_manager t Stderr (color_or_style Red Bold);
                (o2, m) = manager_reset t m
            in Aborted (o1 @ exception_line pf e @ o2)))"

text \<open>A terminal shows the text and is left with its default attributes.\<close>

lemma throw_exception_shows:
  assumes "throw_exception False t pf e = Aborted cs" and "is_tty t Stderr" and "esc \<notin> set (exception_line pf e)"
  shows "map fst (fst (screen True cs)) = exception_line pf e \<and> snd (screen True cs)"
proof -
  have "format_set (color_or_style Red Bold)" by (simp add: format_set_def color_or_style_def)
  with assms(1) have "cs = formatted t Stderr (color_or_style Red Bold) (exception_line pf e)"
    by (simp add: throw_exception_def manager_defs formatted_def)
  then show ?thesis
    using screen_formatted [OF assms(3,2), of "color_or_style Red Bold" "[]"] by simp
qed

section \<open>The interface of the logger\<close>

text \<open>
  What a call of \<open>log::queue\<close> is given after the time and the level, by overload: with or without a
  format, with or without arguments for fmt, with or without an error code.
\<close>

datatype 'a log_args =
    Message string
  | Message_args string "'a list"
  | Format_message format string
  | Format_message_args format string "'a list"
  | Code_message error_code string
  | Code_message_args error_code string "'a list"
  | Code_format_message_args error_code format string "'a list"

text \<open>The entry that is queued: its format and message, and the value returned with an error code.\<close>

definition log_request ::
    "(string \<Rightarrow> 'a list \<Rightarrow> string) \<Rightarrow> platform \<Rightarrow> 'a log_args \<Rightarrow> format \<times> string \<times> int option" where
  "log_request fmt pf a =
     (let code = error_text category_name (to_string pf) (error_message pf)
      in case a of
           Message m \<Rightarrow> (0, m, None)
         | Message_args m args \<Rightarrow> (0, fmt m args, None)
         | Format_message f m \<Rightarrow> (f, m, None)
         | Format_message_args f m args \<Rightarrow> (f, fmt m args, None)
         | Code_message ec m \<Rightarrow> (0, code ec m, Some (ec_value ec))
         | Code_message_args ec m args \<Rightarrow> (0, code ec (fmt m args), Some (ec_value ec))
         | Code_format_message_args ec f m args \<Rightarrow> (f, code ec (fmt m args), Some (ec_value ec)))"

definition log_queue ::
    "(string \<Rightarrow> 'a list \<Rightarrow> string) \<Rightarrow> platform \<Rightarrow> (int \<Rightarrow> 't) \<Rightarrow> int \<Rightarrow> level \<Rightarrow> 'a log_args \<Rightarrow>
     't entry \<times> int option" where
  "log_queue fmt pf localtime tp l a =
     (case log_request fmt pf a of (f, message, r) \<Rightarrow> (make_entry localtime tp l f message, r))"

text \<open>\<open>emergency\<close>, \<open>alert\<close> and so on: the level of each of the nine functions.\<close>

datatype log_function =
    Log_emergency | Log_alert | Log_critical | Log_error | Log_warning | Log_notice | Log_info
  | Log_debug | Log_custom

fun function_level :: "log_function \<Rightarrow> level" where
  "function_level Log_emergency = Emergency"
| "function_level Log_alert = Alert"
| "function_level Log_critical = Critical"
| "function_level Log_error = Error"
| "function_level Log_warning = Warning"
| "function_level Log_notice = Notice"
| "function_level Log_info = Info"
| "function_level Log_debug = Debug"
| "function_level Log_custom = Custom"

definition log_at ::
    "(string \<Rightarrow> 'a list \<Rightarrow> string) \<Rightarrow> platform \<Rightarrow> (int \<Rightarrow> 't) \<Rightarrow> int \<Rightarrow> log_function \<Rightarrow> 'a log_args \<Rightarrow>
     't entry \<times> int option" where
  "log_at fmt pf localtime now fn a = log_queue fmt pf localtime now (function_level fn) a"

text \<open>
  Delivery by the coroutine of the logger: to the sink if one is set, to \<open>print\<close> otherwise; an
  exception is caught and reported on the error stream, as a C string.
\<close>

datatype printing = Wrote string | Print_threw string | Print_threw_other

definition log_deliver ::
    "('t entry \<Rightarrow> printing) option \<Rightarrow> ('t entry \<Rightarrow> printing) \<Rightarrow> 't entry \<Rightarrow> string \<times> string" where
  "log_deliver sink print entry =
     (case (case sink of Some s \<Rightarrow> s entry | None \<Rightarrow> print entry) of
        Wrote out \<Rightarrow> (out, [])
      | Print_threw w \<Rightarrow> ([], ''critical logger error: '' @ fputs w @ [CHR 0x0A])
      | Print_threw_other \<Rightarrow> ([], ''critical logger error'' @ [CHR 0x0A]))"

text \<open>
  From the call to the screen: without a sink, what a log function was given appears on one line with
  the name of its level, in plain text and with the attributes of the terminal as they were.
\<close>

lemma log_at_shows:
  assumes "log_at fmt pf localtime now fn a = (entry, r)" and "log_request fmt pf a = (f, message, r')"
    and "log_deliver None (\<lambda>e. Wrote (log_print head t e)) entry = (out, err)"
    and "esc \<notin> set (head (e_tm entry) (e_ms entry))" and "esc \<notin> set message" and "CHR 0x00 \<notin> set message"
  shows "map fst (fst (screen True out)) =
           head (e_tm entry) (e_ms entry) @ '' ['' @ get_level_string (function_level fn) True @ ''] '' @
           message @ [CHR 0x0A] \<and> snd (screen True out) \<and> err = []"
proof -
  from assms(1,2) have e: "e_message entry = message" "e_level entry = function_level fn"
    by (auto simp: log_at_def log_queue_def make_entry_def)
  from assms(3) have o: "out = log_print head t entry" "err = []" by (auto simp: log_deliver_def)
  let ?t = "\<lparr>stdout_is_tty = False, stderr_is_tty = False\<rparr>"
  have "log_print head ?t entry = head (e_tm entry) (e_ms entry) @ '' ['' @
      get_level_string (e_level entry) True @ ''] '' @ e_message entry @ [CHR 0x0A]"
    by (simp add: log_print_pieces is_tty_def Let_def)
  with screen_log_print [of head entry t] as_shown_id [of entry t] assms(4-6) e o show ?thesis by simp
qed

section \<open>Coroutines that log their exceptions\<close>

text \<open>
  \<open>log::task\<close> is a detached coroutine whose \<open>unhandled_exception\<close> logs and swallows the exception, so
  its final suspend point is passed and the frame goes. The exceptions logged are the second result.
\<close>

definition log_task_resume ::
    "addr \<Rightarrow> (addr \<rightharpoonup> log_exception detached) \<Rightarrow>
     (log_exception option \<times> (addr \<rightharpoonup> log_exception detached)) option" where
  "log_task_resume c w =
     (case task_resume c w of
        None \<Rightarrow> None
      | Some (None, v) \<Rightarrow> Some (None, v)
      | Some (Some e, v) \<Rightarrow> Some (Some e, v(c := None)))"

definition log_task_entry ::
    "(string \<Rightarrow> 'a list \<Rightarrow> string) \<Rightarrow> platform \<Rightarrow> (int \<Rightarrow> 't) \<Rightarrow> int \<Rightarrow> log_exception \<Rightarrow> 't entry" where
  "log_task_entry fmt pf localtime now e =
     fst (log_at fmt pf localtime now Log_error
       (Message (exception_text category_name (to_string pf) (error_message pf) e)))"

text \<open>So no frame of a \<open>log::task\<close> is leaked, and an exception is logged once, when the body ends.\<close>

lemma log_task_ends:
  assumes "w c = Some \<lparr>suspensions = 0, outcome = r, at_final = False\<rparr>"
  shows "log_task_resume c w = Some (r, w(c := None))"
  using assms by (cases r) (simp_all add: log_task_resume_def task_resume_def)

lemma log_task_goes_on:
  assumes "w c = Some \<lparr>suspensions = Suc n, outcome = r, at_final = False\<rparr>"
  shows "log_task_resume c w = Some (None, w(c \<mapsto> \<lparr>suspensions = n, outcome = r, at_final = False\<rparr>))"
  using assms by (simp add: log_task_resume_def task_resume_def)

end
