(* ===== verification/Log_Queue.thy ===== *)
theory Log_Queue
  imports Prelude
begin

text \<open>
  The queue of the logger (\<open>ice/log.cpp\<close>): calls of \<open>log::queue\<close> from several threads, and the thread
  of the logger. The context the logger runs appears as the queue it implements for one thread (see
  the context's theory). Loads and stores of the atomic variables are single steps; a thread that
  waits for its condition variable falls asleep, is notified only while asleep, and may wake up for no
  reason.
\<close>

section \<open>States\<close>

text \<open>
  A job of the logger: the entry, the call it belongs to (a thread and the number of its call), and
  whether the caller waits for it.
\<close>

record job =
  j_entry :: nat
  j_thread :: nat
  j_call :: nat
  j_sync :: bool

text \<open>
  A call: before the load of \<open>g_count\<close>; with the value, before the load of \<open>g_limit\<close>; about to add to
  \<open>g_count\<close>; about to post; about to post and to wait; in the predicate of the wait; about to fall
  asleep; asleep.
\<close>

datatype call_pc =
    Outside
  | Called nat
  | Counted nat nat
  | Adding nat
  | Posting nat
  | Posting_sync nat
  | Checking nat
  | Drowsy nat
  | Asleep nat

text \<open>
  The logger: in \<open>run\<close> without a job, before it prints, after it, about to notify a call, returned from
  \<open>run\<close>.
\<close>

datatype logger_pc = L_wait | L_resume job | L_printed job | L_notify nat nat | L_exited

text \<open>
  \<open>g_sink\<close> is the null pointer when entries are printed. Ghost fields: the number of the current call of
  each thread, the jobs posted and printed, the sink that each printed job was given, and whether a condition variable was used after its destruction.
\<close>

record log_sys =
  g_limit :: nat
  g_count :: nat
  g_sink :: addr
  l_queue :: "job list"
  l_logger :: logger_pc
  l_pc :: "nat \<Rightarrow> call_pc"
  l_completed :: "nat \<Rightarrow> bool"
  l_stopped :: bool
  l_call :: "nat \<Rightarrow> nat"
  l_posted :: "job list"
  l_printed :: "job list"
  l_sinks :: "addr list"
  l_dangling :: bool

definition new_log :: "nat \<Rightarrow> log_sys" where
  "new_log limit =
     \<lparr>g_limit = limit, g_count = 0, g_sink = 0, l_queue = [], l_logger = L_wait, l_pc = (\<lambda>_. Outside),
      l_completed = (\<lambda>_. False), l_stopped = False, l_call = (\<lambda>_. 0), l_posted = [], l_printed = [],
      l_sinks = [], l_dangling = False\<rparr>"

fun waiting :: "call_pc \<Rightarrow> nat option" where
  "waiting (Checking e) = Some e"
| "waiting (Drowsy e) = Some e"
| "waiting (Asleep e) = Some e"
| "waiting _ = None"

fun woken :: "call_pc \<Rightarrow> call_pc" where
  "woken (Asleep e) = Checking e"
| "woken p = p"

section \<open>Steps\<close>

text \<open>\<open>log_move s t p\<close>: thread \<open>t\<close> goes on to \<open>p\<close>.\<close>

definition log_move :: "log_sys \<Rightarrow> nat \<Rightarrow> call_pc \<Rightarrow> log_sys" where
  "log_move s t p = s\<lparr>l_pc := (l_pc s)(t := p)\<rparr>"

definition log_post :: "job \<Rightarrow> log_sys \<Rightarrow> log_sys" where
  "log_post j s = s\<lparr>l_queue := l_queue s @ [j], l_posted := l_posted s @ [j]\<rparr>"

text \<open>Steps of calls under way.\<close>

inductive log_call_step :: "log_sys \<Rightarrow> log_sys \<Rightarrow> bool" where
  load_count:
    "l_pc s t = Called e \<Longrightarrow> log_call_step s (log_move s t (Counted e (g_count s)))"
| load_limit:
    "l_pc s t = Counted e n \<Longrightarrow>
     log_call_step s (log_move s t (if n < g_limit s then Adding e else Posting_sync e))"
| add:
    "l_pc s t = Adding e \<Longrightarrow>
     log_call_step s (log_move (s\<lparr>g_count := g_count s + 1\<rparr>) t (Posting e))"
| post:
    "l_pc s t = Posting e \<Longrightarrow>
     log_call_step s
       (log_move (log_post \<lparr>j_entry = e, j_thread = t, j_call = l_call s t, j_sync = False\<rparr> s) t Outside)"
| post_sync:
    "l_pc s t = Posting_sync e \<Longrightarrow>
     log_call_step s
       (log_move
          (log_post \<lparr>j_entry = e, j_thread = t, j_call = l_call s t, j_sync = True\<rparr>
             (s\<lparr>l_completed := (l_completed s)(t := False)\<rparr>))
          t (Checking e))"
| check:
    "l_pc s t = Checking e \<Longrightarrow>
     log_call_step s (log_move s t (if l_completed s t then Outside else Drowsy e))"
| fall_asleep:
    "l_pc s t = Drowsy e \<Longrightarrow> log_call_step s (log_move s t (Asleep e))"

text \<open>Steps of the logger: \<open>notify_one\<close> finds the caller waiting, or its condition variable is gone.\<close>

inductive logger_step :: "log_sys \<Rightarrow> log_sys \<Rightarrow> bool" where
  take_job:
    "l_logger s = L_wait \<Longrightarrow> l_queue s = j # js \<Longrightarrow>
     logger_step s (s\<lparr>l_queue := js, l_logger := L_resume j\<rparr>)"
| leave_run:
    "l_logger s = L_wait \<Longrightarrow> l_queue s = [] \<Longrightarrow> l_stopped s \<Longrightarrow>
     logger_step s (s\<lparr>l_logger := L_exited\<rparr>)"
| print_entry:
    "l_logger s = L_resume j \<Longrightarrow>
     logger_step s (s\<lparr>l_logger := L_printed j, l_printed := l_printed s @ [j], l_sinks := l_sinks s @ [g_sink s]\<rparr>)"
| subtract:
    "l_logger s = L_printed j \<Longrightarrow> \<not> j_sync j \<Longrightarrow>
     logger_step s (s\<lparr>l_logger := L_wait, g_count := g_count s - 1\<rparr>)"
| complete:
    "l_logger s = L_printed j \<Longrightarrow> j_sync j \<Longrightarrow>
     logger_step s (s\<lparr>l_logger := L_notify (j_thread j) (j_call j),
                      l_completed := (l_completed s)(j_thread j := True)\<rparr>)"
| notify_waiter:
    "l_logger s = L_notify t n \<Longrightarrow> l_call s t = n \<Longrightarrow> waiting (l_pc s t) \<noteq> None \<Longrightarrow>
     logger_step s (log_move (s\<lparr>l_logger := L_wait\<rparr>) t (woken (l_pc s t)))"
| notify_gone:
    "l_logger s = L_notify t n \<Longrightarrow> l_call s t \<noteq> n \<or> waiting (l_pc s t) = None \<Longrightarrow>
     logger_step s (s\<lparr>l_logger := L_wait, l_dangling := True\<rparr>)"

text \<open>
  From outside: calls by \<open>k\<close> threads, limits up to \<open>l\<close>, another sink or none, \<open>stop\<close>, and wake-ups for no reason.
\<close>

inductive log_outside :: "nat \<Rightarrow> nat \<Rightarrow> log_sys \<Rightarrow> log_sys \<Rightarrow> bool" for k l where
  call:
    "t < k \<Longrightarrow> l_pc s t = Outside \<Longrightarrow>
     log_outside k l s (log_move (s\<lparr>l_call := (l_call s)(t := l_call s t + 1)\<rparr>) t (Called e))"
| limit:
    "n \<le> l \<Longrightarrow> log_outside k l s (s\<lparr>g_limit := n\<rparr>)"
| set_sink:
    "log_outside k l s (s\<lparr>g_sink := a\<rparr>)"
| stop:
    "log_outside k l s (s\<lparr>l_stopped := True\<rparr>)"
| spurious:
    "l_pc s t = Asleep e \<Longrightarrow> log_outside k l s (log_move s t (Checking e))"

inductive log_reach :: "nat \<Rightarrow> nat \<Rightarrow> log_sys \<Rightarrow> bool" for k l where
  start: "log_reach k l (new_log l)"
| in_call: "log_reach k l s \<Longrightarrow> log_call_step s t \<Longrightarrow> log_reach k l t"
| in_logger: "log_reach k l s \<Longrightarrow> logger_step s t \<Longrightarrow> log_reach k l t"
| outside: "log_reach k l s \<Longrightarrow> log_outside k l s t \<Longrightarrow> log_reach k l t"

section \<open>The order of the entries\<close>

fun at_hand :: "logger_pc \<Rightarrow> job list" where
  "at_hand (L_resume j) = [j]"
| "at_hand _ = []"

definition in_order :: "log_sys \<Rightarrow> bool" where
  "in_order s \<longleftrightarrow> l_posted s = l_printed s @ at_hand (l_logger s) @ l_queue s"

lemma in_order_queue: "log_call_step s t \<Longrightarrow> in_order s \<Longrightarrow> in_order t"
  by (induction rule: log_call_step.induct) (auto simp: in_order_def log_move_def log_post_def)

lemma in_order_logger: "logger_step s t \<Longrightarrow> in_order s \<Longrightarrow> in_order t"
  by (induction rule: logger_step.induct) (auto simp: in_order_def log_move_def)

lemma in_order_outside: "log_outside k l s t \<Longrightarrow> in_order s \<Longrightarrow> in_order t"
  by (induction rule: log_outside.induct) (auto simp: in_order_def log_move_def)

lemma log_reach_in_order: "log_reach k l s \<Longrightarrow> in_order s"
proof (induction rule: log_reach.induct)
  case start
  show ?case by (simp add: in_order_def new_log_def)
qed (blast dest: in_order_queue in_order_logger in_order_outside)+

text \<open>
  Each entry goes to one sink, the one set at the time; a sink that is replaced while it prints stays
  alive, since the logger holds a pointer of its own.
\<close>

lemma log_reach_sinks: "log_reach k l s \<Longrightarrow> length (l_sinks s) = length (l_printed s)"
proof (induction rule: log_reach.induct)
  case start
  show ?case by (simp add: new_log_def)
next
  case (in_call s t)
  from in_call(2) in_call(3) show ?case by (cases rule: log_call_step.cases) (auto simp: log_move_def log_post_def)
next
  case (in_logger s t)
  from in_logger(2) in_logger(3) show ?case by (cases rule: logger_step.cases) (auto simp: log_move_def)
next
  case (outside s t)
  from outside(2) outside(3) show ?case by (cases rule: log_outside.cases) (auto simp: log_move_def)
qed

section \<open>The counter\<close>

text \<open>The number of threads below \<open>k\<close> whose call satisfies a predicate.\<close>

definition count_calls :: "nat \<Rightarrow> (call_pc \<Rightarrow> bool) \<Rightarrow> (nat \<Rightarrow> call_pc) \<Rightarrow> nat" where
  "count_calls k P f = length (filter (\<lambda>t. P (f t)) [0..<k])"

lemma count_calls_Suc:
  "count_calls (Suc k) P f = count_calls k P f + (if P (f k) then 1 else 0)"
  by (simp add: count_calls_def)

lemma count_calls_other: "k \<le> t \<Longrightarrow> count_calls k P (f(t := p)) = count_calls k P f"
proof -
  assume "k \<le> t"
  then have "filter (\<lambda>u. P ((f(t := p)) u)) [0..<k] = filter (\<lambda>u. P (f u)) [0..<k]"
    by (intro filter_cong) auto
  then show ?thesis by (simp only: count_calls_def)
qed

lemma count_calls_upd:
  "t < k \<Longrightarrow>
   count_calls k P (f(t := p)) + (if P (f t) then 1 else 0) = count_calls k P f + (if P p then 1 else 0)"
proof (induction k)
  case (Suc k)
  then show ?case
    by (cases "t = k")
      (simp_all add: count_calls_Suc count_calls_other fun_upd_same fun_upd_other del: fun_upd_apply)
qed simp

lemma count_calls_le: "count_calls k P f \<le> k"
  using length_filter_le [of "\<lambda>t. P (f t)" "[0..<k]"] by (simp add: count_calls_def)

fun is_posting :: "call_pc \<Rightarrow> bool" where
  "is_posting (Posting e) = True"
| "is_posting _ = False"

text \<open>Calls that have seen a free place, or may have.\<close>

fun passed :: "nat \<Rightarrow> call_pc \<Rightarrow> bool" where
  "passed l (Counted e n) = (n < l)"
| "passed l (Adding e) = True"
| "passed l _ = False"

fun at_work :: "logger_pc \<Rightarrow> job list" where
  "at_work (L_resume j) = [j]"
| "at_work (L_printed j) = [j]"
| "at_work _ = []"

definition outstanding :: "log_sys \<Rightarrow> job list" where
  "outstanding s = filter (\<lambda>j. \<not> j_sync j) (at_work (l_logger s) @ l_queue s)"

definition counted :: "nat \<Rightarrow> nat \<Rightarrow> log_sys \<Rightarrow> bool" where
  "counted k l s \<longleftrightarrow>
     (\<forall>t. l_pc s t \<noteq> Outside \<longrightarrow> t < k) \<and> g_limit s \<le> l \<and>
     g_count s = count_calls k is_posting (l_pc s) + length (outstanding s) \<and>
     (0 < k \<longrightarrow> g_count s + count_calls k (passed l) (l_pc s) < l + k)"

lemma counted_queue: "log_call_step s t \<Longrightarrow> counted k l s \<Longrightarrow> counted k l t"
proof (induction rule: log_call_step.induct)
  case (load_count s t e)
  then have "t < k" by (auto simp: counted_def)
  with load_count show ?case
    using count_calls_upd [of t k is_posting "l_pc s" "Counted e (g_count s)"]
      count_calls_upd [of t k "passed l" "l_pc s" "Counted e (g_count s)"]
      count_calls_le [of k "passed l" "(l_pc s)(t := Counted e (g_count s))"]
    by (auto simp: counted_def log_move_def outstanding_def split: if_splits)
next
  case (load_limit s t e n)
  then have "t < k" by (auto simp: counted_def)
  with load_limit show ?case
    using count_calls_upd [of t k is_posting "l_pc s" "if n < g_limit s then Adding e else Posting_sync e"]
      count_calls_upd [of t k "passed l" "l_pc s" "if n < g_limit s then Adding e else Posting_sync e"]
    by (auto simp: counted_def log_move_def outstanding_def split: if_splits)
next
  case (add s t e)
  then have "t < k" by (auto simp: counted_def)
  with add show ?case
    using count_calls_upd [of t k is_posting "l_pc s" "Posting e"]
      count_calls_upd [of t k "passed l" "l_pc s" "Posting e"]
    by (auto simp: counted_def log_move_def outstanding_def split: if_splits)
next
  case (post s t e)
  then have "t < k" by (auto simp: counted_def)
  with post show ?case
    using count_calls_upd [of t k is_posting "l_pc s" Outside]
      count_calls_upd [of t k "passed l" "l_pc s" Outside]
    by (auto simp: counted_def log_move_def log_post_def outstanding_def split: if_splits)
next
  case (post_sync s t e)
  then have "t < k" by (auto simp: counted_def)
  with post_sync show ?case
    using count_calls_upd [of t k is_posting "l_pc s" "Checking e"]
      count_calls_upd [of t k "passed l" "l_pc s" "Checking e"]
    by (auto simp: counted_def log_move_def log_post_def outstanding_def split: if_splits)
next
  case (check s t e)
  then have "t < k" by (auto simp: counted_def)
  with check show ?case
    using count_calls_upd [of t k is_posting "l_pc s" "if l_completed s t then Outside else Drowsy e"]
      count_calls_upd [of t k "passed l" "l_pc s" "if l_completed s t then Outside else Drowsy e"]
    by (auto simp: counted_def log_move_def outstanding_def split: if_splits)
next
  case (fall_asleep s t e)
  then have "t < k" by (auto simp: counted_def)
  with fall_asleep show ?case
    using count_calls_upd [of t k is_posting "l_pc s" "Asleep e"]
      count_calls_upd [of t k "passed l" "l_pc s" "Asleep e"]
    by (auto simp: counted_def log_move_def outstanding_def split: if_splits)
qed

lemma counted_logger: "logger_step s t \<Longrightarrow> counted k l s \<Longrightarrow> counted k l t"
proof (induction rule: logger_step.induct)
  case (notify_waiter s t n)
  then obtain e where e: "waiting (l_pc s t) = Some e" by blast
  then have "t < k" and kind: "\<not> is_posting (l_pc s t)" "\<not> is_posting (woken (l_pc s t))"
    "\<not> passed l (l_pc s t)" "\<not> passed l (woken (l_pc s t))"
    using notify_waiter(4) by (cases "l_pc s t"; force simp: counted_def)+
  with notify_waiter show ?case
    using count_calls_upd [of t k is_posting "l_pc s" "woken (l_pc s t)"]
      count_calls_upd [of t k "passed l" "l_pc s" "woken (l_pc s t)"]
    by (auto simp: counted_def log_move_def outstanding_def split: if_splits)
qed (auto simp: counted_def outstanding_def)

lemma counted_outside: "log_outside k l s t \<Longrightarrow> counted k l s \<Longrightarrow> counted k l t"
proof (induction rule: log_outside.induct)
  case (call t s e)
  then show ?case
    using count_calls_upd [of t k is_posting "l_pc s" "Called e"]
      count_calls_upd [of t k "passed l" "l_pc s" "Called e"]
    by (auto simp: counted_def log_move_def outstanding_def split: if_splits)
next
  case (spurious s t e)
  then have "t < k" by (auto simp: counted_def)
  with spurious show ?case
    using count_calls_upd [of t k is_posting "l_pc s" "Checking e"]
      count_calls_upd [of t k "passed l" "l_pc s" "Checking e"]
    by (auto simp: counted_def log_move_def outstanding_def split: if_splits)
qed (auto simp: counted_def outstanding_def)

lemma log_reach_counted: "log_reach k l s \<Longrightarrow> counted k l s"
proof (induction rule: log_reach.induct)
  case start
  have "count_calls k P (\<lambda>_. Outside) = 0" if "\<not> P Outside" for P
    using that by (simp add: count_calls_def)
  then show ?case by (simp add: counted_def new_log_def outstanding_def)
qed (blast dest: counted_queue counted_logger counted_outside)+

section \<open>Calls that wait\<close>

text \<open>The jobs that somebody waits for.\<close>

definition awaited :: "log_sys \<Rightarrow> job list" where
  "awaited s = filter j_sync (at_work (l_logger s) @ l_queue s)"

definition waits_ok :: "log_sys \<Rightarrow> bool" where
  "waits_ok s \<longleftrightarrow>
     distinct (map j_thread (awaited s)) \<and>
     (\<forall>j \<in> set (awaited s).
        j_call j = l_call s (j_thread j) \<and> waiting (l_pc s (j_thread j)) = Some (j_entry j) \<and>
        \<not> l_completed s (j_thread j)) \<and>
     (\<forall>j. l_logger s = L_printed j \<longrightarrow> j \<in> set (l_printed s)) \<and>
     (\<forall>t e. waiting (l_pc s t) = Some e \<and> l_completed s t \<longrightarrow>
        \<lparr>j_entry = e, j_thread = t, j_call = l_call s t, j_sync = True\<rparr> \<in> set (l_printed s))"

lemma waits_okD:
  assumes "waits_ok s"
  shows "j \<in> set (awaited s) \<Longrightarrow> j_call j = l_call s (j_thread j)"
    and "j \<in> set (awaited s) \<Longrightarrow> waiting (l_pc s (j_thread j)) = Some (j_entry j)"
    and "j \<in> set (awaited s) \<Longrightarrow> \<not> l_completed s (j_thread j)"
    and "l_logger s = L_printed j \<Longrightarrow> j \<in> set (l_printed s)"
    and "waiting (l_pc s t) = Some e \<Longrightarrow> l_completed s t \<Longrightarrow>
      \<lparr>j_entry = e, j_thread = t, j_call = l_call s t, j_sync = True\<rparr> \<in> set (l_printed s)"
  using assms by (auto simp: waits_ok_def)

lemma not_awaited:
  "waits_ok s \<Longrightarrow> waiting (l_pc s t) = None \<or> l_completed s t \<Longrightarrow> j \<in> set (awaited s) \<Longrightarrow> j_thread j \<noteq> t"
  using waits_okD(2,3) [of s j] by auto

lemma awaited_move [simp]: "awaited (log_move s t p) = awaited s"
  by (simp add: awaited_def log_move_def)

lemma move_fields [simp]:
  "l_logger (log_move s t p) = l_logger s" "l_printed (log_move s t p) = l_printed s"
  "l_completed (log_move s t p) = l_completed s" "l_call (log_move s t p) = l_call s"
  "l_pc (log_move s t p) = (l_pc s)(t := p)"
  by (simp_all add: log_move_def)

lemma waits_ok_move:
  assumes "waits_ok s"
    and "waiting p = waiting (l_pc s t) \<or> waiting p = None \<and> (\<forall>j \<in> set (awaited s). j_thread j \<noteq> t)"
  shows "waits_ok (log_move s t p)"
  unfolding waits_ok_def
proof (intro conjI ballI allI impI)
  show "distinct (map j_thread (awaited (log_move s t p)))"
    using assms(1) by (simp add: waits_ok_def)
next
  fix j assume j: "j \<in> set (awaited (log_move s t p))"
  show "j_call j = l_call (log_move s t p) (j_thread j)"
    "\<not> l_completed (log_move s t p) (j_thread j)"
    using j waits_okD(1,3) [OF assms(1), of j] by simp_all
  show "waiting (l_pc (log_move s t p) (j_thread j)) = Some (j_entry j)"
    using j waits_okD(2) [OF assms(1), of j] assms(2) by auto
next
  fix j assume "l_logger (log_move s t p) = L_printed j"
  then show "j \<in> set (l_printed (log_move s t p))" using waits_okD(4) [OF assms(1)] by simp
next
  fix u e
  assume "waiting (l_pc (log_move s t p) u) = Some e \<and> l_completed (log_move s t p) u"
  then have "waiting (l_pc s u) = Some e" "l_completed s u"
    using assms(2) by (auto split: if_splits)
  then show "\<lparr>j_entry = e, j_thread = u, j_call = l_call (log_move s t p) u, j_sync = True\<rparr>
      \<in> set (l_printed (log_move s t p))"
    using waits_okD(5) [OF assms(1)] by simp
qed

lemma waits_ok_cong:
  "waits_ok s \<Longrightarrow> awaited t = awaited s \<Longrightarrow> l_pc t = l_pc s \<Longrightarrow> l_completed t = l_completed s \<Longrightarrow>
   l_call t = l_call s \<Longrightarrow> l_printed t = l_printed s \<Longrightarrow>
   (\<And>j. l_logger t = L_printed j \<Longrightarrow> l_logger s = L_printed j) \<Longrightarrow> waits_ok t"
  by (simp add: waits_ok_def)

lemma waits_ok_queue: "log_call_step s t \<Longrightarrow> waits_ok s \<Longrightarrow> waits_ok t"
proof (induction rule: log_call_step.induct)
  case (add s t e)
  have "waits_ok (s\<lparr>g_count := g_count s + 1\<rparr>)"
    by (rule waits_ok_cong [OF add(2)]) (simp_all add: awaited_def)
  then show ?case by (rule waits_ok_move) (simp add: add(1))
next
  case (post s t e)
  have "waits_ok (log_post \<lparr>j_entry = e, j_thread = t, j_call = l_call s t, j_sync = False\<rparr> s)"
    by (rule waits_ok_cong [OF post(2)]) (simp_all add: awaited_def log_post_def)
  then show ?case by (rule waits_ok_move) (simp add: post(1) log_post_def)
next
  case (post_sync s t e)
  have new: "j_thread j \<noteq> t" if "j \<in> set (awaited s)" for j
    using not_awaited [OF post_sync(2) _ that] post_sync(1) by simp
  have "awaited (log_post \<lparr>j_entry = e, j_thread = t, j_call = l_call s t, j_sync = True\<rparr>
      (s\<lparr>l_completed := (l_completed s)(t := False)\<rparr>)) =
    awaited s @ [\<lparr>j_entry = e, j_thread = t, j_call = l_call s t, j_sync = True\<rparr>]"
    by (simp add: awaited_def log_post_def)
  with post_sync new waits_okD [OF post_sync(2)] show ?case
    by (auto simp: waits_ok_def log_post_def)
next
  case (check s t e)
  have "\<forall>j \<in> set (awaited s). j_thread j \<noteq> t" if "l_completed s t"
    using not_awaited [OF check(2)] that by blast
  with check show ?case by (intro waits_ok_move) auto
qed (rule waits_ok_move, assumption, simp)+

lemma waits_ok_logger: "logger_step s t \<Longrightarrow> waits_ok s \<Longrightarrow> waits_ok t"
proof (induction rule: logger_step.induct)
  case (take_job s j js)
  show ?case by (rule waits_ok_cong [OF take_job(3)]) (use take_job in \<open>simp_all add: awaited_def\<close>)
next
  case (leave_run s)
  show ?case by (rule waits_ok_cong [OF leave_run(4)]) (use leave_run in \<open>simp_all add: awaited_def\<close>)
next
  case (print_entry s j)
  have "awaited (s\<lparr>l_logger := L_printed j, l_printed := l_printed s @ [j], l_sinks := l_sinks s @ [g_sink s]\<rparr>) =
      awaited s"
    by (simp add: awaited_def print_entry(1))
  with print_entry show ?case by (auto simp: waits_ok_def)
next
  case (subtract s j)
  show ?case by (rule waits_ok_cong [OF subtract(3)]) (use subtract in \<open>simp_all add: awaited_def\<close>)
next
  case (complete s j)
  have a: "awaited s = j # filter j_sync (l_queue s)"
    by (simp add: awaited_def complete(1,2))
  then have "j_thread j \<notin> j_thread ` set (filter j_sync (l_queue s))"
    using complete(3) by (simp add: waits_ok_def)
  then have new: "j_thread i \<noteq> j_thread j" if "i \<in> set (l_queue s)" "j_sync i" for i
    using that by (auto simp: image_iff)
  have "j = \<lparr>j_entry = j_entry j, j_thread = j_thread j, j_call = l_call s (j_thread j), j_sync = True\<rparr>"
    using waits_okD(1) [OF complete(3), of j] complete(2) a by simp
  with waits_okD(4) [OF complete(3,1)]
  have "\<lparr>j_entry = j_entry j, j_thread = j_thread j, j_call = l_call s (j_thread j), j_sync = True\<rparr>
      \<in> set (l_printed s)" by simp
  moreover have "waiting (l_pc s (j_thread j)) = Some (j_entry j)"
    using waits_okD(2) [OF complete(3), of j] a by simp
  moreover have "awaited (s\<lparr>l_logger := L_notify (j_thread j) (j_call j),
      l_completed := (l_completed s)(j_thread j := True)\<rparr>) = filter j_sync (l_queue s)"
    by (simp add: awaited_def)
  ultimately show ?case
    using complete a new by (auto simp: waits_ok_def)
next
  case (notify_waiter s t n)
  have "waits_ok (s\<lparr>l_logger := L_wait\<rparr>)"
    by (rule waits_ok_cong [OF notify_waiter(4)]) (simp_all add: awaited_def notify_waiter(1))
  moreover have "waiting (woken (l_pc s t)) = waiting (l_pc s t)" by (cases "l_pc s t") simp_all
  ultimately show ?case by (intro waits_ok_move) simp_all
next
  case (notify_gone s t n)
  show ?case by (rule waits_ok_cong [OF notify_gone(3)]) (simp_all add: awaited_def notify_gone(1))
qed

lemma waits_ok_outside: "log_outside k l s t \<Longrightarrow> waits_ok s \<Longrightarrow> waits_ok t"
proof (induction rule: log_outside.induct)
  case (call t s e)
  have new: "j_thread j \<noteq> t" if "j \<in> set (awaited s)" for j
    using not_awaited [OF call(3) _ that] call(2) by simp
  have "waits_ok (s\<lparr>l_call := (l_call s)(t := l_call s t + 1)\<rparr>)"
    using call(2,3) new by (auto simp: waits_ok_def awaited_def)
  then show ?case by (rule waits_ok_move) (simp add: call(2))
next
  case (limit n s)
  show ?case by (rule waits_ok_cong [OF limit(2)]) (simp_all add: awaited_def)
next
  case (set_sink s a)
  show ?case by (rule waits_ok_cong [OF set_sink]) (simp_all add: awaited_def)
next
  case (stop s)
  show ?case by (rule waits_ok_cong [OF stop]) (simp_all add: awaited_def)
next
  case (spurious s t e)
  show ?case by (rule waits_ok_move [OF spurious(2)]) (simp add: spurious(1))
qed

lemma log_reach_waits: "log_reach k l s \<Longrightarrow> waits_ok s"
proof (induction rule: log_reach.induct)
  case start
  show ?case by (simp add: waits_ok_def new_log_def awaited_def)
qed (blast dest: waits_ok_queue waits_ok_logger waits_ok_outside)+

section \<open>Properties\<close>

text \<open>
  C27: The logger prints the entries in the order in which they were posted, none twice and none
  dropped; and a call that found the queue full leaves its wait only after its own entry was printed:
  a waiting call whose flag is set, which is what lets it return, has its entry among the printed
  ones.
\<close>

theorem log_prints_in_order:
  assumes "log_reach k l s"
  shows "l_posted s = l_printed s @ at_hand (l_logger s) @ l_queue s \<and>
         (\<forall>t e. waiting (l_pc s t) = Some e \<and> l_completed s t \<longrightarrow>
            \<lparr>j_entry = e, j_thread = t, j_call = l_call s t, j_sync = True\<rparr> \<in> set (l_printed s))"
  using log_reach_in_order [OF assms] waits_okD(5) [OF log_reach_waits [OF assms]]
  by (simp add: in_order_def)

text \<open>A thread logs with a limit of 0: its entry is printed, then it may return.\<close>

lemma sync_run:
  "\<exists>s. log_reach 2 0 s \<and> l_printed s = [\<lparr>j_entry = 7, j_thread = 0, j_call = 1, j_sync = True\<rparr>] \<and>
       l_pc s = (\<lambda>_. Outside)(0 := Drowsy 7) \<and> l_completed s 0 \<and> l_logger s = L_notify 0 1 \<and>
       l_call s 0 = 1 \<and> l_queue s = [] \<and> \<not> l_stopped s"
proof -
  note q = log_reach.in_call and g = log_reach.in_logger and o = log_reach.outside
  note simps = log_move_def log_post_def new_log_def
  note s1 = o [OF log_reach.start log_outside.call [of 0 2 "new_log 0" 0 7], simplified simps, simplified]
  note s2 = q [OF s1 log_call_step.load_count [of _ 0 7], simplified simps, simplified]
  note s3 = q [OF s2 log_call_step.load_limit [of _ 0 7 0], simplified simps, simplified]
  note s4 = q [OF s3 log_call_step.post_sync [of _ 0 7], simplified simps, simplified]
  note s5 = q [OF s4 log_call_step.check [of _ 0 7], simplified simps, simplified]
  let ?j = "\<lparr>j_entry = 7, j_thread = 0, j_call = 1, j_sync = True\<rparr>"
  note s6 = g [OF s5 logger_step.take_job [of _ ?j "[]"], simplified]
  note s7 = g [OF s6 logger_step.print_entry [of _ ?j], simplified]
  note s8 = g [OF s7 logger_step.complete [of _ ?j], simplified]
  show ?thesis by (intro exI conjI, rule s8) (simp_all add: fun_upd_def)
qed

theorem log_prints_in_order_witness:
  "\<exists>s. log_reach 2 0 s \<and> waiting (l_pc s 0) = Some 7 \<and> l_completed s 0 \<and>
       \<lparr>j_entry = 7, j_thread = 0, j_call = 1, j_sync = True\<rparr> \<in> set (l_printed s)"
proof -
  obtain s where s: "log_reach 2 0 s" "l_pc s = (\<lambda>_. Outside)(0 := Drowsy 7)" "l_completed s 0"
    "l_call s 0 = 1" using sync_run by blast
  then have "waiting (l_pc s 0) = Some 7" by simp
  with log_prints_in_order [OF s(1)] s show ?thesis by metis
qed

text \<open>
  C28: The counter is exact, and the limit is a bound up to the number of threads: with \<open>k\<close> threads and
  limits of at most \<open>l\<close>, the entries that are queued, being printed, or on their way to the queue
  without a caller waiting for them are fewer than \<open>l + k\<close>.
\<close>

theorem log_queue_bounded:
  assumes "log_reach k l s" and "0 < k"
  shows "count_calls k is_posting (l_pc s) + length (outstanding s) = g_count s \<and> g_count s < l + k"
  using log_reach_counted [OF assms(1)] assms(2) by (auto simp: counted_def)

text \<open>
  The bound is reached: two threads pass the test of a limit of 1 before either of them counts.
\<close>

theorem log_queue_bounded_witness:
  "\<exists>s. log_reach 2 1 s \<and> g_count s = 2 \<and> g_count s < 1 + 2"
proof -
  note q = log_reach.in_call and o = log_reach.outside
  note simps = log_move_def log_post_def new_log_def
  note s1 = o [OF log_reach.start log_outside.call [of 0 2 "new_log 1" 1 7], simplified simps, simplified]
  note s2 = o [OF s1 log_outside.call [of 1 2 _ "Suc 0" 8], simplified simps, simplified]
  note s3 = q [OF s2 log_call_step.load_count [of _ 0 7], simplified simps, simplified]
  note s4 = q [OF s3 log_call_step.load_count [of _ 1 8], simplified simps, simplified]
  note s5 = q [OF s4 log_call_step.load_limit [of _ 0 7 0], simplified simps, simplified]
  note s6 = q [OF s5 log_call_step.load_limit [of _ 1 8 0], simplified simps, simplified]
  note s7 = q [OF s6 log_call_step.add [of _ 0 7], simplified simps, simplified]
  note s8 = q [OF s7 log_call_step.add [of _ 1 8], simplified simps, simplified]
  have "\<exists>s. log_reach 2 (Suc 0) s \<and> g_count s = 2" by (intro exI conjI, rule s8) simp_all
  then obtain s where s: "log_reach 2 1 s" "g_count s = 2" by auto
  with log_queue_bounded [OF s(1)] show ?thesis by auto
qed

text \<open>
  C29: The hand-over to a call that waits is not safe. \<open>completed\<close> is stored and \<open>cv\<close> notified without
  the mutex, so the notification can fall between the caller's test of the flag and its falling
  asleep: its entry is printed, but nothing of the program can move and the call never returns. Or the
  caller sees the flag first, returns and destroys \<open>cv\<close>, which is notified afterwards.
\<close>

theorem log_wait_unsafe:
  "(\<exists>s. log_reach 2 0 s \<and> l_pc s 0 = Asleep 7 \<and> l_completed s 0 \<and>
        (\<forall>t. \<not> log_call_step s t \<and> \<not> logger_step s t)) \<and>
   (\<exists>s. log_reach 2 0 s \<and> l_dangling s)"
proof
  note q = log_reach.in_call and g = log_reach.in_logger and o = log_reach.outside
  obtain s where s: "log_reach 2 0 s" "l_pc s = (\<lambda>_. Outside)(0 := Drowsy 7)" "l_completed s 0"
    "l_call s 0 = 1" "l_logger s = L_notify 0 1" "l_queue s = []" "\<not> l_stopped s"
    using sync_run by blast
  let ?u = "log_move (s\<lparr>l_logger := L_wait\<rparr>) 0 (woken (l_pc s 0))"
  let ?t = "log_move ?u 0 (Asleep 7)"
  have "log_reach 2 0 ?u"
    by (rule g [OF s(1)], rule logger_step.notify_waiter [of s 0 1]) (simp_all add: s)
  then have "log_reach 2 0 ?t"
    by (rule q, intro log_call_step.fall_asleep) (simp add: s log_move_def)
  moreover have "l_pc ?t = (\<lambda>_. Outside)(0 := Asleep 7)" "l_logger ?t = L_wait" "l_queue ?t = []"
    "\<not> l_stopped ?t" "l_completed ?t 0"
    using s by (simp_all add: log_move_def)
  ultimately show "\<exists>s. log_reach 2 0 s \<and> l_pc s 0 = Asleep 7 \<and> l_completed s 0 \<and>
        (\<forall>t. \<not> log_call_step s t \<and> \<not> logger_step s t)"
    by (intro exI [of _ ?t]) (auto elim!: log_call_step.cases logger_step.cases split: if_splits)
next
  note q = log_reach.in_call and g = log_reach.in_logger and o = log_reach.outside
  obtain s where s: "log_reach 2 0 s" "l_pc s = (\<lambda>_. Outside)(0 := Drowsy 7)" "l_completed s 0"
    "l_call s 0 = 1" "l_logger s = L_notify 0 1"
    using sync_run by blast
  let ?t = "log_move (log_move (log_move s 0 (Asleep 7)) 0 (Checking 7)) 0 Outside"
  have "log_reach 2 0 (log_move s 0 (Asleep 7))"
    by (rule q [OF s(1)], rule log_call_step.fall_asleep) (simp add: s)
  then have "log_reach 2 0 (log_move (log_move s 0 (Asleep 7)) 0 (Checking 7))"
    by (rule o, intro log_outside.spurious) simp
  then have t: "log_reach 2 0 ?t"
    by (rule q) (use log_call_step.check [of "log_move (log_move s 0 (Asleep 7)) 0 (Checking 7)" 0 7] s in simp)
  have "log_reach 2 0 (?t\<lparr>l_logger := L_wait, l_dangling := True\<rparr>)"
    by (rule g [OF t], rule logger_step.notify_gone [of _ 0 1]) (simp_all add: s)
  then show "\<exists>s. log_reach 2 0 s \<and> l_dangling s" by force
qed

end
