(* ===== verification/Utility.thy ===== *)
theory Utility
  imports System_Calls "HOL-Library.Multiset"
begin

text \<open>
  The utilities of \<open>ice/utility.hpp\<close> and \<open>ice/utility.cpp\<close>: handlers that run at the end of a scope,
  thread-local storage with the locks that set it, the affinity of a thread, and the string encryption
  of \<open>xorstr\<close>.
\<close>

unbundle bit_operations_syntax

section \<open>scope_exit\<close>

text \<open>
  The objects of a program by address, and the handlers that were called. \<open>None\<close> as a result: the
  operation has no object to work on.
\<close>

record 'h scope_exit =
  handler :: 'h
  invoke :: bool

record 'h scopes =
  guard :: "addr \<Rightarrow> 'h scope_exit option"
  invoked :: "'h list"

definition on_scope_exit :: "addr \<Rightarrow> 'h \<Rightarrow> 'h scopes \<Rightarrow> 'h scopes option" where
  "on_scope_exit a h s =
     (if guard s a \<noteq> None then None
      else Some (s\<lparr>guard := (guard s)(a \<mapsto> \<lparr>handler = h, invoke = True\<rparr>)\<rparr>))"

text \<open>The move constructor: the handler of the other object stays what it is, but is not invoked.\<close>

definition scope_exit_move :: "addr \<Rightarrow> addr \<Rightarrow> 'h scopes \<Rightarrow> 'h scopes option" where
  "scope_exit_move a b s =
     (case guard s b of
        None \<Rightarrow> None
      | Some g \<Rightarrow>
          if guard s a \<noteq> None then None
          else Some (s\<lparr>guard := (guard s)(a \<mapsto> g, b \<mapsto> g\<lparr>invoke := False\<rparr>)\<rparr>))"

definition scope_exit_destroy :: "addr \<Rightarrow> 'h scopes \<Rightarrow> 'h scopes option" where
  "scope_exit_destroy a s =
     (case guard s a of
        None \<Rightarrow> None
      | Some g \<Rightarrow>
          Some (s\<lparr>guard := (guard s)(a := None),
                  invoked := invoked s @ (if invoke g then [handler g] else [])\<rparr>))"

datatype 'h scope_op = Enter addr 'h | Move addr addr | Leave addr

fun run_scope_op :: "'h scope_op \<Rightarrow> 'h scopes \<Rightarrow> 'h scopes option" where
  "run_scope_op (Enter a h) s = on_scope_exit a h s"
| "run_scope_op (Move a b) s = scope_exit_move a b s"
| "run_scope_op (Leave a) s = scope_exit_destroy a s"

fun scope_ops :: "'h scope_op list \<Rightarrow> 'h scopes \<Rightarrow> 'h scopes option" where
  "scope_ops [] s = Some s"
| "scope_ops (x # xs) s = (case run_scope_op x s of None \<Rightarrow> None | Some t \<Rightarrow> scope_ops xs t)"

definition no_scopes :: "'h scopes" where
  "no_scopes = \<lparr>guard = (\<lambda>_. None), invoked = []\<rparr>"

fun entered :: "'h scope_op list \<Rightarrow> 'h multiset" where
  "entered [] = {#}"
| "entered (Enter a h # xs) = add_mset h (entered xs)"
| "entered (_ # xs) = entered xs"

text \<open>The handlers that will still be called.\<close>

definition armed :: "'h scopes \<Rightarrow> addr \<Rightarrow> bool" where
  "armed s a \<longleftrightarrow> (\<exists>g. guard s a = Some g \<and> invoke g)"

definition due :: "'h scopes \<Rightarrow> 'h multiset" where
  "due s = image_mset (\<lambda>a. handler (the (guard s a))) (mset_set {a. armed s a})"

definition scopes_ok :: "'h scopes \<Rightarrow> 'h multiset \<Rightarrow> bool" where
  "scopes_ok s hs \<longleftrightarrow> finite {a. armed s a} \<and> mset (invoked s) + due s = hs"

lemma armed_upd:
  "guard t = (guard s)(a := x) \<Longrightarrow>
   {b. armed t b} =
     (if \<exists>g. x = Some g \<and> invoke g then insert a {b. armed s b} else {b. armed s b} - {a})"
  by (auto simp: armed_def)

lemma due_arm:
  assumes "guard t = (guard s)(a \<mapsto> g)" and "invoke g" and "\<not> armed s a" and "finite {b. armed s b}"
  shows "due t = add_mset (handler g) (due s)"
proof -
  have "image_mset (\<lambda>b. handler (the (guard t b))) (mset_set {b. armed s b}) = due s"
    unfolding due_def using assms by (intro image_mset_cong) auto
  with assms show ?thesis
    by (simp add: due_def armed_upd [OF assms(1)])
qed

lemma due_disarm:
  assumes "guard t = (guard s)(a := x)" and "\<not> (\<exists>g. x = Some g \<and> invoke g)" and "finite {b. armed s b}"
  shows "due s = due t + (if armed s a then {#handler (the (guard s a))#} else {#})"
proof -
  have t: "{b. armed t b} = {b. armed s b} - {a}"
    using armed_upd [OF assms(1)] assms(2) by simp
  have "due t = image_mset (\<lambda>b. handler (the (guard s b))) (mset_set ({b. armed s b} - {a}))"
    unfolding due_def t using assms(1,3) by (intro image_mset_cong) auto
  then show ?thesis
    using assms(3) by (auto simp: due_def mset_set.remove [of _ a])
qed

lemma scopes_ok_op:
  assumes "run_scope_op x s = Some t" and "scopes_ok s hs"
  shows "scopes_ok t (hs + entered [x])"
proof (cases x)
  case (Enter a h)
  with assms have t: "t = s\<lparr>guard := (guard s)(a \<mapsto> \<lparr>handler = h, invoke = True\<rparr>)\<rparr>"
    and "\<not> armed s a" "finite {b. armed s b}"
    by (auto simp: on_scope_exit_def armed_def scopes_ok_def split: if_splits)
  then have up: "guard t = (guard s)(a \<mapsto> \<lparr>handler = h, invoke = True\<rparr>)" by simp
  have "finite {b. armed t b}"
    unfolding armed_upd [OF up] using \<open>finite {b. armed s b}\<close> by simp
  with Enter assms(2) due_arm [OF up _ \<open>\<not> armed s a\<close>] show ?thesis
    by (simp add: scopes_ok_def t)
next
  case (Leave a)
  with assms obtain g where g: "guard s a = Some g"
    and t: "t = s\<lparr>guard := (guard s)(a := None),
                  invoked := invoked s @ (if invoke g then [handler g] else [])\<rparr>"
    by (auto simp: scope_exit_destroy_def split: option.splits)
  have up: "guard t = (guard s)(a := None)" by (simp add: t)
  have "finite {b. armed t b}"
    unfolding armed_upd [OF up] using assms(2) by (simp add: scopes_ok_def)
  moreover have "armed s a \<longleftrightarrow> invoke g" by (simp add: armed_def g)
  moreover have "invoked t = invoked s @ (if invoke g then [handler g] else [])" by (simp add: t)
  ultimately show ?thesis
    using Leave assms(2) g due_disarm [OF up] by (cases "invoke g") (auto simp: scopes_ok_def)
next
  case (Move a b)
  with assms obtain g where g: "guard s b = Some g" "guard s a = None"
    and t: "t = s\<lparr>guard := (guard s)(a \<mapsto> g, b \<mapsto> g\<lparr>invoke := False\<rparr>)\<rparr>"
    by (auto simp: scope_exit_move_def split: option.splits if_splits)
  let ?u = "s\<lparr>guard := (guard s)(b \<mapsto> g\<lparr>invoke := False\<rparr>)\<rparr>"
  have "a \<noteq> b" using g by auto
  then have tu: "guard t = (guard ?u)(a \<mapsto> g)" by (simp add: t fun_upd_twist)
  have na: "\<not> armed ?u a" "\<not> armed s a" using g \<open>a \<noteq> b\<close> by (simp_all add: armed_def)
  have fin: "finite {c. armed s c}" using assms(2) by (simp add: scopes_ok_def)
  have uu: "guard ?u = (guard s)(b \<mapsto> g\<lparr>invoke := False\<rparr>)" by simp
  have finu: "finite {c. armed ?u c}" using fin unfolding armed_upd [OF uu] by simp
  have armed: "armed s b \<longleftrightarrow> invoke g" by (simp add: armed_def g)
  have "due s = due ?u + (if invoke g then {#handler g#} else {#})"
    using due_disarm [OF uu _ fin] g armed by simp
  moreover have "due t = due ?u + (if invoke g then {#handler g#} else {#})"
    using due_arm [OF tu _ na(1) finu] due_disarm [OF tu _ finu] na(1) by simp
  moreover have "finite {c. armed t c}"
    unfolding armed_upd [OF tu] using finu by simp
  ultimately show ?thesis
    using Move assms(2) by (simp add: scopes_ok_def t)
qed

lemma scopes_ok_ops:
  "scope_ops xs s = Some t \<Longrightarrow> scopes_ok s hs \<Longrightarrow> scopes_ok t (hs + entered xs)"
proof (induction xs arbitrary: s hs)
  case (Cons x xs)
  then obtain u where u: "run_scope_op x s = Some u" "scope_ops xs u = Some t"
    by (auto split: option.splits)
  have "entered (x # xs) = entered [x] + entered xs" by (cases x) simp_all
  with Cons.IH [OF u(2) scopes_ok_op [OF u(1) Cons.prems(2)]] show ?case
    by (simp add: ac_simps)
qed simp

text \<open>
  C38: Whatever sequence of creations, moves and destructions a program runs, when no object is left
  every handler was called exactly once for each time it was handed to \<open>on_scope_exit\<close>.
\<close>

theorem scope_exit_runs_once:
  assumes "scope_ops xs no_scopes = Some t" and "guard t = (\<lambda>_. None)"
  shows "mset (invoked t) = entered xs"
proof -
  have "scopes_ok no_scopes {#}" by (simp add: scopes_ok_def no_scopes_def armed_def due_def)
  from scopes_ok_ops [OF assms(1) this] have "mset (invoked t) + due t = entered xs"
    by (simp add: scopes_ok_def)
  moreover have "due t = {#}" using assms(2) by (simp add: due_def armed_def)
  ultimately show ?thesis by simp
qed

theorem scope_exit_runs_once_witness:
  "\<exists>t. scope_ops [Enter 1 CHR ''a'', Move 2 1, Leave 1, Enter 3 CHR ''b'', Leave 3, Leave 2] no_scopes = Some t \<and>
       mset (invoked t) = {#CHR ''a'', CHR ''b''#}"
proof -
  let ?xs = "[Enter 1 CHR ''a'', Move 2 1, Leave 1, Enter 3 CHR ''b'', Leave 3, Leave 2]"
  have r: "scope_ops ?xs no_scopes = Some \<lparr>guard = (\<lambda>_. None), invoked = ''ba''\<rparr>"
    by (simp add: on_scope_exit_def scope_exit_move_def scope_exit_destroy_def no_scopes_def fun_eq_iff)
  from scope_exit_runs_once [OF r] r show ?thesis by simp
qed

section \<open>thread_local_storage\<close>

text \<open>
  The value of a key in each thread, as \<open>pthread_setspecific\<close> keeps it (null is 0). A lock holds a
  view of the key; its destructor sets the value to null, not to what it was, and its move
  constructor, a default one, leaves the other lock with the same key.
\<close>

type_synonym tls = "nat \<Rightarrow> nat \<Rightarrow> addr"

definition tls_lock :: "nat \<Rightarrow> addr \<Rightarrow> nat \<Rightarrow> tls \<Rightarrow> nat \<times> tls" where
  "tls_lock key v thread s = (key, s(key := (s key)(thread := v)))"

definition tls_lock_move :: "nat \<Rightarrow> nat \<times> nat" where
  "tls_lock_move lock = (lock, lock)"

definition tls_lock_destroy :: "nat \<Rightarrow> nat \<Rightarrow> tls \<Rightarrow> tls" where
  "tls_lock_destroy lock thread s = s(lock := (s lock)(thread := 0))"

definition tls_get :: "nat \<Rightarrow> nat \<Rightarrow> tls \<Rightarrow> addr" where
  "tls_get key thread s = s key thread"

text \<open>
  The constructor: the variable that receives the key is a 32-bit number and keeps its invalid value
  when no key is created; the handle is 64 bits wide and has another invalid value.
\<close>

definition new_tls :: "int sys \<Rightarrow> int" where
  "new_tls create = (case create of Success key \<Rightarrow> key | Failure e \<Rightarrow> 4294967295)"

definition tls_valid :: "int \<Rightarrow> bool" where
  "tls_valid handle \<longleftrightarrow> handle \<noteq> size_max"

lemma tls_invalid_looks_valid: "tls_valid (new_tls (Failure e))"
  by (simp add: tls_valid_def new_tls_def size_max_def)

text \<open>
  The close functor of the handle, called when it is valid, with the keys deleted. On Windows the handle's
  invalid value is 0, which is an index that \<open>TlsAlloc\<close> may return, while its failure is another number.
\<close>

definition tls_close :: "bool \<Rightarrow> int \<Rightarrow> int list \<Rightarrow> int list" where
  "tls_close valid key deleted = (if valid then deleted @ [key] else deleted)"

definition win_new_tls :: "int option \<Rightarrow> int" where
  "win_new_tls alloc = (case alloc of Some index \<Rightarrow> index | None \<Rightarrow> 4294967295)"

definition win_tls_valid :: "int \<Rightarrow> bool" where
  "win_tls_valid handle \<longleftrightarrow> handle \<noteq> 0"

lemma win_tls_confused:
  "win_tls_valid (win_new_tls None)"
  "tls_close (win_tls_valid (win_new_tls (Some 0))) (win_new_tls (Some 0)) [] = []"
  by (simp_all add: win_tls_valid_def win_new_tls_def tls_close_def)

text \<open>
  While a lock lives its thread reads the value it set, other threads and other keys are not
  touched; but locks do not nest: when an inner lock of the same key goes, or one that was moved from,
  the value of the outer lock is gone too.
\<close>

lemma tls_lock_scope:
  "tls_get key thread (snd (tls_lock key v thread s)) = v"
  "(key', thread') \<noteq> (key, thread) \<Longrightarrow>
     tls_get key' thread' (tls_lock_destroy key thread (snd (tls_lock key v thread s))) = tls_get key' thread' s"
  by (auto simp: tls_get_def tls_lock_def tls_lock_destroy_def)

lemma tls_locks_do_not_nest:
  "fst (tls_lock key w thread (snd (tls_lock key v thread s))) = inner \<Longrightarrow>
   tls_get key thread (tls_lock_destroy inner thread (snd (tls_lock key w thread (snd (tls_lock key v thread s))))) = 0"
  by (auto simp: tls_get_def tls_lock_def tls_lock_destroy_def)

lemma tls_moved_lock_clears:
  "tls_lock key v thread s = (l, t) \<Longrightarrow> tls_lock_move l = (new, old) \<Longrightarrow>
   tls_get key thread (tls_lock_destroy old thread t) = 0"
  by (auto simp: tls_get_def tls_lock_def tls_lock_move_def tls_lock_destroy_def)

section \<open>set_thread_affinity\<close>

text \<open>
  The set of processors with one member, and what \<open>pthread_setaffinity_np\<close> makes of it. The index is
  narrowed to \<open>int\<close>; \<open>CPU_SET\<close> ignores numbers outside the set's capacity.
\<close>

definition cpu_set :: "int \<Rightarrow> int \<Rightarrow> int set" where
  "cpu_set capacity cpu = (if 0 \<le> cpu \<and> cpu < capacity then {cpu} else {})"

definition set_thread_affinity :: "int \<Rightarrow> (int set \<Rightarrow> int) \<Rightarrow> int \<Rightarrow> error_code" where
  "set_thread_affinity capacity setaffinity index =
     (let rc = setaffinity (cpu_set capacity (cast_int index))
      in if rc \<noteq> 0 then errno_code rc else no_error)"

lemma set_thread_affinity_one:
  "0 \<le> index \<Longrightarrow> index < capacity \<Longrightarrow> capacity \<le> int_max \<Longrightarrow>
   set_thread_affinity capacity setaffinity index =
     (if setaffinity {index} \<noteq> 0 then errno_code (setaffinity {index}) else no_error)"
  by (simp add: set_thread_affinity_def cpu_set_def cast_int_id int_min_def)

text \<open>
  On Windows the mask with one bit is passed, of 64 bits; to shift by 64 and more is undefined.
  \<open>SetThreadAffinityMask\<close> answers with 0 and an error, or with the mask before.
\<close>

definition win_set_thread_affinity :: "(64 word \<Rightarrow> unit sys) \<Rightarrow> nat \<Rightarrow> error_code option" where
  "win_set_thread_affinity setaffinity index =
     (if 64 \<le> index then None
      else Some (case setaffinity (push_bit index 1) of Failure e \<Rightarrow> errno_code e | Success _ \<Rightarrow> no_error))"

lemma win_set_thread_affinity_one:
  assumes "index < 64"
  shows "\<exists>mask :: 64 word. (\<forall>i < 64. bit mask i \<longleftrightarrow> i = index) \<and>
           win_set_thread_affinity setaffinity index =
             Some (case setaffinity mask of Failure e \<Rightarrow> errno_code e | Success _ \<Rightarrow> no_error)"
  using assms by (intro exI [of _ "push_bit index 1"]) (auto simp: win_set_thread_affinity_def bit_simps)

section \<open>xorstr\<close>

text \<open>
  Characters are bytes. \<open>seed\<close> is made of the time of the compilation, as text; \<open>random_generator\<close>
  computes on 32-bit words.
\<close>

type_synonym byte = "8 word"

definition seed :: "string \<Rightarrow> int" where
  "seed time =
     int (of_char (time ! 7)) + int (of_char (time ! 6)) * 10 + int (of_char (time ! 4)) * 60 +
     int (of_char (time ! 3)) * 600 + int (of_char (time ! 1)) * 3600 + int (of_char (time ! 0)) * 36000"

definition generator_step :: "32 word \<Rightarrow> 32 word" where
  "generator_step s =
     (let a = 16807;
          m = 2147483647;
          lo = a * (s AND 0xFFFF);
          hi = a * drop_bit 16 s;
          lo2 = lo + push_bit 16 (hi AND 0x7FFF);
          hi2 = drop_bit 15 hi;
          lo3 = lo2 + hi
      in if lo3 > m then lo3 - m else lo3)"

fun random_generator :: "string \<Rightarrow> nat \<Rightarrow> 32 word" where
  "random_generator time 0 = word_of_int (seed time)"
| "random_generator time (Suc n) = generator_step (random_generator time n)"

definition random_int :: "string \<Rightarrow> nat \<Rightarrow> 32 word \<Rightarrow> 32 word" where
  "random_int time n m = random_generator time (n + 1) mod m"

definition random_char :: "string \<Rightarrow> nat \<Rightarrow> byte" where
  "random_char time n = ucast (1 + random_int time n (0x7F - 1))"

definition xor_enc :: "byte \<Rightarrow> byte \<Rightarrow> byte" where
  "xor_enc key c = c XOR key"

definition xor_dec :: "byte \<Rightarrow> byte \<Rightarrow> byte" where
  "xor_dec key c = c XOR key"

text \<open>The constructor: the array has one more element, zero, than the text has characters.\<close>

definition xor_string :: "string \<Rightarrow> nat \<Rightarrow> byte list \<Rightarrow> byte \<times> byte list" where
  "xor_string time k str =
     (let key = random_char time k in (key, map (xor_enc key) str @ [0]))"

fun decrypt_loop :: "byte \<Rightarrow> nat \<Rightarrow> nat \<Rightarrow> byte list \<Rightarrow> byte list" where
  "decrypt_loop key i 0 encrypted = encrypted"
| "decrypt_loop key i (Suc n) encrypted =
     decrypt_loop key (i + 1) n (encrypted[i := xor_dec key (encrypted ! i)])"

definition decrypt :: "nat \<Rightarrow> byte \<times> byte list \<Rightarrow> byte list" where
  "decrypt n str = (case str of (key, encrypted) \<Rightarrow> (decrypt_loop key 0 n encrypted)[n := 0])"

lemma decrypt_loop_map:
  "decrypt_loop key (length xs) (length ys) (xs @ ys @ zs) = xs @ map (xor_dec key) ys @ zs"
proof (induction ys arbitrary: xs)
  case (Cons y ys)
  from Cons [of "xs @ [xor_dec key y]"] show ?case by simp
qed simp

lemma random_char_range: "0 < random_char time k \<and> random_char time k < 0x7F"
proof -
  let ?r = "random_int time k (0x7F - 1)"
  have r: "unat ?r < 126"
    by (simp add: random_int_def unat_mod_distrib)
  then have "unat (1 + ?r) = Suc (unat ?r)"
    by (simp add: unat_word_ariths)
  with r have "unat (random_char time k) = Suc (unat ?r)"
    by (simp add: random_char_def unsigned_ucast_eq unsigned_take_bit_eq take_bit_nat_eq_self)
  with r show ?thesis by (simp add: word_less_nat_alt)
qed

text \<open>
  Decrypting an encrypted string gives the string back, with its terminating zero, whatever the
  compilation time and the number of the string; and no character of the text is stored as it is.
\<close>

theorem xorstr_round_trip:
  "decrypt (length str) (xor_string time k str) = str @ [0] \<and>
   list_all2 (\<lambda>c e. c \<noteq> e) str (take (length str) (snd (xor_string time k str)))"
proof -
  let ?key = "random_char time k"
  have "decrypt_loop ?key 0 (length str) (map (xor_enc ?key) str @ [0]) = str @ [0]"
    using decrypt_loop_map [of ?key "[]" "map (xor_enc ?key) str" "[0]"]
    by (simp add: comp_def xor_enc_def xor_dec_def xor.assoc)
  moreover have "c \<noteq> xor_enc ?key c" for c
  proof
    assume "c = xor_enc ?key c"
    then have "c XOR c = c XOR (c XOR ?key)" by (simp add: xor_enc_def)
    then have "?key = 0" by (simp add: xor.assoc [symmetric])
    with random_char_range [of time k] show False by simp
  qed
  ultimately show ?thesis
    by (simp add: decrypt_def xor_string_def Let_def list_all2_conv_all_nth)
qed

text \<open>
  The generator is not the one its comment names, whose step is multiplication by 16807 modulo
  \<open>2 ^ 31 - 1\<close>: it adds \<open>hi\<close> where the higher bits of it, \<open>hi2\<close>, belong.
\<close>

lemma generator_not_park_miller: "uint (generator_step 65536) \<noteq> 65536 * 16807 mod (2 ^ 31 - 1)"
  by (simp add: generator_step_def)

end
