(* ===== verification/Schedule.thy ===== *)
theory Schedule
  imports Utility Scheduler
begin

text \<open>
  \<open>co_await schedule(scheduler)\<close> of \<open>ice/scheduler.hpp\<close> on threads that run contexts or services: the
  coroutine goes on at once when its thread is already running the scheduler, as \<open>is_current\<close> tells from
  the thread-local index, or is posted and resumed by a thread that is. The queue of each scheduler
  appears as the list it implements; a thread is the stack of what it is in the middle of, since a
  coroutine may itself call \<open>run\<close>.
\<close>

section \<open>The awaitable\<close>

text \<open>
  \<open>scheduler_\<close>, \<open>ready_\<close> and \<open>awaiter_\<close>; schedulers are numbered. Ghost fields: the coroutine that awaits the
  object, and the scheduler that it asked for.
\<close>

record schedule =
  of_scheduler :: nat
  ready_now :: bool
  sched_awaiter :: addr
  asked_by :: addr
  asked_for :: nat

definition new_schedule :: "nat \<Rightarrow> bool \<Rightarrow> bool \<Rightarrow> schedule" where
  "new_schedule k current always =
     \<lparr>of_scheduler = k, ready_now = schedule_ready current always, sched_awaiter = 0, asked_by = 0, asked_for = 0\<rparr>"

definition schedule_await_ready :: "schedule \<Rightarrow> bool" where
  "schedule_await_ready x = ready_now x"

text \<open>
  \<open>await_suspend\<close> stores the awaiter and posts the object to its scheduler; \<open>resume\<close> says whom it resumes.
\<close>

definition schedule_await_suspend ::
    "addr \<Rightarrow> (nat \<Rightarrow> schedule list) \<Rightarrow> schedule \<Rightarrow> nat \<Rightarrow> schedule list" where
  "schedule_await_suspend awaiter queue x =
     (let y = x\<lparr>sched_awaiter := awaiter\<rparr>
      in queue(of_scheduler y := queue (of_scheduler y) @ [y]))"

definition schedule_resume :: "schedule \<Rightarrow> addr" where
  "schedule_resume x = sched_awaiter x"

section \<open>Threads\<close>

text \<open>
  What a thread is in the middle of: running a scheduler, or a coroutine. With a coroutine goes, as a
  ghost, the scheduler it last asked for: it is set where the coroutine asks, and handed on by the object
  it awaits, whichever scheduler resumes it. Threads are numbered.
\<close>

datatype activity = Run nat | Co addr "nat option"

record world =
  w_index :: tls
  w_queue :: "nat \<Rightarrow> schedule list"
  w_stack :: "nat \<Rightarrow> activity list"

definition new_world :: world where
  "new_world = \<lparr>w_index = (\<lambda>_ _. 0), w_queue = (\<lambda>_. []), w_stack = (\<lambda>_. [])\<rparr>"

definition is_current :: "nat \<Rightarrow> nat \<Rightarrow> world \<Rightarrow> bool" where
  "is_current k t w \<longleftrightarrow> tls_get k t (w_index w) \<noteq> 0"

fun in_code :: "activity list \<Rightarrow> bool" where
  "in_code (Run k # st) = False"
| "in_code st = True"

text \<open>
  \<open>run\<close> sets the index to the scheduler, here to its number plus 1, and clears it when it returns; it is
  called by code, not by the loop of another \<open>run\<close>. A coroutine runs until it awaits something: a
  scheduler, or anything else that suspends it or ends it.
\<close>

inductive world_step :: "world \<Rightarrow> world \<Rightarrow> bool" where
  call_run:
    "w_stack w t = st \<Longrightarrow> in_code st \<Longrightarrow> tls_lock k (Suc k) t (w_index w) = (lock, index) \<Longrightarrow>
     world_step w (w\<lparr>w_index := index, w_stack := (w_stack w)(t := Run k # st)\<rparr>)"
| run_returns:
    "w_stack w t = Run k # st \<Longrightarrow>
     world_step w
       (w\<lparr>w_index := tls_lock_destroy k t (w_index w), w_stack := (w_stack w)(t := st)\<rparr>)"
| start_coroutine:
    "w_stack w t = st \<Longrightarrow> world_step w (w\<lparr>w_stack := (w_stack w)(t := Co c None # st)\<rparr>)"
| stay:
    "w_stack w t = Co c h # st \<Longrightarrow> schedule_await_ready (new_schedule k (is_current k t w) always) \<Longrightarrow>
     world_step w (w\<lparr>w_stack := (w_stack w)(t := Co c (Some k) # st)\<rparr>)"
| leave:
    "w_stack w t = Co c h # st \<Longrightarrow> x = new_schedule k (is_current k t w) always \<Longrightarrow> \<not> schedule_await_ready x \<Longrightarrow>
     world_step w
       (w\<lparr>w_queue := schedule_await_suspend c (w_queue w) (x\<lparr>asked_by := c, asked_for := k\<rparr>),
          w_stack := (w_stack w)(t := st)\<rparr>)"
| resume:
    "w_stack w t = Run k # st \<Longrightarrow> w_queue w k = x # xs \<Longrightarrow>
     world_step w
       (w\<lparr>w_queue := (w_queue w)(k := xs),
          w_stack := (w_stack w)(t := Co (schedule_resume x) (Some (asked_for x)) # Run k # st)\<rparr>)"
| suspend_or_end:
    "w_stack w t = Co c h # st \<Longrightarrow> world_step w (w\<lparr>w_stack := (w_stack w)(t := st)\<rparr>)"

inductive world_reach :: "world \<Rightarrow> bool" where
  world_start: "world_reach new_world"
| world_next: "world_reach w \<Longrightarrow> world_step w v \<Longrightarrow> world_reach v"

section \<open>The invariant\<close>

text \<open>
  Below a coroutine that asked for a scheduler its thread runs that scheduler. An object in a queue is in
  that of the scheduler asked for, and will resume the coroutine that asked.
\<close>

fun at_home :: "activity list \<Rightarrow> bool" where
  "at_home [] = True"
| "at_home (Run k # st) = at_home st"
| "at_home (Co c h # st) = ((\<forall>k. h = Some k \<longrightarrow> Run k \<in> set st) \<and> at_home st)"

definition well_queued :: "(nat \<Rightarrow> schedule list) \<Rightarrow> bool" where
  "well_queued queue \<longleftrightarrow> (\<forall>k. \<forall>x\<in>set (queue k). asked_for x = k \<and> schedule_resume x = asked_by x)"

lemma well_queued_suspend:
  "well_queued queue \<Longrightarrow> x = new_schedule k current always \<Longrightarrow>
   well_queued (schedule_await_suspend c queue (x\<lparr>asked_by := c, asked_for := k\<rparr>))"
  by (simp add: well_queued_def schedule_await_suspend_def schedule_resume_def new_schedule_def Let_def)

lemma well_queued_tail: "well_queued queue \<Longrightarrow> queue k = x # xs \<Longrightarrow> asked_for x = k \<and> well_queued (queue(k := xs))"
  unfolding well_queued_def by (metis fun_upd_apply list.set_intros)

definition world_inv :: "world \<Rightarrow> bool" where
  "world_inv w \<longleftrightarrow>
     well_queued (w_queue w) \<and>
     (\<forall>t. at_home (w_stack w t)) \<and>
     (\<forall>k t. is_current k t w \<longrightarrow> Run k \<in> set (w_stack w t))"

lemma tls_lock_index: "tls_lock k v t s = (l, index) \<longleftrightarrow> l = k \<and> index = s(k := (s k)(t := v))"
  by (auto simp: tls_lock_def)

lemma world_inv_put:
  assumes "world_inv w" and "well_queued (w_queue v)" and "w_index v = w_index w"
    and "w_stack v = (w_stack w)(t := st)" and "at_home st" and "\<And>k. Run k \<in> set (w_stack w t) \<Longrightarrow> Run k \<in> set st"
  shows "world_inv v"
  using assms by (simp add: world_inv_def is_current_def)

lemma world_step_inv: "world_step w v \<Longrightarrow> world_inv w \<Longrightarrow> world_inv v"
proof (induction rule: world_step.induct)
  case (call_run w t st k lock index)
  then have "at_home st" by (auto simp: world_inv_def)
  with call_run show ?case
    by (auto simp: world_inv_def is_current_def tls_lock_index tls_get_def split: if_splits)
next
  case (run_returns w t k st)
  from run_returns.prems have inv: "at_home (w_stack w t')" "well_queued (w_queue w)" "is_current k' t' w \<Longrightarrow> Run k' \<in> set (w_stack w t')"
    for k' t' by (simp_all add: world_inv_def)
  let ?v = "w\<lparr>w_index := tls_lock_destroy k t (w_index w), w_stack := (w_stack w)(t := st)\<rparr>"
  have cur: "is_current k' t' ?v \<longleftrightarrow> is_current k' t' w \<and> (k', t') \<noteq> (k, t)" for k' t'
    by (simp add: is_current_def tls_get_def tls_lock_destroy_def)
  have "Run k' \<in> set (w_stack ?v t')" if "is_current k' t' ?v" for k' t'
    using inv(3) [of k' t'] that run_returns.hyps unfolding cur by (cases "t' = t") auto
  moreover have "at_home (w_stack ?v t')" for t'
    using inv(1) [of t'] run_returns.hyps by (cases "t' = t") simp_all
  ultimately show ?case using inv(2) by (simp add: world_inv_def)
next
  case (start_coroutine w t st c)
  then have "at_home st" "well_queued (w_queue w)" by (auto simp: world_inv_def)
  with start_coroutine show ?case by (intro world_inv_put [OF start_coroutine.prems, of _ t "Co c None # st"]) simp_all
next
  case (stay w t c h st k always)
  from stay.prems have inv: "is_current k t w \<Longrightarrow> Run k \<in> set (w_stack w t)" "at_home (w_stack w t)"
    "well_queued (w_queue w)"
    by (simp_all add: world_inv_def)
  from stay.hyps(2) have "is_current k t w" by (simp add: new_schedule_def schedule_ready_def schedule_await_ready_def)
  with inv stay.hyps(1) show ?case by (intro world_inv_put [OF stay.prems, of _ t "Co c (Some k) # st"]) simp_all
next
  case (leave w t c h st x k always)
  from leave.prems have "at_home (w_stack w t)" "well_queued (w_queue w)" by (simp_all add: world_inv_def)
  with leave.hyps well_queued_suspend [of "w_queue w" x k _ always c] show ?case by (intro world_inv_put [OF leave.prems, of _ t st]) simp_all
next
  case (resume w t k st x xs)
  from resume.prems have "at_home (w_stack w t)" "well_queued (w_queue w)" by (simp_all add: world_inv_def)
  with resume.hyps well_queued_tail [of "w_queue w" k x xs] show ?case
    by (intro world_inv_put [OF resume.prems, of _ t "Co (schedule_resume x) (Some (asked_for x)) # Run k # st"]) simp_all
next
  case (suspend_or_end w t c h st)
  from suspend_or_end.prems have "at_home (w_stack w t)" "well_queued (w_queue w)" by (simp_all add: world_inv_def)
  with suspend_or_end.hyps show ?case by (intro world_inv_put [OF suspend_or_end.prems, of _ t st]) simp_all
qed

lemma world_reach_inv: "world_reach w \<Longrightarrow> world_inv w"
proof (induction rule: world_reach.induct)
  case world_start
  show ?case by (simp add: world_inv_def new_world_def is_current_def tls_get_def well_queued_def)
qed (rule world_step_inv)

section \<open>Properties\<close>

text \<open>
  C21: After \<open>co_await schedule(scheduler)\<close> a coroutine is on a thread that runs the scheduler it asked for,
  whether it went on at once or was posted; while it waits it is in the queue of that scheduler, whose
  next \<open>resume\<close> of the object resumes this coroutine and no other; and \<open>is_current\<close> never says wrongly that
  a thread runs a scheduler.
\<close>

theorem schedule_moves_to_scheduler:
  assumes "world_reach w"
  shows "(w_stack w t = Co c (Some k) # st \<longrightarrow> Run k \<in> set st) \<and>
         (x \<in> set (w_queue w k) \<longrightarrow> asked_for x = k \<and> schedule_resume x = asked_by x) \<and>
         (is_current k t w \<longrightarrow> Run k \<in> set (w_stack w t))"
proof -
  from world_reach_inv [OF assms] have inv: "at_home (w_stack w t)" "well_queued (w_queue w)"
      "is_current k t w \<Longrightarrow> Run k \<in> set (w_stack w t)"
    by (simp_all add: world_inv_def)
  have "Run k \<in> set st" if "w_stack w t = Co c (Some k) # st" using inv(1) that by simp
  with inv(2,3) show ?thesis by (simp add: well_queued_def)
qed

text \<open>Coroutine 5 asks for scheduler 1, waits in its queue, and is resumed.\<close>

lemma world_run:
  "\<exists>w x v. world_reach w \<and> w_queue w 1 = [x] \<and> asked_by x = 5 \<and>
           world_reach v \<and> w_stack v 0 = [Co 5 (Some 1), Run 1] \<and> is_current 1 0 v"
proof -
  let ?index = "(\<lambda>_ _. 0)(1 := (\<lambda>_. 0)(0 := Suc 1)) :: tls"
  let ?x = "\<lparr>of_scheduler = 1, ready_now = False, sched_awaiter = 5, asked_by = 5, asked_for = 1\<rparr>"
  let ?w1 = "new_world\<lparr>w_index := ?index, w_stack := (\<lambda>_. [])(0 := [Run 1])\<rparr>"
  let ?w2 = "?w1\<lparr>w_stack := (w_stack ?w1)(1 := [Co 5 None])\<rparr>"
  let ?w3 = "?w1\<lparr>w_queue := (\<lambda>_. [])(1 := [?x]), w_stack := (w_stack ?w2)(1 := [])\<rparr>"
  let ?w4 = "?w3\<lparr>w_queue := (w_queue ?w3)(1 := []), w_stack := (w_stack ?w3)(0 := [Co 5 (Some 1), Run 1])\<rparr>"
  have "world_step new_world ?w1"
    using call_run [of new_world 0 "[]" 1] by (simp add: new_world_def tls_lock_def)
  with world_start have "world_reach ?w1" by (rule world_next)
  moreover have "world_step ?w1 ?w2" using start_coroutine [of ?w1 1 "[]" 5] by simp
  ultimately have "world_reach ?w2" by (rule world_next)
  moreover have "world_step ?w2 ?w3"
    using leave [of ?w2 1 5 None "[]" _ 1 False]
    by (simp add: new_world_def schedule_await_ready_def new_schedule_def schedule_ready_def is_current_def
        tls_get_def schedule_await_suspend_def Let_def)
  ultimately have w3: "world_reach ?w3" by (rule world_next)
  moreover have "world_step ?w3 ?w4" using resume [of ?w3 0 1 "[]" ?x "[]"] by (simp add: schedule_resume_def)
  ultimately have "world_reach ?w4" by (rule world_next)
  with w3 show ?thesis by (intro exI [of _ ?w3] exI [of _ ?x] exI [of _ ?w4]) (simp add: is_current_def tls_get_def)
qed

theorem schedule_moves_to_scheduler_witness:
  "\<exists>w x v. world_reach w \<and> w_queue w 1 = [x] \<and> schedule_resume x = 5 \<and>
           world_reach v \<and> w_stack v 0 = [Co 5 (Some 1), Run 1] \<and> Run 1 \<in> set [Run 1]"
proof -
  obtain w x v where w: "world_reach w" "w_queue w 1 = [x]" "asked_by x = 5"
    and v: "world_reach v" "w_stack v 0 = [Co 5 (Some 1), Run 1]" using world_run by blast
  have "schedule_resume x = 5" using schedule_moves_to_scheduler [OF w(1), of 0 0 1 _ x] w(2,3) by simp
  moreover have "Run 1 \<in> set [Run 1]" using schedule_moves_to_scheduler [OF v(1), of 0 5 1] v(2) by blast
  ultimately show ?thesis using w v by blast
qed

text \<open>
  But it may deny it: when a coroutine runs its scheduler again and that run returns, the thread no
  longer counts as one of the scheduler, although the outer run goes on.
\<close>

lemma nested_run_forgets:
  "\<exists>w. world_reach w \<and> Run 1 \<in> set (w_stack w 0) \<and> \<not> is_current 1 0 w"
proof -
  obtain w where w: "world_reach w" "w_stack w 0 = [Co 5 (Some 1), Run 1]" using world_run by blast
  have "world_reach (w\<lparr>w_index := (w_index w)(1 := (w_index w 1)(0 := Suc 1)),
      w_stack := (w_stack w)(0 := Run 1 # [Co 5 (Some 1), Run 1])\<rparr>)" (is "world_reach ?v")
    using w(2) by (intro world_next [OF w(1)] call_run) (simp_all add: tls_lock_index)
  then have "world_reach (?v\<lparr>w_index := tls_lock_destroy 1 0 (w_index ?v),
      w_stack := (w_stack ?v)(0 := [Co 5 (Some 1), Run 1])\<rparr>)" (is "world_reach ?u")
    by (intro world_next [OF _ run_returns]) simp_all
  moreover have "Run 1 \<in> set (w_stack ?u 0) \<and> \<not> is_current 1 0 ?u"
    by (simp add: is_current_def tls_get_def tls_lock_destroy_def)
  ultimately show ?thesis by blast
qed

end
