(* ===== verification/Owning_Objects.thy ===== *)
theory Owning_Objects
  imports Handle
begin

text \<open>
  Two more owners of \<open>ice/async.hpp\<close>: the object \<open>async_generator\<close>, which gives its coroutine up when it
  goes, and the lock guard \<open>async_mutex_lock\<close>, which unlocks its mutex. Objects and what was given up
  are the \<^typ>\<open>addr handles\<close> of the handle theory, null being the address 0; what giving up does to
  the coroutine or the mutex is the subject of their own theories.
\<close>

section \<open>Generator objects\<close>

definition new_generator_object :: "addr \<Rightarrow> addr handles \<Rightarrow> addr handles option" where
  "new_generator_object this w = handle_of_value this 0 w"

definition generator_of_promise :: "addr \<Rightarrow> addr \<Rightarrow> addr handles \<Rightarrow> addr handles option" where
  "generator_of_promise this coroutine w = handle_of_value this coroutine w"

definition generator_move :: "addr \<Rightarrow> addr \<Rightarrow> addr handles \<Rightarrow> addr handles option" where
  "generator_move this other w =
     (case obj w other of
        None \<Rightarrow> None
      | Some coroutine \<Rightarrow>
          (case handle_of_value this coroutine w of
             None \<Rightarrow> None
           | Some w1 \<Rightarrow> Some (hstore other 0 w1)))"

definition generator_destroy :: "addr \<Rightarrow> addr handles \<Rightarrow> addr handles option" where
  "generator_destroy this w =
     (case obj w this of
        None \<Rightarrow> None
      | Some coroutine \<Rightarrow>
          (let w1 = (if coroutine \<noteq> 0 then w\<lparr>closed := closed w @ [coroutine]\<rparr> else w)
           in Some (w1\<lparr>obj := (obj w1)(this := None)\<rparr>)))"

definition generator_swap :: "addr \<Rightarrow> addr \<Rightarrow> addr handles \<Rightarrow> addr handles option" where
  "generator_swap this other w =
     (case (obj w this, obj w other) of
        (Some mine, Some theirs) \<Rightarrow> Some (hstore other mine (hstore this theirs w))
      | _ \<Rightarrow> None)"

text \<open>Assignment: a temporary, at an address of its own, takes the coroutine and is swapped with this.\<close>

definition generator_assign :: "addr \<Rightarrow> addr \<Rightarrow> addr \<Rightarrow> addr handles \<Rightarrow> addr handles option" where
  "generator_assign temp this other w =
     (case generator_move temp other w of
        None \<Rightarrow> None
      | Some w1 \<Rightarrow>
          (case generator_swap this temp w1 of
             None \<Rightarrow> None
           | Some w2 \<Rightarrow> generator_destroy temp w2))"

section \<open>Lock guards\<close>

definition lock_adopt :: "addr \<Rightarrow> addr \<Rightarrow> addr handles \<Rightarrow> addr handles option" where
  "lock_adopt this mutex w = handle_of_value this mutex w"

definition lock_move :: "addr \<Rightarrow> addr \<Rightarrow> addr handles \<Rightarrow> addr handles option" where
  "lock_move this other w =
     (case obj w other of
        None \<Rightarrow> None
      | Some mutex \<Rightarrow>
          (case handle_of_value this mutex w of
             None \<Rightarrow> None
           | Some w1 \<Rightarrow> Some (hstore other 0 w1)))"

definition lock_destroy :: "addr \<Rightarrow> addr handles \<Rightarrow> addr handles option" where
  "lock_destroy this w =
     (case obj w this of
        None \<Rightarrow> None
      | Some mutex \<Rightarrow>
          (let w1 = (if mutex \<noteq> 0 then w\<lparr>closed := closed w @ [mutex]\<rparr> else w)
           in Some (w1\<lparr>obj := (obj w1)(this := None)\<rparr>)))"

section \<open>Ownership\<close>

lemma generator_move_handle: "generator_move this other w = handle_move 0 this other w"
  by (cases "this = other") (auto simp: generator_move_def handle_defs fun_upd_twist split: option.split)

lemma generator_destroy_handle: "generator_destroy this w = handle_destroy 0 this w"
  by (auto simp: generator_destroy_def handle_defs hvalid_def split: option.split)

lemma generator_swap_handle: "generator_swap this other w = handle_swap this other w"
  by (cases "this = other")
    (auto simp: generator_swap_def handle_swap_def hstore_def fun_upd_twist split: option.splits)

lemma lock_is_generator: "lock_move = generator_move" "lock_destroy = generator_destroy"
  by (simp_all add: fun_eq_iff lock_move_def generator_move_def lock_destroy_def generator_destroy_def)

text \<open>
  Generators and lock guards own what they hold as handles own their values: moving, swapping,
  assigning (also to itself, and whatever the address of the temporary) and destroying them gives up
  exactly what the handle operations close, so a generator is given up once, and a mutex unlocked once
  by the last guard that adopted it.
\<close>

theorem owners_are_handles:
  assumes "obj w temp = None" and "obj w this \<noteq> None"
  shows "generator_assign temp this other w = handle_assign 0 this other w \<and>
         generator_move this other w = handle_move 0 this other w \<and>
         generator_swap this other w = handle_swap this other w \<and>
         generator_destroy this w = handle_destroy 0 this w \<and>
         lock_move this other w = handle_move 0 this other w \<and>
         lock_destroy this w = handle_destroy 0 this w"
proof -
  have "generator_assign temp this other w = handle_assign 0 this other w"
  proof (cases "obj w other")
    case None
    then show ?thesis by (simp add: generator_assign_def generator_move_def handle_defs)
  next
    case (Some theirs)
    from assms(2) obtain mine where "obj w this = Some mine" by blast
    moreover have "temp \<noteq> this" using assms by metis
    moreover have "temp \<noteq> other" using assms(1) Some by auto
    ultimately have m: "obj w this = Some mine" "temp \<noteq> this" "temp \<noteq> other" by simp_all
    have clear: "(obj w)(other \<mapsto> y, this \<mapsto> z, temp := None) = (obj w)(other \<mapsto> y, this \<mapsto> z)"
      "(obj w)(this \<mapsto> z, temp := None) = (obj w)(this \<mapsto> z)" for y z
      using m assms(1) by (simp_all add: fun_eq_iff)
    have swap: "(obj w)(temp \<mapsto> x, other \<mapsto> y, this \<mapsto> z, temp \<mapsto> u, temp := None) =
        (obj w)(other \<mapsto> y, this \<mapsto> z)" for u x y z
      using m assms(1) by (simp add: fun_eq_iff)
    with Some m assms(1) show ?thesis
      by (cases "this = other")
        (auto simp: generator_assign_def generator_move_def generator_swap_def generator_destroy_def
          handle_defs hvalid_def Let_def clear swap fun_upd_twist)
  qed
  then show ?thesis
    by (simp add: generator_move_handle generator_swap_handle generator_destroy_handle lock_is_generator)
qed

theorem owners_are_handles_witness:
  "generator_assign 9 1 2 \<lparr>obj = [1 \<mapsto> 5, 2 \<mapsto> 6], closed = []\<rparr> =
   handle_assign 0 1 2 \<lparr>obj = [1 \<mapsto> 5, 2 \<mapsto> 6], closed = []\<rparr>"
  using owners_are_handles [of "\<lparr>obj = [1 \<mapsto> 5, 2 \<mapsto> 6], closed = []\<rparr>" 9 1 2] by simp

end
