(* ===== verification/Handle_View.thy ===== *)
theory Handle_View
  imports Handle
begin

text \<open>
  The views of \<open>ice/handle.hpp\<close>, base of the owning handles: comparisons, and the conversions between
  integer handles of different widths that \<open>as\<close>, the constructors and \<open>reset\<close> make by \<open>static_cast\<close>.
\<close>

section \<open>Views\<close>

record view =
  h_value :: int

definition view_valid :: "int \<Rightarrow> view \<Rightarrow> bool" where
  "view_valid invalid v = hvalid invalid (h_value v)"

definition view_eq :: "view \<Rightarrow> view \<Rightarrow> bool" where
  "view_eq lhs rhs \<longleftrightarrow> h_value lhs = h_value rhs"

definition view_ne :: "view \<Rightarrow> view \<Rightarrow> bool" where
  "view_ne lhs rhs \<longleftrightarrow> \<not> view_eq rhs lhs"

definition view_eq_value :: "view \<Rightarrow> int \<Rightarrow> bool" where
  "view_eq_value lhs v \<longleftrightarrow> h_value lhs = v"

definition view_ne_value :: "view \<Rightarrow> int \<Rightarrow> bool" where
  "view_ne_value lhs v \<longleftrightarrow> \<not> view_eq_value lhs v"

definition value_eq_view :: "int \<Rightarrow> view \<Rightarrow> bool" where
  "value_eq_view v rhs \<longleftrightarrow> v = h_value rhs"

definition value_ne_view :: "int \<Rightarrow> view \<Rightarrow> bool" where
  "value_ne_view v rhs \<longleftrightarrow> \<not> value_eq_view v rhs"

lemma view_comparisons:
  "view_ne u v \<longleftrightarrow> \<not> view_eq u v" "view_eq u v \<longleftrightarrow> view_eq v u"
  "value_eq_view x v \<longleftrightarrow> view_eq_value v x" "value_ne_view x v \<longleftrightarrow> view_ne_value v x"
  "view_eq u v \<Longrightarrow> view_valid i u \<longleftrightarrow> view_valid i v"
  by (auto simp: view_ne_def view_eq_def value_eq_view_def view_eq_value_def value_ne_view_def
      view_ne_value_def view_valid_def)

section \<open>Conversions\<close>

text \<open>
  An integer type has a width and is signed or not; \<open>static_cast\<close> keeps the low bits. A pointer counts as
  an unsigned type of 64 bits, which is what \<open>reinterpret_cast\<close> makes of it.
\<close>

record int_type =
  int_width :: nat
  int_signed :: bool

definition int_cast :: "int_type \<Rightarrow> int \<Rightarrow> int" where
  "int_cast t x =
     (if int_signed t then signed_take_bit (int_width t - 1) x else take_bit (int_width t) x)"

definition int_fits :: "int_type \<Rightarrow> int \<Rightarrow> bool" where
  "int_fits t x \<longleftrightarrow>
     (if int_signed t then - (2 ^ (int_width t - 1)) \<le> x \<and> x < 2 ^ (int_width t - 1)
      else 0 \<le> x \<and> x < 2 ^ int_width t)"

definition view_of_value :: "int_type \<Rightarrow> int \<Rightarrow> view" where
  "view_of_value t v = \<lparr>h_value = int_cast t v\<rparr>"

definition view_as :: "int_type \<Rightarrow> view \<Rightarrow> int" where
  "view_as t v = int_cast t (h_value v)"

lemma int_cast_fits: "int_fits t (int_cast t x)"
proof (cases "int_signed t")
  case True
  then show ?thesis
    using signed_take_bit_int_greater_eq_minus_exp [of "int_width t - 1" x]
      signed_take_bit_int_less_exp [of "int_width t - 1" x]
    by (simp add: int_fits_def int_cast_def)
next
  case False
  then show ?thesis by (simp add: int_fits_def int_cast_def)
qed

lemma int_cast_id: "int_fits t x \<Longrightarrow> int_cast t x = x"
  by (auto simp: int_fits_def int_cast_def signed_take_bit_int_eq_self take_bit_int_eq_self split: if_splits)

text \<open>
  A handle that is stored in a wider type comes back from \<open>as\<close>: every value of the narrow type does when
  the wide one holds all of them, and also across signs when the widths are the same, as for the sockets
  of Windows.
\<close>

lemma view_as_round_trip:
  assumes "int_fits narrow x" and "int_fits wide x"
  shows "view_as narrow (view_of_value wide x) = x"
  using assms by (simp add: view_as_def view_of_value_def int_cast_id)

lemma view_as_same_width:
  assumes "0 < n" and "int_fits \<lparr>int_width = n, int_signed = b\<rparr> x"
  shows "view_as \<lparr>int_width = n, int_signed = b\<rparr> (view_of_value \<lparr>int_width = n, int_signed = c\<rparr> x) = x"
proof -
  from assms(1) obtain m where n: "n = Suc m" by (cases n) auto
  have "int_cast \<lparr>int_width = n, int_signed = b\<rparr> (int_cast \<lparr>int_width = n, int_signed = c\<rparr> x) =
      int_cast \<lparr>int_width = n, int_signed = b\<rparr> x"
    by (cases b; cases c)
      (simp_all add: int_cast_def n signed_take_bit_take_bit take_bit_signed_take_bit)
  with int_cast_id [OF assms(2)] show ?thesis by (simp add: view_as_def view_of_value_def)
qed

text \<open>
  But validity is not kept by a change of width: the invalid value of a 64-bit handle, read as 32 bits
  and stored again, is a valid one.
\<close>

definition uint32 :: int_type where
  "uint32 = \<lparr>int_width = 32, int_signed = False\<rparr>"

definition uint64 :: int_type where
  "uint64 = \<lparr>int_width = 64, int_signed = False\<rparr>"

lemma invalid_becomes_valid:
  "view_valid size_max (view_of_value uint64 (view_as uint32 \<lparr>h_value = size_max\<rparr>))"
  by (simp add: view_valid_def hvalid_def view_of_value_def view_as_def int_cast_def uint64_def uint32_def
      size_max_def take_bit_eq_mod)

end
