(* ===== verification/Option_Calls.thy ===== *)
theory Option_Calls
  imports Socket_Options Tcp_Socket
begin

text \<open>
  Reading and writing options of sockets: \<open>get\<close> and \<open>set\<close> of \<open>ice/net/socket.hpp\<close> pass the level, the
  name, the data and the size of an option (\<open>ice/net/option.hpp\<close>) to the system; and how linger options
  are copied.
\<close>

section \<open>Options\<close>

text \<open>An option of any kind: flags and sizes hold one number, linger options two.\<close>

datatype any_option = Value_option option_kind option_value | Linger_option linger

text \<open>
  The classes of the options: the base each takes its storage and its constructors from, and whether it
  replaces \<open>level\<close>. A value can be given to an option only through its base.
\<close>

datatype option_base = Flag_value | Size_value | Own_storage

fun option_class :: "option_kind \<Rightarrow> option_base \<times> bool" where
  "option_class Broadcast = (Flag_value, False)"
| "option_class Do_not_route = (Flag_value, False)"
| "option_class Keep_alive = (Flag_value, False)"
| "option_class Linger = (Own_storage, False)"
| "option_class No_delay = (Flag_value, True)"
| "option_class Recv_buffer_size = (Size_value, False)"
| "option_class Send_buffer_size = (Size_value, False)"
| "option_class Recv_low_watermark = (Size_value, False)"
| "option_class Send_low_watermark = (Size_value, False)"
| "option_class Reuse_address = (Flag_value, False)"

fun any_level :: "any_option \<Rightarrow> int" where
  "any_level (Value_option k opt) = option_level k"
| "any_level (Linger_option l) = option_level Linger"

fun any_name :: "any_option \<Rightarrow> int" where
  "any_name (Value_option k opt) = option_name k"
| "any_name (Linger_option l) = option_name Linger"

fun any_data :: "any_option \<Rightarrow> int list" where
  "any_data (Value_option k opt) = [opt_value opt]"
| "any_data (Linger_option l) = [l_onoff l, l_linger l]"

fun any_size :: "any_option \<Rightarrow> nat" where
  "any_size (Value_option k opt) = opt_size opt"
| "any_size (Linger_option l) = linger_opt_size l"

fun any_capacity :: "any_option \<Rightarrow> nat" where
  "any_capacity (Value_option k opt) = option_capacity"
| "any_capacity (Linger_option l) = linger_capacity"

text \<open>On Windows the level of \<open>no_delay\<close> is the one of TCP.\<close>

fun win_option_level :: "option_kind \<Rightarrow> int" where
  "win_option_level No_delay = ipproto_tcp"
| "win_option_level k = option_level k"

lemma option_class_level:
  "\<not> snd (option_class k) \<Longrightarrow> option_level k = sol_socket \<and> win_option_level k = sol_socket"
  by (cases k) simp_all

text \<open>Copying a linger option copies the data; the size stays what the base class or the target has.\<close>

definition linger_copy :: "linger \<Rightarrow> linger" where
  "linger_copy other = \<lparr>l_onoff = l_onoff other, l_linger = l_linger other, linger_opt_size = 0\<rparr>"

definition linger_assign :: "linger \<Rightarrow> linger \<Rightarrow> linger" where
  "linger_assign this other = this\<lparr>l_onoff := l_onoff other, l_linger := l_linger other\<rparr>"

lemma linger_copies: "linger_get (linger_copy l) = linger_get l" "linger_get (linger_assign m l) = linger_get l"
  by (simp_all add: linger_get_def linger_copy_def linger_assign_def)

section \<open>Calls\<close>

text \<open>
  \<open>set\<close> on the function \<open>setsockopt\<close>; \<open>get\<close> on \<open>getsockopt\<close>, which is given a size and answers with the
  data it stored and the size it set.
\<close>

definition socket_set_option ::
    "(int \<Rightarrow> int \<Rightarrow> int list \<Rightarrow> nat \<Rightarrow> unit sys) \<Rightarrow> any_option \<Rightarrow> error_code" where
  "socket_set_option setsockopt opt =
     socket_set (setsockopt (any_level opt) (any_name opt) (any_data opt) (any_size opt))"

fun any_store :: "any_option \<Rightarrow> int list \<Rightarrow> nat \<Rightarrow> any_option" where
  "any_store (Value_option k opt) (v # vs) n = Value_option k (opt\<lparr>opt_value := v, opt_size := n\<rparr>)"
| "any_store (Linger_option l) (v # u # vs) n =
     Linger_option (l\<lparr>l_onoff := v, l_linger := u, linger_opt_size := n\<rparr>)"
| "any_store (Value_option k opt) vs n = Value_option k (opt\<lparr>opt_size := n\<rparr>)"
| "any_store (Linger_option l) [v] n = Linger_option (l\<lparr>l_onoff := v, linger_opt_size := n\<rparr>)"
| "any_store (Linger_option l) [] n = Linger_option (l\<lparr>linger_opt_size := n\<rparr>)"

definition socket_get_option ::
    "(int \<Rightarrow> int \<Rightarrow> nat \<Rightarrow> (int list \<times> nat) sys) \<Rightarrow> any_option \<Rightarrow> error_code \<times> any_option" where
  "socket_get_option getsockopt opt =
     (case getsockopt (any_level opt) (any_name opt) (any_size opt) of
        Failure e \<Rightarrow> (errno_code e, opt)
      | Success (data, n) \<Rightarrow> (no_error, any_store opt data n))"

section \<open>Properties\<close>

text \<open>A system that keeps the options of one socket, as it is documented: data that is too short is refused.\<close>

definition kernel_set ::
    "(int \<times> int \<Rightarrow> nat) \<Rightarrow> (int \<times> int \<Rightarrow> int list) \<Rightarrow> int \<Rightarrow> int \<Rightarrow> int list \<Rightarrow> nat \<Rightarrow>
     unit sys \<times> (int \<times> int \<Rightarrow> int list)" where
  "kernel_set needed store level name data len =
     (if len < needed (level, name) then (Failure 22, store)
      else (Success (), store((level, name) := data)))"

definition kernel_get ::
    "(int \<times> int \<Rightarrow> int list) \<Rightarrow> int \<Rightarrow> int \<Rightarrow> nat \<Rightarrow> (int list \<times> nat) sys" where
  "kernel_get store level name len =
     (let data = take (len div 4) (store (level, name)) in Success (data, 4 * length data))"

text \<open>
  A flag or size that is set is read back by \<open>get\<close> into any option of the same kind; but a linger option
  can neither be set, since it passes a size of 0, nor read: the system stores nothing in it.
\<close>

theorem options_reach_system:
  assumes "\<And>k. needed (sol_socket, option_name k) = (if k = Linger then linger_capacity else option_capacity)"
    and "k \<noteq> Linger" and "opt_size opt = option_capacity" and "opt_size opt' = option_capacity"
  shows "(case kernel_set needed store (any_level (Value_option k opt)) (any_name (Value_option k opt))
                 (any_data (Value_option k opt)) (any_size (Value_option k opt)) of
            (rc, store') \<Rightarrow>
              socket_set_option (\<lambda>_ _ _ _. rc) (Value_option k opt) = no_error \<and>
              socket_get_option (kernel_get store') (Value_option k opt') = (no_error, Value_option k opt)) \<and>
         (case kernel_set needed store (any_level (Linger_option (linger_of t)))
                 (any_name (Linger_option (linger_of t))) (any_data (Linger_option (linger_of t)))
                 (any_size (Linger_option (linger_of t))) of
            (rc, store') \<Rightarrow>
              store' = store \<and> failed (socket_set_option (\<lambda>_ _ _ _. rc) (Linger_option (linger_of t)))) \<and>
         snd (socket_get_option (kernel_get store) (Linger_option (linger_of t))) = Linger_option (linger_of t)"
proof (intro conjI)
  have level: "option_level k = sol_socket" for k by (cases k) simp_all
  show "case kernel_set needed store (any_level (Value_option k opt)) (any_name (Value_option k opt))
                 (any_data (Value_option k opt)) (any_size (Value_option k opt)) of
            (rc, store') \<Rightarrow>
              socket_set_option (\<lambda>_ _ _ _. rc) (Value_option k opt) = no_error \<and>
              socket_get_option (kernel_get store') (Value_option k opt') = (no_error, Value_option k opt)"
    using assms
    by (simp add: kernel_set_def kernel_get_def socket_set_option_def socket_get_option_def socket_set_def
        level option_capacity_def)
  have size: "linger_opt_size (linger_of t) = 0" using linger_size_unset by blast
  have "needed (sol_socket, 13) = linger_capacity" using assms(1) [of Linger] by simp
  with size show "case kernel_set needed store (any_level (Linger_option (linger_of t)))
                 (any_name (Linger_option (linger_of t))) (any_data (Linger_option (linger_of t)))
                 (any_size (Linger_option (linger_of t))) of
            (rc, store') \<Rightarrow>
              store' = store \<and> failed (socket_set_option (\<lambda>_ _ _ _. rc) (Linger_option (linger_of t)))"
    by (simp add: kernel_set_def socket_set_option_def socket_set_def linger_capacity_def
        failed_errno_code int_min_def int_max_def)
  show "snd (socket_get_option (kernel_get store) (Linger_option (linger_of t))) = Linger_option (linger_of t)"
    using size by (simp add: kernel_get_def socket_get_option_def)
qed

text \<open>The sizes that Linux asks for.\<close>

definition linux_needed :: "int \<times> int \<Rightarrow> nat" where
  "linux_needed x = (if x = (sol_socket, 13) then 8 else 4)"

theorem options_reach_system_witness:
  "snd (socket_get_option
     (kernel_get (snd (kernel_set linux_needed (\<lambda>_. [0, 0]) 1 9 [1] 4)))
     (Value_option Keep_alive (option_of_bool False))) = Value_option Keep_alive (option_of_bool True)"
proof -
  have "linux_needed (sol_socket, option_name k) = (if k = Linger then linger_capacity else option_capacity)" for k
    by (cases k) (simp_all add: linux_needed_def linger_capacity_def option_capacity_def)
  note r = options_reach_system [of linux_needed, OF this, of Keep_alive "option_of_bool True"
      "option_of_bool False" "\<lambda>_. [0, 0]" undefined]
  obtain rc st where k: "kernel_set linux_needed (\<lambda>_. [0, 0]) 1 9 [1] 4 = (rc, st)"
    by (cases "kernel_set linux_needed (\<lambda>_. [0, 0]) 1 9 [1] 4")
  with r show ?thesis by (simp add: option_of_bool_def option_capacity_def sol_socket_def)
qed

end
