(* ===== verification/Async_Programs.thy ===== *)
theory Async_Programs
  imports Step_Systems Async_Await Scheduler
begin

text \<open>
  Programs of tasks (\<open>ice/async.hpp\<close>) that await each other and move between schedulers
  (\<open>ice/scheduler.hpp\<close>): coroutine frames with the promises of the task theory, the queues of the
  schedulers, and threads, each in the middle of calls to \<open>resume\<close>. The outermost task is started by its
  starter with a callback. Whatever the threads do, such a program computes what it says as a program of
  ordinary functions with exceptions. A thread that serves a scheduler may take the next coroutine of its
  queue at any time: that it is woken for it is not part of this model. A context can lose the notification,
  and the interruption of a service can fail; both are shown in the theories of those schedulers.
\<close>

section \<open>Programs\<close>

text \<open>
  The body of a coroutine: it returns, throws, awaits a task that it creates by a call, and goes on with
  the value or the exception, or awaits \<open>schedule\<close> of a scheduler. Schedulers are numbered.
\<close>

datatype ('v, 'e) prog =
    Co_return 'v
  | Co_throw 'e
  | Co_await "('v, 'e) prog" "'e + 'v \<Rightarrow> ('v, 'e) prog"
  | Co_schedule nat bool "('v, 'e) prog"

text \<open>The program as a function: a task is a call, and where it runs does not matter.\<close>

primrec eval :: "('v, 'e) prog \<Rightarrow> 'e + 'v" where
  "eval (Co_return v) = Inr v"
| "eval (Co_throw e) = Inl e"
| "eval (Co_await p k) = (eval \<circ> k) (eval p)"
| "eval (Co_schedule n always p) = eval p"

section \<open>Machines\<close>

text \<open>
  A coroutine is at a point of its body, running or suspended there; it awaits a task whose frame is
  given; or it is suspended at its final suspend point.
\<close>

datatype ('v, 'e) point =
    At "('v, 'e) prog"
  | Awaits addr "'e + 'v \<Rightarrow> ('v, 'e) prog"
  | At_final

record ('v, 'e) co_frame =
  f_point :: "('v, 'e) point"
  f_promise :: "('v, 'e) promise"

text \<open>
  What a thread is in the middle of: the body of a coroutine; \<open>await_suspend\<close> of a coroutine for a task, or
  \<open>start\<close> of the starter, after the call of \<open>resume\<close>. A final suspend point that resumed a continuation does
  nothing more when that returns, so it leaves no entry.
\<close>

datatype pending_call = Running addr | Suspending addr addr | Starting addr

record ('v, 'e) machine =
  m_frames :: "addr \<rightharpoonup> ('v, 'e) co_frame"
  m_queue :: "nat \<Rightarrow> addr list"
  m_calls :: "nat \<Rightarrow> pending_call list"
  m_answers :: "('e + 'v) list"

text \<open>The call of a coroutine creates its frame, suspended at its initial suspend point.\<close>

definition new_frame :: "('v, 'e) prog \<Rightarrow> ('v, 'e) co_frame" where
  "new_frame p = \<lparr>f_point = At p, f_promise = new_promise\<rparr>"

text \<open>
  \<open>start\<close> on the task \<open>root\<close>, called by thread \<open>t\<close> before it runs a scheduler, if it ever does; it resumes
  the coroutine. The callback is number 1.
\<close>

definition root_continuation :: continuation where
  "root_continuation = continuation_of_callback 1 0"

definition started :: "nat \<Rightarrow> addr \<Rightarrow> ('v, 'e) prog \<Rightarrow> ('v, 'e) machine" where
  "started t root p =
     \<lparr>m_frames = [root \<mapsto> new_frame p], m_queue = (\<lambda>_. []),
      m_calls = (\<lambda>_. [])(t := [Running root, Starting root]), m_answers = []\<rparr>"

text \<open>\<open>runs\<close> says which scheduler a thread runs, if any; it does so when \<open>start\<close> has returned.\<close>

definition on_scheduler :: "(nat \<Rightarrow> nat option) \<Rightarrow> nat \<Rightarrow> nat \<Rightarrow> pending_call list \<Rightarrow> bool" where
  "on_scheduler runs n t calls \<longleftrightarrow> runs t = Some n \<and> (\<forall>c. Starting c \<notin> set calls)"

text \<open>
  \<open>await_resume\<close> of the coroutine \<open>c\<close>, which reads the result of the task it awaits, and the end of the
  full expression, where the task object destroys the frame. A frame that is gone, a result that was
  not built and a value that was not built but is destroyed are \<^const>\<open>None\<close>.
\<close>

definition go_on :: "addr \<Rightarrow> (addr \<rightharpoonup> ('v, 'e) co_frame) \<Rightarrow> (addr \<rightharpoonup> ('v, 'e) co_frame) option" where
  "go_on c F =
     (case F c of
        None \<Rightarrow> None
      | Some f \<Rightarrow>
          (case f_point f of
             Awaits d k \<Rightarrow>
               (case F d of
                  None \<Rightarrow> None
                | Some g \<Rightarrow>
                    (case (promise_result (f_promise g), promise_destroy (f_promise g)) of
                       (Some r, Some _) \<Rightarrow> Some (F(c \<mapsto> f\<lparr>f_point := At (k r)\<rparr>, d := None))
                     | _ \<Rightarrow> None))
           | _ \<Rightarrow> None))"

text \<open>The end of a body: the promise takes the value or the exception.\<close>

fun ends_with :: "('v, 'e) prog \<Rightarrow> ('v, 'e) promise \<Rightarrow> ('v, 'e) promise option" where
  "ends_with (Co_return v) pr = Some (return_value v pr)"
| "ends_with (Co_throw e) pr = Some (unhandled_exception e pr)"
| "ends_with p pr = None"

text \<open>The callback reads the result of the task that was started.\<close>

definition root_answer :: "addr \<Rightarrow> (addr \<rightharpoonup> ('v, 'e) co_frame) \<Rightarrow> ('e + 'v) option" where
  "root_answer root F = (case F root of None \<Rightarrow> None | Some f \<Rightarrow> promise_result (f_promise f))"

abbreviation calls_to :: "nat \<Rightarrow> pending_call list \<Rightarrow> ('v, 'e) machine \<Rightarrow> ('v, 'e) machine" where
  "calls_to t cs w \<equiv> w\<lparr>m_calls := (m_calls w)(t := cs)\<rparr>"

section \<open>Steps\<close>

text \<open>
  A step of thread \<open>t\<close>: to the next access that other threads can see. A new frame may have any address
  that is not in use.
\<close>

inductive prog_step ::
    "(nat \<Rightarrow> nat option) \<Rightarrow> addr \<Rightarrow> nat \<Rightarrow> ('v, 'e) machine \<Rightarrow> ('v, 'e) machine \<Rightarrow> bool" for runs root t where
  await_task:
    "m_calls w t = Running c # st \<Longrightarrow> m_frames w c = Some f \<Longrightarrow> f_point f = At (Co_await p k) \<Longrightarrow>
     d \<noteq> 0 \<Longrightarrow> m_frames w d = None \<Longrightarrow>
     prog_step runs root t w
       (calls_to t (Running d # Suspending c d # st)
          (w\<lparr>m_frames := (m_frames w)(c \<mapsto> f\<lparr>f_point := Awaits d k\<rparr>, d \<mapsto> new_frame p)\<rparr>))"
| schedule_stay:
    "m_calls w t = Running c # st \<Longrightarrow> m_frames w c = Some f \<Longrightarrow> f_point f = At (Co_schedule n always p) \<Longrightarrow>
     schedule_ready (on_scheduler runs n t (Running c # st)) always \<Longrightarrow>
     prog_step runs root t w (w\<lparr>m_frames := (m_frames w)(c \<mapsto> f\<lparr>f_point := At p\<rparr>)\<rparr>)"
| schedule_post:
    "m_calls w t = Running c # st \<Longrightarrow> m_frames w c = Some f \<Longrightarrow> f_point f = At (Co_schedule n always p) \<Longrightarrow>
     \<not> schedule_ready (on_scheduler runs n t (Running c # st)) always \<Longrightarrow>
     prog_step runs root t w
       (calls_to t st
          (w\<lparr>m_frames := (m_frames w)(c \<mapsto> f\<lparr>f_point := At p\<rparr>),
             m_queue := (m_queue w)(n := m_queue w n @ [c])\<rparr>))"
| end_first:
    "m_calls w t = Running c # st \<Longrightarrow> m_frames w c = Some f \<Longrightarrow> f_point f = At p \<Longrightarrow>
     ends_with p (f_promise f) = Some pr1 \<Longrightarrow> final_exchange pr1 = (None, pr2) \<Longrightarrow>
     prog_step runs root t w
       (calls_to t st (w\<lparr>m_frames := (m_frames w)(c \<mapsto> f\<lparr>f_point := At_final, f_promise := pr2\<rparr>)\<rparr>))"
| end_resumes:
    "m_calls w t = Running c # st \<Longrightarrow> m_frames w c = Some f \<Longrightarrow> f_point f = At p \<Longrightarrow>
     ends_with p (f_promise f) = Some pr1 \<Longrightarrow> final_exchange pr1 = (Some cont, pr2) \<Longrightarrow>
     continuation_resume cont = Resume_coroutine b \<Longrightarrow>
     go_on b ((m_frames w)(c \<mapsto> f\<lparr>f_point := At_final, f_promise := pr2\<rparr>)) = Some F \<Longrightarrow>
     prog_step runs root t w (calls_to t (Running b # st) (w\<lparr>m_frames := F\<rparr>))"
| end_calls_back:
    "m_calls w t = Running c # st \<Longrightarrow> m_frames w c = Some f \<Longrightarrow> f_point f = At p \<Longrightarrow>
     ends_with p (f_promise f) = Some pr1 \<Longrightarrow> final_exchange pr1 = (Some cont, pr2) \<Longrightarrow>
     continuation_resume cont = Call_callback fn arg \<Longrightarrow>
     root_answer root ((m_frames w)(c \<mapsto> f\<lparr>f_point := At_final, f_promise := pr2\<rparr>)) = Some r \<Longrightarrow>
     prog_step runs root t w
       (calls_to t st
          (w\<lparr>m_frames := (m_frames w)(c \<mapsto> f\<lparr>f_point := At_final, f_promise := pr2\<rparr>), m_answers := m_answers w @ [r]\<rparr>))"
| suspend_stays:
    "m_calls w t = Suspending c d # st \<Longrightarrow> m_frames w d = Some g \<Longrightarrow>
     try_set_continuation (continuation_of_awaiter c) (f_promise g) = (True, pr) \<Longrightarrow>
     prog_step runs root t w
       (calls_to t st (w\<lparr>m_frames := (m_frames w)(d \<mapsto> g\<lparr>f_promise := pr\<rparr>)\<rparr>))"
| suspend_goes:
    "m_calls w t = Suspending c d # st \<Longrightarrow> m_frames w d = Some g \<Longrightarrow>
     try_set_continuation (continuation_of_awaiter c) (f_promise g) = (False, pr) \<Longrightarrow>
     go_on c ((m_frames w)(d \<mapsto> g\<lparr>f_promise := pr\<rparr>)) = Some F \<Longrightarrow>
     prog_step runs root t w (calls_to t (Running c # st) (w\<lparr>m_frames := F\<rparr>))"
| start_stays:
    "m_calls w t = Starting d # st \<Longrightarrow> m_frames w d = Some g \<Longrightarrow>
     try_set_continuation root_continuation (f_promise g) = (True, pr) \<Longrightarrow>
     prog_step runs root t w
       (calls_to t st (w\<lparr>m_frames := (m_frames w)(d \<mapsto> g\<lparr>f_promise := pr\<rparr>)\<rparr>))"
| start_goes:
    "m_calls w t = Starting d # st \<Longrightarrow> m_frames w d = Some g \<Longrightarrow>
     try_set_continuation root_continuation (f_promise g) = (False, pr) \<Longrightarrow>
     root_answer root ((m_frames w)(d \<mapsto> g\<lparr>f_promise := pr\<rparr>)) = Some r \<Longrightarrow>
     prog_step runs root t w
       (calls_to t st
          (w\<lparr>m_frames := (m_frames w)(d \<mapsto> g\<lparr>f_promise := pr\<rparr>), m_answers := m_answers w @ [r]\<rparr>))"
| resume_next:
    "m_calls w t = [] \<Longrightarrow> runs t = Some n \<Longrightarrow> m_queue w n = c # cs \<Longrightarrow>
     prog_step runs root t w (calls_to t [Running c] (w\<lparr>m_queue := (m_queue w)(n := cs)\<rparr>))"

definition any_step ::
    "(nat \<Rightarrow> nat option) \<Rightarrow> addr \<Rightarrow> ('v, 'e) machine \<Rightarrow> ('v, 'e) machine \<Rightarrow> bool" where
  "any_step runs root w v \<longleftrightarrow> (\<exists>t. prog_step runs root t w v)"

section \<open>The chain of tasks\<close>

text \<open>
  At any time the frames form a chain: the innermost coroutine \<open>c\<close> and those that await each other,
  outwards, with what each does with the result it awaits. \<open>unwind\<close> is what comes out at the end of the
  chain.
\<close>

fun task_chain ::
    "(addr \<rightharpoonup> ('v, 'e) co_frame) \<Rightarrow> addr \<Rightarrow> addr list \<Rightarrow> ('e + 'v \<Rightarrow> ('v, 'e) prog) list \<Rightarrow> bool" where
  "task_chain F d [] [] = True"
| "task_chain F d (c # cs) (k # ks) = ((\<exists>f. F c = Some f \<and> f_point f = Awaits d k) \<and> task_chain F c cs ks)"
| "task_chain F d _ _ = False"

fun unwind :: "'e + 'v \<Rightarrow> ('e + 'v \<Rightarrow> ('v, 'e) prog) list \<Rightarrow> 'e + 'v" where
  "unwind r [] = r"
| "unwind r (k # ks) = unwind (eval (k r)) ks"

text \<open>Each link of the chain is made by a call that is pending on some thread, or was left to the promise.\<close>

fun links :: "addr list \<Rightarrow> pending_call list" where
  "links [] = []"
| "links [c] = [Starting c]"
| "links (d # c # cs) = Suspending c d # links (c # cs)"

fun target :: "pending_call \<Rightarrow> addr" where
  "target (Running c) = c"
| "target (Suspending c d) = d"
| "target (Starting c) = c"

fun cont_of :: "pending_call \<Rightarrow> continuation" where
  "cont_of (Suspending c d) = continuation_of_awaiter c"
| "cont_of _ = root_continuation"

text \<open>The one place where the innermost coroutine is: running, in a queue, or at its end.\<close>

datatype token = On nat | In nat | Ended

fun place :: "token \<Rightarrow> addr \<Rightarrow> (nat \<Rightarrow> pending_call list) \<Rightarrow> nat \<Rightarrow> pending_call list" where
  "place (On t) c stk = stk(t := Running c # stk t)"
| "place _ c stk = stk"

fun waitq :: "token \<Rightarrow> addr \<Rightarrow> nat \<Rightarrow> addr list" where
  "waitq (In n) c = (\<lambda>_. [])(n := [c])"
| "waitq _ c = (\<lambda>_. [])"

text \<open>
  A link whose call is pending has its flag set exactly when the task has ended; any other was left to
  the promise of the task, which has not ended.
\<close>

definition link_ok :: "('v, 'e) co_frame \<Rightarrow> bool \<Rightarrow> pending_call \<Rightarrow> bool" where
  "link_ok f pending x \<longleftrightarrow>
     (if pending then p_state (f_promise f) \<longleftrightarrow> f_point f = At_final
      else p_state (f_promise f) \<and> p_continuation (f_promise f) = cont_of x \<and> f_point f \<noteq> At_final)"

definition still_pending :: "(nat \<Rightarrow> pending_call list) \<Rightarrow> pending_call \<Rightarrow> bool" where
  "still_pending stk x \<longleftrightarrow> (\<exists>t. x \<in> set (stk t))"

definition stacks_ok :: "pending_call list \<Rightarrow> (nat \<Rightarrow> pending_call list) \<Rightarrow> bool" where
  "stacks_ok ls stk \<longleftrightarrow>
     distinct (map target ls) \<and>
     (\<forall>t. subseq (stk t) ls) \<and>
     (\<forall>x t u. x \<in> set (stk t) \<longrightarrow> x \<in> set (stk u) \<longrightarrow> t = u)"

definition links_ok ::
    "(addr \<rightharpoonup> ('v, 'e) co_frame) \<Rightarrow> pending_call list \<Rightarrow> (nat \<Rightarrow> pending_call list) \<Rightarrow> bool" where
  "links_ok F ls stk \<longleftrightarrow>
     stacks_ok ls stk \<and> (\<forall>x\<in>set ls. \<exists>f. F (target x) = Some f \<and> link_ok f (still_pending stk x) x)"

text \<open>What the innermost coroutine still has to do, or the result it ended with.\<close>

datatype ('v, 'e) rest = Do "('v, 'e) prog" | Got "'e + 'v"

fun worth :: "('v, 'e) rest \<Rightarrow> ('e + 'v \<Rightarrow> ('v, 'e) prog) list \<Rightarrow> 'e + 'v" where
  "worth (Do p) ks = unwind (eval p) ks"
| "worth (Got r) ks = unwind r ks"

fun innermost :: "token \<Rightarrow> ('v, 'e) rest \<Rightarrow> ('v, 'e) co_frame \<Rightarrow> bool" where
  "innermost tok (Do p) f = (f_point f = At p \<and> tok \<noteq> Ended \<and> no_result (f_promise f))"
| "innermost tok (Got r) f = (f_point f = At_final \<and> tok = Ended \<and> promise_result (f_promise f) = Some r)"

text \<open>
  The states on the way to the result \<open>v\<close>, with what the machine does not record, and the states at the
  end.
\<close>

definition live ::
    "addr \<Rightarrow> 'e + 'v \<Rightarrow> addr \<Rightarrow> addr list \<Rightarrow> ('v, 'e) rest \<Rightarrow> ('e + 'v \<Rightarrow> ('v, 'e) prog) list \<Rightarrow> token \<Rightarrow>
     (nat \<Rightarrow> pending_call list) \<Rightarrow> ('v, 'e) machine \<Rightarrow> bool" where
  "live root v c os x ks tok stk w \<longleftrightarrow>
     last (c # os) = root \<and> dom (m_frames w) = set (c # os) \<and> task_chain (m_frames w) c os ks \<and>
     m_calls w = place tok c stk \<and> m_queue w = waitq tok c \<and> m_answers w = [] \<and>
     links_ok (m_frames w) (links (c # os)) stk \<and> worth x ks = v \<and>
     (\<exists>f. m_frames w c = Some f \<and> innermost tok x f) \<and>
     (\<forall>b\<in>set os. \<exists>f. m_frames w b = Some f \<and> no_result (f_promise f))"

definition over :: "addr \<Rightarrow> 'e + 'v \<Rightarrow> ('v, 'e) machine \<Rightarrow> bool" where
  "over root v w \<longleftrightarrow>
     dom (m_frames w) = {root} \<and> m_calls w = (\<lambda>_. []) \<and> m_queue w = (\<lambda>_. []) \<and> m_answers w = [v]"

section \<open>Facts on links\<close>

lemma map_target_links [simp]: "map target (links cs) = cs"
  by (induction cs rule: links.induct) simp_all

lemma target_links: "x \<in> set (links cs) \<Longrightarrow> target x \<in> set cs"
  by (metis map_target_links image_eqI set_map)

lemma links_Cons: "links (c # cs) = (if cs = [] then Starting c else Suspending (hd cs) c) # links cs"
  by (cases cs) simp_all

lemma Running_links [simp]: "Running c \<notin> set (links cs)"
  by (induction cs rule: links.induct) auto

lemma stacks_okD:
  assumes "stacks_ok ls stk"
  shows "distinct ls" and "subseq (stk t) ls" and "distinct (stk t)"
    and "x \<in> set (stk t) \<Longrightarrow> x \<in> set ls" and "x \<in> set (stk t) \<Longrightarrow> x \<in> set (stk u) \<Longrightarrow> u = t"
proof -
  show d: "distinct ls" and s: "subseq (stk t) ls" using assms by (auto simp: stacks_ok_def distinct_map)
  from s obtain N where "stk t = nths ls N" by (auto simp: subseq_conv_nths)
  with d show "distinct (stk t)" by (simp add: distinct_nthsI)
  show "x \<in> set (stk t) \<Longrightarrow> x \<in> set ls" using s by (auto dest: list_emb_set)
  show "x \<in> set (stk t) \<Longrightarrow> x \<in> set (stk u) \<Longrightarrow> u = t" using assms by (auto simp: stacks_ok_def)
qed

lemma stacks_ok_target:
  "stacks_ok ls stk \<Longrightarrow> x \<in> set ls \<Longrightarrow> y \<in> set ls \<Longrightarrow> target x = target y \<Longrightarrow> x = y"
  by (auto simp: stacks_ok_def distinct_map dest: inj_onD)

lemma links_ok_stacks: "links_ok F ls stk \<Longrightarrow> stacks_ok ls stk"
  by (simp add: links_ok_def)

lemma links_ok_link:
  assumes "links_ok F ls stk" and "x \<in> set ls"
  obtains f where "F (target x) = Some f" "link_ok f (still_pending stk x) x"
  using assms by (auto simp: links_ok_def)

text \<open>Frames may change as long as flags, continuations and ends stay.\<close>

lemma links_ok_cong:
  assumes "links_ok F ls stk"
    and "\<And>x f. x \<in> set ls \<Longrightarrow> F (target x) = Some f \<Longrightarrow>
           \<exists>g. G (target x) = Some g \<and> f_promise g = f_promise f \<and> (f_point g = At_final \<longleftrightarrow> f_point f = At_final)"
  shows "links_ok G ls stk"
proof -
  have "\<exists>g. G (target x) = Some g \<and> link_ok g (still_pending stk x) x" if x: "x \<in> set ls" for x
  proof -
    obtain f where f: "F (target x) = Some f" "link_ok f (still_pending stk x) x" using links_ok_link [OF assms(1) x] .
    from assms(2) [OF x f(1)] f(2) show ?thesis by (auto simp: link_ok_def)
  qed
  with assms(1) show ?thesis by (simp add: links_ok_def)
qed

text \<open>A call that begins to wait; a call at the top that comes back; a link without a call that goes.\<close>

lemma still_pending_push [simp]: "still_pending (stk(t := x # stk t)) y \<longleftrightarrow> y = x \<or> still_pending stk y"
  by (auto simp: still_pending_def)

lemma still_pending_pop:
  assumes "stacks_ok ls stk" and "stk t = x # st"
  shows "still_pending (stk(t := st)) y \<longleftrightarrow> still_pending stk y \<and> y \<noteq> x"
proof -
  have "distinct (x # st)" using stacks_okD(3) [OF assms(1), of t] assms(2) by simp
  moreover have "u = t" if "x \<in> set (stk u)" for u
    using stacks_okD(5) [OF assms(1), of x t u] that assms(2) by simp
  ultimately have "y \<in> set ((stk(t := st)) u) \<longleftrightarrow> y \<in> set (stk u) \<and> y \<noteq> x" for u
    using assms(2) by (cases "u = t") auto
  then show ?thesis by (simp add: still_pending_def)
qed

lemma stacks_ok_push:
  assumes "stacks_ok ls stk" and "target x \<notin> set (map target ls)"
  shows "stacks_ok (x # ls) (stk(t := x # stk t))"
proof -
  have "x \<notin> set (stk u)" for u using assms(2) stacks_okD(4) [OF assms(1), of x u] by auto
  with assms show ?thesis by (auto simp: stacks_ok_def split: if_splits)
qed

lemma stacks_ok_pop:
  assumes "stacks_ok ls stk" and "stk t = x # st"
  shows "stacks_ok ls (stk(t := st))"
proof -
  have sub: "set ((stk(t := st)) u) \<subseteq> set (stk u)" for u using assms(2) by auto
  have "subseq ((stk(t := st)) u) ls" for u
    using stacks_okD(2) [OF assms(1), of u] assms(2) by (auto dest: subseq_Cons')
  moreover have "u = v" if "y \<in> set ((stk(t := st)) u)" "y \<in> set ((stk(t := st)) v)" for y u v
    using that sub stacks_okD(5) [OF assms(1), of y v u] by blast
  ultimately show ?thesis using assms(1) unfolding stacks_ok_def by blast
qed

lemma stacks_ok_drop:
  assumes "stacks_ok (x # ls) stk" and "\<not> still_pending stk x"
  shows "stacks_ok ls stk"
proof -
  have "subseq (stk t) ls" for t
  proof -
    have "x \<notin> set (stk t)" using assms(2) by (auto simp: still_pending_def)
    then show ?thesis using stacks_okD(2) [OF assms(1), of t] by (cases "stk t") (auto split: if_splits)
  qed
  with assms(1) show ?thesis by (simp add: stacks_ok_def)
qed

lemma links_ok_push:
  assumes "links_ok F ls stk" and "target x \<notin> set (map target ls)"
    and "F (target x) = Some f" and "link_ok f True x"
  shows "links_ok F (x # ls) (stk(t := x # stk t))"
proof -
  have "\<exists>g. F (target y) = Some g \<and> link_ok g (still_pending (stk(t := x # stk t)) y) y"
    if "y \<in> set (x # ls)" for y
  proof (cases "y = x")
    case True
    with assms(3,4) show ?thesis by simp
  next
    case False
    with that have "y \<in> set ls" by simp
    from links_ok_link [OF assms(1) this] False show ?thesis by auto
  qed
  then show ?thesis
    using stacks_ok_push [OF links_ok_stacks [OF assms(1)] assms(2)] by (simp add: links_ok_def)
qed

lemma links_ok_drop:
  "links_ok F (x # ls) stk \<Longrightarrow> \<not> still_pending stk x \<Longrightarrow> links_ok F ls stk"
  using stacks_ok_drop by (auto simp: links_ok_def)

lemma links_ok_set:
  assumes "links_ok F ls stk" and "x \<in> set ls" and "link_ok g (still_pending stk x) x"
  shows "links_ok (F(target x \<mapsto> g)) ls stk"
proof -
  have "\<exists>h. (F(target x \<mapsto> g)) (target y) = Some h \<and> link_ok h (still_pending stk y) y" if y: "y \<in> set ls" for y
  proof (cases "y = x")
    case True
    with assms(3) show ?thesis by simp
  next
    case False
    then have "target y \<noteq> target x" using stacks_ok_target [OF links_ok_stacks [OF assms(1)] y assms(2)] by blast
    with links_ok_link [OF assms(1) y] show ?thesis by auto
  qed
  with assms(1) show ?thesis by (simp add: links_ok_def)
qed

text \<open>The call at the top comes back: it leaves its continuation, or its link goes.\<close>

lemma links_ok_pop:
  assumes "links_ok F ls stk" and "stk t = x # st" and "link_ok g False x"
  shows "links_ok (F(target x \<mapsto> g)) ls (stk(t := st))"
proof -
  note ok = links_ok_stacks [OF assms(1)]
  have x: "x \<in> set ls" using stacks_okD(4) [OF ok, of x t] assms(2) by simp
  have "\<exists>h. (F(target x \<mapsto> g)) (target y) = Some h \<and> link_ok h (still_pending (stk(t := st)) y) y"
    if y: "y \<in> set ls" for y
  proof (cases "y = x")
    case True
    with assms(3) show ?thesis by (simp add: still_pending_pop [OF ok assms(2)])
  next
    case False
    then have "target y \<noteq> target x" using stacks_ok_target [OF ok y x] by blast
    with False links_ok_link [OF assms(1) y] show ?thesis by (auto simp: still_pending_pop [OF ok assms(2)])
  qed
  with stacks_ok_pop [OF ok assms(2)] show ?thesis by (simp add: links_ok_def)
qed

lemma links_ok_pop_drop:
  assumes "links_ok F (x # ls) stk" and "stk t = x # st"
  shows "links_ok F ls (stk(t := st))"
proof -
  note ok = links_ok_stacks [OF assms(1)]
  have "\<not> still_pending (stk(t := st)) x" by (simp add: still_pending_pop [OF ok assms(2)])
  with stacks_ok_pop [OF ok assms(2)] have "stacks_ok ls (stk(t := st))" by (rule stacks_ok_drop)
  moreover have "\<exists>g. F (target y) = Some g \<and> link_ok g (still_pending (stk(t := st)) y) y" if "y \<in> set ls" for y
  proof -
    have "y \<noteq> x" using that stacks_okD(1) [OF ok] by auto
    moreover have "y \<in> set (x # ls)" using that by simp
    from links_ok_link [OF assms(1) this] obtain g where "F (target y) = Some g" "link_ok g (still_pending stk y) y" .
    ultimately show ?thesis by (auto simp: still_pending_pop [OF ok assms(2)])
  qed
  ultimately show ?thesis by (simp add: links_ok_def)
qed

text \<open>A pending call for the innermost task is at the top of its stack.\<close>

lemma first_on_top:
  assumes "stacks_ok (x # ls) stk" and "x \<in> set (stk t)"
  shows "\<exists>st. stk t = x # st"
proof -
  have "subseq (stk t) (x # ls)" "x \<notin> set ls"
    using stacks_okD(1,2) [OF assms(1)] by simp_all
  with assms(2) show ?thesis by (cases "stk t") (auto split: if_splits dest: list_emb_set)
qed

section \<open>Steps along the chain\<close>

lemma task_chain_cong:
  assumes "\<And>b. b \<in> set os \<Longrightarrow> map_option f_point (G b) = map_option f_point (F b)"
  shows "task_chain G c os ks = task_chain F c os ks"
  using assms
proof (induction F c os ks rule: task_chain.induct)
  case (2 F d c cs k ks)
  have "map_option f_point (G c) = map_option f_point (F c)" using "2.prems" by simp
  then have "(\<exists>f. G c = Some f \<and> f_point f = Awaits d k) \<longleftrightarrow> (\<exists>f. F c = Some f \<and> f_point f = Awaits d k)"
    by (cases "G c"; cases "F c") auto
  moreover have "task_chain G c cs ks = task_chain F c cs ks" using "2.prems" by (intro "2.IH") simp
  ultimately show ?case by simp
qed simp_all

lemma live_frames:
  assumes "live root v c os x ks tok stk w"
  shows "distinct (c # os)" and "stacks_ok (links (c # os)) stk" and "Running a \<notin> set (stk t)"
proof -
  show ok: "stacks_ok (links (c # os)) stk" using assms by (auto simp: live_def dest: links_ok_stacks)
  then show "distinct (c # os)" by (simp add: stacks_ok_def del: links.simps)
  show "Running a \<notin> set (stk t)" using stacks_okD(4) [OF ok] Running_links by blast
qed

text \<open>Who is where.\<close>

lemma live_running:
  assumes "live root v c os x ks tok stk w" and "m_calls w t = Running a # st"
  shows "tok = On t" and "a = c" and "stk t = st"
proof -
  have calls: "place tok c stk t = Running a # st" using assms by (simp add: live_def)
  have "Running a \<notin> set (stk t)" by (rule live_frames [OF assms(1)])
  with calls have "tok = On t \<and> a = c \<and> stk t = st" by (cases tok) (auto split: if_splits)
  then show "tok = On t" "a = c" "stk t = st" by simp_all
qed

lemma live_pending:
  assumes "live root v c os x ks tok stk w" and "m_calls w t = y # st" and "\<And>a. y \<noteq> Running a"
  shows "tok \<noteq> On t" and "stk t = y # st" and "y \<in> set (links (c # os))"
proof -
  have calls: "place tok c stk t = y # st" using assms by (simp add: live_def)
  with assms(3) show "tok \<noteq> On t" by (cases tok) (auto split: if_splits)
  with calls show stk: "stk t = y # st" by (cases tok) (auto split: if_splits)
  show "y \<in> set (links (c # os))" using stacks_okD(4) [OF live_frames(2) [OF assms(1)], of y t] stk by simp
qed

text \<open>\<open>co_await\<close> of a new task: the chain grows.\<close>

lemma live_await:
  assumes live: "live root v c os (Do (Co_await p k)) ks (On t) stk w"
    and f: "m_frames w c = Some f" and d: "m_frames w d = None"
  shows "live root v d (c # os) (Do p) (k # ks) (On t) (stk(t := Suspending c d # stk t))
           (calls_to t (Running d # Suspending c d # stk t)
              (w\<lparr>m_frames := (m_frames w)(c \<mapsto> f\<lparr>f_point := Awaits d k\<rparr>, d \<mapsto> new_frame p)\<rparr>))"
proof -
  let ?F = "(m_frames w)(c \<mapsto> f\<lparr>f_point := Awaits d k\<rparr>, d \<mapsto> new_frame p)"
  have dom: "dom (m_frames w) = set (c # os)" and ok: "links_ok (m_frames w) (links (c # os)) stk"
    and point: "f_point f = At (Co_await p k)" "no_result (f_promise f)"
    using live f by (auto simp: live_def)
  have new: "d \<notin> set (c # os)" using d dom by auto
  have "links_ok ?F (links (c # os)) stk"
  proof (rule links_ok_cong [OF ok])
    fix x g assume x: "x \<in> set (links (c # os))" and g: "m_frames w (target x) = Some g"
    have "target x \<noteq> d" using target_links [OF x] new by blast
    then show "\<exists>h. ?F (target x) = Some h \<and> f_promise h = f_promise g \<and>
        (f_point h = At_final \<longleftrightarrow> f_point g = At_final)"
      using g f point by auto
  qed
  then have "links_ok ?F (Suspending c d # links (c # os)) (stk(t := Suspending c d # stk t))"
    by (rule links_ok_push [where f = "new_frame p"])
       (use new in \<open>auto simp: link_ok_def new_frame_def new_promise_def\<close>)
  moreover have "task_chain ?F c os ks = task_chain (m_frames w) c os ks"
    by (rule task_chain_cong) (use new live_frames(1) [OF live] in auto)
  moreover have "no_result (f_promise (new_frame p))" by (simp add: new_frame_def new_promise_def no_result_def)
  ultimately show ?thesis
    using live new point d dom live_frames(1) [OF live] by (auto simp: live_def new_frame_def)
qed

text \<open>A change of the innermost coroutine's point, and of where it is.\<close>

lemma live_move:
  assumes live: "live root v c os (Do p) ks tok stk w" and f: "m_frames w c = Some f"
    and tok: "tok' \<noteq> Ended" and worth: "eval q = eval p"
    and w': "m_frames w' = (m_frames w)(c \<mapsto> f\<lparr>f_point := At q\<rparr>)" "m_calls w' = place tok' c stk"
      "m_queue w' = waitq tok' c" "m_answers w' = m_answers w"
  shows "live root v c os (Do q) ks tok' stk w'"
proof -
  have ok: "links_ok (m_frames w) (links (c # os)) stk" and point: "f_point f = At p" "no_result (f_promise f)"
    using live f by (auto simp: live_def)
  have "links_ok (m_frames w') (links (c # os)) stk"
    by (rule links_ok_cong [OF ok]) (use w'(1) f point in auto)
  moreover have "task_chain (m_frames w') c os ks = task_chain (m_frames w) c os ks"
    by (rule task_chain_cong) (use w'(1) live_frames(1) [OF live] in auto)
  ultimately show ?thesis
    using live point w' tok worth f live_frames(1) [OF live] by (auto simp: live_def)
qed

text \<open>The innermost task ends.\<close>

lemma ends_with_result:
  assumes "ends_with p pr = Some pr1" and "no_result pr"
  shows "promise_result pr1 = Some (eval p)" "p_state pr1 = p_state pr" "p_continuation pr1 = p_continuation pr"
  using assms by (cases p; auto simp: promise_defs promise_result_def)+

lemma final_exchange_result:
  assumes "final_exchange pr = (whom, pr2)"
  shows "promise_result pr2 = promise_result pr" "p_state pr2" "whom = (if p_state pr then Some (p_continuation pr) else None)"
  using assms by (auto simp: final_exchange_def promise_result_def split: option.split)

lemma live_innermost_link:
  assumes live: "live root v c os x ks tok stk w" and f: "m_frames w c = Some f"
  obtains y where "links (c # os) = y # links os" "target y = c"
    "y = (if os = [] then Starting c else Suspending (hd os) c)" "link_ok f (still_pending stk y) y"
proof -
  let ?y = "if os = [] then Starting c else Suspending (hd os) c"
  have l: "links (c # os) = ?y # links os" by (rule links_Cons)
  have ok: "links_ok (m_frames w) (links (c # os)) stk" using live by (simp add: live_def)
  obtain g where "m_frames w (target ?y) = Some g" "link_ok g (still_pending stk ?y) ?y"
    by (rule links_ok_link [OF ok, of ?y]) (simp add: l)
  moreover have t: "target ?y = c" by simp
  ultimately have "link_ok f (still_pending stk ?y) ?y" using f by simp
  with that [OF l t refl] show ?thesis .
qed

lemma live_end_first:
  assumes live: "live root v c os (Do p) ks (On t) stk w" and f: "m_frames w c = Some f"
    and pr1: "ends_with p (f_promise f) = Some pr1" and pr2: "final_exchange pr1 = (None, pr2)"
  shows "live root v c os (Got (eval p)) ks Ended stk
           (calls_to t (stk t) (w\<lparr>m_frames := (m_frames w)(c \<mapsto> f\<lparr>f_point := At_final, f_promise := pr2\<rparr>)\<rparr>))"
proof -
  let ?g = "f\<lparr>f_point := At_final, f_promise := pr2\<rparr>"
  have point: "f_point f = At p" "no_result (f_promise f)" using live f by (auto simp: live_def)
  note result = ends_with_result [OF pr1 point(2)] and final = final_exchange_result [OF pr2]
  obtain y where y: "links (c # os) = y # links os" "target y = c" "link_ok f (still_pending stk y) y"
    by (rule live_innermost_link [OF live f])
  have "\<not> p_state (f_promise f)" using result(2) final(3) by (auto split: if_splits)
  with y(3) final(2) have "link_ok ?g (still_pending stk y) y" by (simp add: link_ok_def split: if_splits)
  moreover have "links_ok (m_frames w) (links (c # os)) stk" using live by (simp add: live_def)
  ultimately have "links_ok ((m_frames w)(target y \<mapsto> ?g)) (links (c # os)) stk"
    using y(1) by (intro links_ok_set) simp_all
  moreover have "task_chain ((m_frames w)(c \<mapsto> ?g)) c os ks = task_chain (m_frames w) c os ks"
    by (rule task_chain_cong) (use live_frames(1) [OF live] in auto)
  ultimately show ?thesis
    using live f y(2) result(1) final(1) live_frames(1) [OF live] by (auto simp: live_def fun_eq_iff)
qed

lemma go_on_awaiter:
  assumes "F b = Some f" and "f_point f = Awaits c k" and "F c = Some g" and "promise_result (f_promise g) = Some r"
  shows "go_on b F = Some (F(b \<mapsto> f\<lparr>f_point := At (k r)\<rparr>, c := None))"
proof -
  have "promise_destroy (f_promise g) \<noteq> None"
    using assms(4) by (auto simp: promise_destroy_def promise_result_def split: option.splits)
  then show ?thesis using assms by (auto simp: go_on_def)
qed

lemma live_go_on:
  assumes live: "live root v c (b # os) x (k # ks) tok stk w" and b: "m_frames w b = Some f"
    and ok: "links_ok (m_frames w) (links (b # os)) stk'" and worth: "unwind (eval (k r)) ks = v"
    and w': "m_frames w' = (m_frames w)(b \<mapsto> f\<lparr>f_point := At (k r)\<rparr>, c := None)"
      "m_calls w' = place (On t) b stk'" "m_queue w' = (\<lambda>_. [])" "m_answers w' = []"
  shows "live root v b os (Do (k r)) ks (On t) stk' w'"
proof -
  have new: "distinct (c # b # os)" by (rule live_frames(1) [OF live])
  have point: "f_point f = Awaits c k" "no_result (f_promise f)" using live b by (auto simp: live_def)
  have "links_ok (m_frames w') (links (b # os)) stk'"
  proof (rule links_ok_cong [OF ok])
    fix y g assume y: "y \<in> set (links (b # os))" and g: "m_frames w (target y) = Some g"
    have "target y \<noteq> c" using target_links [OF y] new by auto
    then show "\<exists>h. m_frames w' (target y) = Some h \<and> f_promise h = f_promise g \<and>
        (f_point h = At_final \<longleftrightarrow> f_point g = At_final)"
      using g b point w'(1) by auto
  qed
  moreover have "task_chain (m_frames w') b os ks = task_chain (m_frames w) b os ks"
    by (rule task_chain_cong) (use new w'(1) in auto)
  ultimately show ?thesis
    using live b point w' new worth by (auto simp: live_def)
qed

lemma live_end_resumes:
  assumes live: "live root v c os (Do p) ks (On t) stk w" and f: "m_frames w c = Some f"
    and pr1: "ends_with p (f_promise f) = Some pr1" and pr2: "final_exchange pr1 = (Some cont, pr2)"
    and G: "G = (m_frames w)(c \<mapsto> f\<lparr>f_point := At_final, f_promise := pr2\<rparr>)"
  shows "os \<noteq> [] \<Longrightarrow> \<exists>k ks' F. ks = k # ks' \<and> continuation_resume cont = Resume_coroutine (hd os) \<and>
           go_on (hd os) G = Some F \<and>
           live root v (hd os) (tl os) (Do (k (eval p))) ks' (On t) stk
             (calls_to t (Running (hd os) # stk t) (w\<lparr>m_frames := F\<rparr>))"
    and "os = [] \<Longrightarrow> continuation_resume cont = Call_callback 1 0 \<and> root_answer root G = Some v \<and>
           over root v (calls_to t (stk t) (w\<lparr>m_frames := G, m_answers := m_answers w @ [v]\<rparr>))"
proof -
  have point: "f_point f = At p" "no_result (f_promise f)" using live f by (auto simp: live_def)
  note result = ends_with_result [OF pr1 point(2)] and final = final_exchange_result [OF pr2]
  obtain y where y: "links (c # os) = y # links os" "target y = c"
      "y = (if os = [] then Starting c else Suspending (hd os) c)" "link_ok f (still_pending stk y) y"
    by (rule live_innermost_link [OF live f])
  have "p_state (f_promise f)" and cont: "cont = p_continuation (f_promise f)"
    using result(2,3) final(3) by (auto split: if_splits)
  with y(4) point have free: "\<not> still_pending stk y" and cont_y: "cont = cont_of y"
    by (auto simp: link_ok_def split: if_splits)
  have ok: "links_ok (m_frames w) (y # links os) stk" using live y(1) by (simp add: live_def)
  have res: "promise_result pr2 = Some (eval p)" using result(1) final(1) by simp
  {
    assume "os \<noteq> []"
    then obtain b os' where os: "os = b # os'" by (cases os) auto
    from live os obtain k ks' where ks: "ks = k # ks'" by (cases ks) (auto simp: live_def)
    from live os ks obtain h where h: "m_frames w b = Some h" "f_point h = Awaits c k" by (auto simp: live_def)
    have bc: "b \<noteq> c" using live_frames(1) [OF live] os by auto
    have "go_on b G = Some (G(b \<mapsto> h\<lparr>f_point := At (k (eval p))\<rparr>, c := None))"
      by (rule go_on_awaiter) (use G h bc res in auto)
    moreover have "G(b \<mapsto> h\<lparr>f_point := At (k (eval p))\<rparr>, c := None) =
        (m_frames w)(b \<mapsto> h\<lparr>f_point := At (k (eval p))\<rparr>, c := None)"
      using G bc by (simp add: fun_eq_iff)
    moreover have "links_ok (m_frames w) (links (b # os')) stk" using links_ok_drop [OF ok free] os by simp
    then have "live root v b os' (Do (k (eval p))) ks' (On t) stk
        (calls_to t (Running b # stk t) (w\<lparr>m_frames := (m_frames w)(b \<mapsto> h\<lparr>f_point := At (k (eval p))\<rparr>, c := None)\<rparr>))"
      by (rule live_go_on [OF live [unfolded os ks] h(1)]) (use live ks in \<open>auto simp: live_def fun_eq_iff\<close>)
    ultimately show "\<exists>k ks' F. ks = k # ks' \<and> continuation_resume cont = Resume_coroutine (hd os) \<and>
           go_on (hd os) G = Some F \<and>
           live root v (hd os) (tl os) (Do (k (eval p))) ks' (On t) stk
             (calls_to t (Running (hd os) # stk t) (w\<lparr>m_frames := F\<rparr>))"
      using os ks cont_y y(3) by (auto simp: continuation_resume_def continuation_of_awaiter_def)
  next
    assume os: "os = []"
    with live have ks: "ks = []" and root: "c = root" by (cases ks; simp add: live_def)+
    have "stk u = []" for u
    proof -
      have "Starting c \<notin> set (stk u)" using free y(3) os by (auto simp: still_pending_def)
      moreover have "subseq (stk u) [Starting c]" using stacks_okD(2) [OF live_frames(2) [OF live]] os by simp
      ultimately show ?thesis by (cases "stk u") (auto split: if_splits)
    qed
    then have "m_calls (calls_to t (stk t) w) = (\<lambda>_. [])" using live by (auto simp: live_def fun_eq_iff)
    moreover have "v = eval p" using live ks by (simp add: live_def)
    ultimately show "continuation_resume cont = Call_callback 1 0 \<and> root_answer root G = Some v \<and>
           over root v (calls_to t (stk t) (w\<lparr>m_frames := G, m_answers := m_answers w @ [v]\<rparr>))"
      using os root res G cont_y y(3) live
      by (auto simp: over_def live_def root_answer_def root_continuation_def continuation_resume_def
          continuation_of_callback_def)
  }
qed

text \<open>A call that was pending comes back: it leaves its continuation, or finds the task ended.\<close>

lemma live_pending_link:
  assumes live: "live root v c os x ks tok stk w" and calls: "m_calls w t = y # st"
    and y: "\<And>a. y \<noteq> Running a" and g: "m_frames w (target y) = Some g"
  shows "p_state (f_promise g) \<longleftrightarrow> tok = Ended \<and> target y = c"
proof -
  note pending = live_pending [OF live calls y]
  have "links_ok (m_frames w) (links (c # os)) stk" using live by (simp add: live_def)
  from links_ok_link [OF this pending(3)] g have "link_ok g (still_pending stk y) y" by auto
  moreover have "still_pending stk y" using pending(2) by (auto simp: still_pending_def intro!: exI [of _ t])
  ultimately have state: "p_state (f_promise g) \<longleftrightarrow> f_point g = At_final" by (simp add: link_ok_def)
  have awaits: "\<exists>d k. f_point g = Awaits d k" if "target y \<noteq> c"
  proof -
    have "target y \<in> set os" using target_links [OF pending(3)] that by simp
    moreover have "task_chain (m_frames w) c os ks" using live by (simp add: live_def)
    then have "\<exists>f d k. m_frames w b = Some f \<and> f_point f = Awaits d k" if "b \<in> set os" for b
      using that by (induction "m_frames w" c os ks rule: task_chain.induct) auto
    ultimately show ?thesis using g by fastforce
  qed
  show ?thesis
  proof (cases "target y = c")
    case True
    with live g have "innermost tok x g" by (auto simp: live_def)
    with state True show ?thesis by (cases x) auto
  next
    case False
    with awaits state show ?thesis by auto
  qed
qed

lemma live_stays:
  assumes live: "live root v c os x ks tok stk w" and calls: "m_calls w t = y # st"
    and y: "\<And>a. y \<noteq> Running a" and g: "m_frames w (target y) = Some g"
    and pr: "try_set_continuation (cont_of y) (f_promise g) = (True, pr)"
  shows "live root v c os x ks tok (stk(t := st))
           (calls_to t st (w\<lparr>m_frames := (m_frames w)(target y \<mapsto> g\<lparr>f_promise := pr\<rparr>)\<rparr>))"
proof -
  let ?g = "g\<lparr>f_promise := pr\<rparr>" and ?F = "(m_frames w)(target y \<mapsto> g\<lparr>f_promise := pr\<rparr>)"
  note pending = live_pending [OF live calls y]
  have set: "\<not> p_state (f_promise g)" "p_state pr" "p_continuation pr = cont_of y"
      "no_result pr = no_result (f_promise g)" "promise_result pr = promise_result (f_promise g)"
    using pr by (auto simp: try_set_continuation_def promise_defs promise_result_def split: option.split)
  have ok: "links_ok (m_frames w) (links (c # os)) stk" using live by (simp add: live_def)
  from links_ok_link [OF this pending(3)] g have "link_ok g (still_pending stk y) y" by auto
  moreover have "still_pending stk y" using pending(2) by (auto simp: still_pending_def intro!: exI [of _ t])
  ultimately have "f_point g \<noteq> At_final" using set(1) by (simp add: link_ok_def)
  then have "links_ok ?F (links (c # os)) (stk(t := st))"
    by (intro links_ok_pop [OF ok pending(2)]) (simp add: link_ok_def set)
  moreover have "task_chain ?F c os ks = task_chain (m_frames w) c os ks"
    by (rule task_chain_cong) (use g in auto)
  moreover have "place tok c (stk(t := st)) = (m_calls w)(t := st)"
    using live pending(1) by (cases tok) (auto simp: live_def fun_eq_iff)
  moreover have "innermost tok x ?g" if "innermost tok x g" using that set by (cases x) auto
  moreover have "insert (target y) (dom (m_frames w)) = dom (m_frames w)" using g by auto
  ultimately show ?thesis
    using live g set by (auto simp: live_def)
qed

lemma live_suspend_goes:
  assumes live: "live root v c os x ks tok stk w" and calls: "m_calls w t = Suspending b d # st"
    and g: "m_frames w d = Some g"
    and pr: "try_set_continuation (continuation_of_awaiter b) (f_promise g) = (False, pr)"
  shows "\<exists>os' k ks' r F. d = c \<and> os = b # os' \<and> x = Got r \<and> ks = k # ks' \<and>
           go_on b ((m_frames w)(d \<mapsto> g\<lparr>f_promise := pr\<rparr>)) = Some F \<and>
           live root v b os' (Do (k r)) ks' (On t) (stk(t := st)) (calls_to t (Running b # st) (w\<lparr>m_frames := F\<rparr>))"
proof -
  let ?y = "Suspending b d"
  note pending = live_pending [OF live calls, simplified]
  have set: "p_state (f_promise g)" "promise_result pr = promise_result (f_promise g)"
    using pr by (auto simp: try_set_continuation_def promise_defs promise_result_def split: option.split)
  have tok: "tok = Ended" and d: "d = c"
    using live_pending_link [OF live calls] g set(1) by auto
  obtain y where y: "links (c # os) = y # links os" "target y = c"
      "y = (if os = [] then Starting c else Suspending (hd os) c)"
    by (rule live_innermost_link [OF live g [unfolded d]])
  have "y \<in> set (links (c # os))" by (simp add: y(1))
  with y(2) pending(3) d have "?y = y"
    using stacks_ok_target [OF live_frames(2) [OF live], of ?y y] by simp
  with y(3) obtain os' where os: "os = b # os'" by (cases os) (auto split: if_splits)
  from live os obtain k ks' where ks: "ks = k # ks'" by (cases ks) (auto simp: live_def)
  from live os ks obtain h where h: "m_frames w b = Some h" "f_point h = Awaits c k" by (auto simp: live_def)
  from live tok g d obtain r where r: "x = Got r" "promise_result (f_promise g) = Some r"
    by (cases x) (auto simp: live_def)
  have bc: "b \<noteq> c" using live_frames(1) [OF live] os by auto
  let ?F = "(m_frames w)(b \<mapsto> h\<lparr>f_point := At (k r)\<rparr>, c := None)"
  have "go_on b ((m_frames w)(c \<mapsto> g\<lparr>f_promise := pr\<rparr>)) =
      Some ((m_frames w)(c \<mapsto> g\<lparr>f_promise := pr\<rparr>, b \<mapsto> h\<lparr>f_point := At (k r)\<rparr>, c := None))"
    by (rule go_on_awaiter [where g = "g\<lparr>f_promise := pr\<rparr>"]) (use h bc r set in simp_all)
  moreover have "(m_frames w)(c \<mapsto> g\<lparr>f_promise := pr\<rparr>, b \<mapsto> h\<lparr>f_point := At (k r)\<rparr>, c := None) = ?F"
    using bc by (simp add: fun_eq_iff)
  moreover have "links_ok (m_frames w) (y # links os) stk" using live y(1) by (simp add: live_def)
  then have "links_ok (m_frames w) (links (b # os')) (stk(t := st))"
    using links_ok_pop_drop [where x = y] pending(2) \<open>?y = y\<close> os by simp
  then have "live root v b os' (Do (k r)) ks' (On t) (stk(t := st)) (calls_to t (Running b # st) (w\<lparr>m_frames := ?F\<rparr>))"
    by (rule live_go_on [OF live [unfolded os ks] h(1)])
       (use live ks r tok in \<open>auto simp: live_def fun_eq_iff\<close>)
  ultimately show ?thesis using d os r ks by auto
qed

lemma live_start_goes:
  assumes live: "live root v c os x ks tok stk w" and calls: "m_calls w t = Starting d # st"
    and g: "m_frames w d = Some g"
    and pr: "try_set_continuation root_continuation (f_promise g) = (False, pr)"
  shows "x = Got v \<and> ks = [] \<and> tok = Ended \<and> root_answer root ((m_frames w)(d \<mapsto> g\<lparr>f_promise := pr\<rparr>)) = Some v \<and>
         over root v (calls_to t st (w\<lparr>m_frames := (m_frames w)(d \<mapsto> g\<lparr>f_promise := pr\<rparr>), m_answers := m_answers w @ [v]\<rparr>))"
proof -
  let ?y = "Starting d"
  note pending = live_pending [OF live calls, simplified]
  have set: "p_state (f_promise g)" "promise_result pr = promise_result (f_promise g)"
    using pr by (auto simp: try_set_continuation_def promise_defs promise_result_def split: option.split)
  have tok: "tok = Ended" and d: "d = c"
    using live_pending_link [OF live calls] g set(1) by auto
  obtain y where y: "links (c # os) = y # links os" "target y = c"
      "y = (if os = [] then Starting c else Suspending (hd os) c)"
    by (rule live_innermost_link [OF live g [unfolded d]])
  have "y \<in> set (links (c # os))" by (simp add: y(1))
  with y(2) pending(3) d have "?y = y"
    using stacks_ok_target [OF live_frames(2) [OF live], of ?y y] by simp
  with y(3) have os: "os = []" by (auto split: if_splits)
  with live have ks: "ks = []" and root: "c = root" by (cases ks; simp add: live_def)+
  from live tok g d have inner: "innermost Ended x g" "worth x [] = v"
    using ks by (auto simp: live_def)
  then have x: "x = Got v" "promise_result (f_promise g) = Some v" by (cases x; simp)+
  have stk: "stacks_ok [Starting c] stk" using live_frames(2) [OF live] os by simp
  have "stk u = (if u = t then [Starting c] else [])" for u
  proof (cases "Starting c \<in> set (stk u)")
    case True
    have "u = t" using stacks_okD(5) [OF stk, of "Starting c" t u] True pending(2) d by simp
    moreover have "subseq (stk u) [Starting c]" by (rule stacks_okD(2) [OF stk])
    with True have "stk u = [Starting c]" by (cases "stk u") (auto split: if_splits)
    ultimately show ?thesis by simp
  next
    case False
    have "subseq (stk u) [Starting c]" by (rule stacks_okD(2) [OF stk])
    with False show ?thesis using pending(2) d by (cases "stk u") (auto split: if_splits)
  qed
  moreover have "st = []" using calculation [of t] pending(2) by simp
  ultimately have "(m_calls w)(t := st) = (\<lambda>_. [])"
    using live tok by (auto simp: live_def fun_eq_iff)
  then show ?thesis using live os d root ks x tok set(2) by (auto simp: over_def live_def root_answer_def)
qed

lemma live_resume:
  assumes live: "live root v c os x ks tok stk w" and calls: "m_calls w t = []"
    and queue: "m_queue w n = b # bs"
  shows "tok = In n" and "b = c"
    and "live root v c os x ks (On t) stk (calls_to t [Running b] (w\<lparr>m_queue := (m_queue w)(n := bs)\<rparr>))"
proof -
  have "waitq tok c n = b # bs" using live queue by (simp add: live_def)
  then have q: "tok = In n" "b = c" "bs = []" by (cases tok; auto split: if_splits)+
  then have "stk t = []" using live calls by (simp add: live_def)
  have "innermost (On t) x f" if "innermost (In n) x f" for f using that by (cases x) simp_all
  then show "tok = In n" "b = c"
      "live root v c os x ks (On t) stk (calls_to t [Running b] (w\<lparr>m_queue := (m_queue w)(n := bs)\<rparr>))"
    using live q \<open>stk t = []\<close> by (auto simp: live_def fun_eq_iff)
qed

section \<open>The order in which programs shrink\<close>

inductive smaller ::
    "('v, 'e) rest \<times> ('e + 'v \<Rightarrow> ('v, 'e) prog) list \<Rightarrow>
     ('v, 'e) rest \<times> ('e + 'v \<Rightarrow> ('v, 'e) prog) list \<Rightarrow> bool" where
  smaller_await: "smaller (Do p, k # ks) (Do (Co_await p k), ks)"
| smaller_schedule: "smaller (Do p, ks) (Do (Co_schedule n always p), ks)"
| smaller_return: "smaller (Got (Inr v), ks) (Do (Co_return v), ks)"
| smaller_throw: "smaller (Got (Inl e), ks) (Do (Co_throw e), ks)"
| smaller_go_on: "smaller (Do (k r), ks) (Got r, k # ks)"

inductive_simps smaller_simps:
  "smaller y (Got r, [])"
  "smaller y (Got r, k # ks)"
  "smaller y (Do (Co_return v), ks)"
  "smaller y (Do (Co_throw e), ks)"
  "smaller y (Do (Co_await p k), ks)"
  "smaller y (Do (Co_schedule n always p), ks)"

lemma accp_only_below:
  assumes "\<And>y. smaller y z \<Longrightarrow> y = x" and "Wellfounded.accp smaller x"
  shows "Wellfounded.accp smaller z"
proof (rule accpI)
  fix y assume "smaller y z"
  with assms show "Wellfounded.accp smaller y" by blast
qed

lemma smaller_accp_go_on:
  "Wellfounded.accp smaller (Do (k r), ks) \<Longrightarrow> Wellfounded.accp smaller (Got r, k # ks)"
  by (rule accp_only_below) (simp_all only: smaller_simps)

lemma smaller_accp_Do:
  assumes "\<And>r. Wellfounded.accp smaller (Got r, ks)"
  shows "Wellfounded.accp smaller (Do p, ks)"
  using assms
proof (induction p arbitrary: ks)
  case (Co_return v)
  show ?case by (rule accp_only_below [OF _ Co_return.prems [of "Inr v"]]) (simp only: smaller_simps)
next
  case (Co_throw e)
  show ?case by (rule accp_only_below [OF _ Co_throw.prems [of "Inl e"]]) (simp only: smaller_simps)
next
  case (Co_await p k)
  have "Wellfounded.accp smaller (Got r, k # ks)" for r
    by (intro smaller_accp_go_on Co_await.IH(2) Co_await.prems rangeI)
  then have "Wellfounded.accp smaller (Do p, k # ks)" by (rule Co_await.IH(1))
  then show ?case by (rule accp_only_below [rotated]) (simp only: smaller_simps)
next
  case (Co_schedule n always p)
  then have "Wellfounded.accp smaller (Do p, ks)" by blast
  then show ?case by (rule accp_only_below [rotated]) (simp only: smaller_simps)
qed

lemma smaller_accp_Got: "Wellfounded.accp smaller (Got r, ks)"
proof (induction ks arbitrary: r)
  case Nil
  show ?case by (rule accpI) (simp only: smaller_simps)
next
  case (Cons k ks)
  then show ?case by (intro smaller_accp_go_on smaller_accp_Do)
qed

lemma wf_smaller: "wf {(y, z). smaller y z}"
proof -
  have "Wellfounded.accp smaller z" for z
  proof (cases z)
    case (Pair x ks)
    then show ?thesis by (cases x) (auto intro: smaller_accp_Do smaller_accp_Got)
  qed
  then have "wfp smaller" by (intro accp_wfpI allI)
  then show ?thesis by (simp add: wfp_def)
qed

text \<open>
  A step shrinks what is left of the program, or else it ends a pending call or takes the coroutine out of
  a queue.
\<close>

definition shrink ::
    "((('v, 'e) rest \<times> ('e + 'v \<Rightarrow> ('v, 'e) prog) list) \<times> nat) rel" where
  "shrink = {(y, z). smaller y z}\<^sup>+ <*lex*> less_than"

definition weight :: "token \<Rightarrow> (nat \<Rightarrow> pending_call list) \<Rightarrow> pending_call list \<Rightarrow> nat" where
  "weight tok stk ls = card {y \<in> set ls. still_pending stk y} + (case tok of On t \<Rightarrow> 0 | _ \<Rightarrow> 1)"

definition prog_rank ::
    "addr \<Rightarrow> 'e + 'v \<Rightarrow> ('v, 'e) machine \<Rightarrow>
     (('v, 'e) rest \<times> ('e + 'v \<Rightarrow> ('v, 'e) prog) list) \<times> nat \<Rightarrow> bool" where
  "prog_rank root v w a \<longleftrightarrow>
     (\<exists>c os x ks tok stk. live root v c os x ks tok stk w \<and> a = ((x, ks), weight tok stk (links (c # os)))) \<or>
     over root v w \<and> a = ((Got v, []), 0)"

lemma wf_shrink: "wf shrink"
  unfolding shrink_def by (intro wf_lex_prod wf_trancl wf_smaller wf_less_than)

lemma shrinkI:
  "smaller x y \<Longrightarrow> ((x, m), (y, n)) \<in> shrink"
  "smaller x y \<Longrightarrow> smaller y z \<Longrightarrow> ((x, m), (z, n)) \<in> shrink"
  "m < n \<Longrightarrow> ((x, m), (x, n)) \<in> shrink"
  by (auto simp: shrink_def intro: trancl.intros)

lemma rank_live:
  "live root v c os x ks tok stk w \<Longrightarrow> ((x, ks), weight tok stk (links (c # os))) = b \<Longrightarrow> (b, a) \<in> shrink \<Longrightarrow>
   \<exists>b. prog_rank root v w b \<and> (b, a) \<in> shrink"
  unfolding prog_rank_def by blast

lemma rank_over: "over root v w \<Longrightarrow> (((Got v, []), 0), a) \<in> shrink \<Longrightarrow> \<exists>b. prog_rank root v w b \<and> (b, a) \<in> shrink"
  unfolding prog_rank_def by blast

lemma ends_smaller: "ends_with p pr = Some pr1 \<Longrightarrow> smaller (Got (eval p), ks) (Do p, ks)"
  by (cases p) (auto intro: smaller.intros)

lemma over_stuck: "over root v w \<Longrightarrow> \<not> prog_step runs root t w u"
  by (auto simp: over_def elim: prog_step.cases)

text \<open>The innermost coroutine of a thread that runs it.\<close>

lemma live_at:
  assumes "live root v c os x ks tok stk w" and "m_calls w t = Running b # st"
    and "m_frames w b = Some f" and "f_point f = At p"
  shows "b = c" and "st = stk t" and "tok = On t" and "x = Do p"
proof -
  note r = live_running [OF assms(1,2)]
  then show "b = c" "st = stk t" "tok = On t" by simp_all
  with assms show "x = Do p" by (cases x) (auto simp: live_def)
qed

lemma weight_pop:
  assumes "live root v c os x ks tok stk w" and "stk t = y # st"
  shows "weight tok (stk(t := st)) (links (c # os)) < weight tok stk (links (c # os))"
proof -
  note ok = live_frames(2) [OF assms(1)]
  let ?still_pending = "\<lambda>stk. {z \<in> set (links (c # os)). still_pending stk z}"
  have "y \<in> set (links (c # os))" using stacks_okD(4) [OF ok, of y t] assms(2) by simp
  moreover have "still_pending stk y" using assms(2) by (auto simp: still_pending_def intro!: exI [of _ t])
  ultimately have "y \<in> ?still_pending stk" by simp
  moreover have "?still_pending (stk(t := st)) = ?still_pending stk - {y}" by (auto simp: still_pending_pop [OF ok assms(2)])
  ultimately have "card (?still_pending (stk(t := st))) < card (?still_pending stk)"
    by (simp only:) (rule card_Diff1_less, simp_all)
  then show ?thesis by (simp add: weight_def)
qed

section \<open>Every step shrinks\<close>

lemma live_step:
  assumes "prog_step runs root t w w'" and live: "live root v c os x ks tok stk w"
    and a: "a = ((x, ks), weight tok stk (links (c # os)))"
  shows "\<exists>b. prog_rank root v w' b \<and> (b, a) \<in> shrink"
  using assms(1)
proof cases
  case (await_task b st f p k d)
  note at = live_at [OF live await_task(2-4)]
  from live_await [OF live [unfolded at(3,4)]] await_task at show ?thesis
    by (intro rank_live [OF _ refl]) (auto simp: a intro: shrinkI(1) smaller.intros)
next
  case (schedule_stay b st f n always p)
  note at = live_at [OF live schedule_stay(2-4)]
  have "live root v c os (Do p) ks (On t) stk w'"
    by (rule live_move [OF live [unfolded at(4)]]) (use live schedule_stay at in \<open>auto simp: live_def\<close>)
  then show ?thesis by (intro rank_live [OF _ refl]) (auto simp: a at intro: shrinkI(1) smaller.intros)
next
  case (schedule_post b st f n always p)
  note at = live_at [OF live schedule_post(2-4)]
  have "live root v c os (Do p) ks (In n) stk w'"
    by (rule live_move [OF live [unfolded at(4)]])
       (use live schedule_post at in \<open>auto simp: live_def fun_eq_iff\<close>)
  then show ?thesis by (intro rank_live [OF _ refl]) (auto simp: a at intro: shrinkI(1) smaller.intros)
next
  case (end_first b st f p pr1 pr2)
  note at = live_at [OF live end_first(2-4)]
  from live_end_first [OF live [unfolded at(3,4)]] end_first at show ?thesis
    by (intro rank_live [OF _ refl]) (auto simp: a intro: shrinkI(1) ends_smaller)
next
  case (end_resumes b st f p pr1 cont pr2 d F)
  note at = live_at [OF live end_resumes(2-4)]
  note ends = live_end_resumes [OF live [unfolded at(3,4)] end_resumes(3) [unfolded at(1)] end_resumes(5,6) refl]
  from ends(2) end_resumes(7) have "os \<noteq> []" by auto
  from ends(1) [OF this] obtain k ks' G where r: "ks = k # ks'" "continuation_resume cont = Resume_coroutine (hd os)"
      "go_on (hd os) ((m_frames w)(c \<mapsto> f\<lparr>f_point := At_final, f_promise := pr2\<rparr>)) = Some G"
      "live root v (hd os) (tl os) (Do (k (eval p))) ks' (On t) stk
         (calls_to t (Running (hd os) # stk t) (w\<lparr>m_frames := G\<rparr>))" by blast
  moreover have "d = hd os" "F = G" using r end_resumes(7,8) at by auto
  ultimately show ?thesis using end_resumes(1) at
    by (intro rank_live [OF _ refl]) (auto simp: a intro: shrinkI(2) [OF smaller_go_on ends_smaller [OF end_resumes(5)]])
next
  case (end_calls_back b st f p pr1 cont pr2 fn arg r)
  note at = live_at [OF live end_calls_back(2-4)]
  note ends = live_end_resumes [OF live [unfolded at(3,4)] end_calls_back(3) [unfolded at(1)] end_calls_back(5,6) refl]
  from ends(1) end_calls_back(7) have os: "os = []" by auto
  with live have ks: "ks = []" by (cases ks) (simp_all add: live_def)
  moreover have "eval p = v" using live at ks by (simp add: live_def)
  ultimately show ?thesis using ends(2) [OF os] end_calls_back at
    by (intro rank_over) (auto simp: a intro!: shrinkI(1) dest: ends_smaller)
next
  case (suspend_stays b d st g pr)
  note stays = live_stays [OF live suspend_stays(2) _ _ suspend_stays(4) [folded cont_of.simps(1) [of b d]]]
  show ?thesis
    using stays suspend_stays(1,3) weight_pop [OF live, of t] live_pending(2) [OF live suspend_stays(2)]
    by (intro rank_live [OF _ refl]) (auto simp: a intro: shrinkI(3))
next
  case (suspend_goes b d st g pr F)
  from live_suspend_goes [OF live suspend_goes(2,3,4)] suspend_goes(5) obtain os' k ks' r where
    r: "x = Got r" "ks = k # ks'"
      "live root v b os' (Do (k r)) ks' (On t) (stk(t := st)) (calls_to t (Running b # st) (w\<lparr>m_frames := F\<rparr>))"
    by auto
  show ?thesis
    using r suspend_goes(1) by (intro rank_live [OF _ refl]) (auto simp: a intro: shrinkI(1) smaller.intros)
next
  case (start_stays d st g pr)
  have "try_set_continuation (cont_of (Starting d)) (f_promise g) = (True, pr)" using start_stays(4) by simp
  note stays = live_stays [OF live start_stays(2) _ _ this]
  show ?thesis
    using stays start_stays(1,3) weight_pop [OF live, of t] live_pending(2) [OF live start_stays(2)]
    by (intro rank_live [OF _ refl]) (auto simp: a intro: shrinkI(3))
next
  case (start_goes d st g pr r)
  from live_start_goes [OF live start_goes(2,3,4)] start_goes(1,5) show ?thesis
    by (intro rank_over) (auto simp: a weight_def intro: shrinkI(3))
next
  case (resume_next n b bs)
  note r = live_resume [OF live resume_next(2,4)]
  with resume_next(1) show ?thesis
    by (intro rank_live [OF _ refl]) (auto simp: a weight_def intro: shrinkI(3))
qed

lemma rank_any_step:
  "prog_rank root v w a \<Longrightarrow> any_step runs root w w' \<Longrightarrow> \<exists>b. prog_rank root v w' b \<and> (b, a) \<in> shrink"
proof -
  assume rank: "prog_rank root v w a" and "any_step runs root w w'"
  then obtain t where step: "prog_step runs root t w w'" by (auto simp: any_step_def)
  with rank show ?thesis using live_step [OF step] over_stuck unfolding prog_rank_def [of _ _ w] by blast
qed

interpretation programs: ranked_system "any_step runs root" "prog_rank root v" shrink for runs root v
  by unfold_locales (rule wf_shrink, rule rank_any_step)

lemma started_live:
  "live root (eval p) root [] (Do p) [] (On t) ((\<lambda>_. [])(t := [Starting root])) (started t root p)"
proof -
  have "links_ok [root \<mapsto> new_frame p] [] (\<lambda>_. [])" by (simp add: links_ok_def stacks_ok_def)
  then have "links_ok [root \<mapsto> new_frame p] (Starting root # []) ((\<lambda>_. [])(t := Starting root # (\<lambda>_. []) t))"
    by (rule links_ok_push [where f = "new_frame p"]) (simp_all add: link_ok_def new_frame_def new_promise_def)
  moreover have "no_result new_promise" by (simp add: new_promise_def no_result_def)
  ultimately show ?thesis by (auto simp: live_def started_def new_frame_def fun_eq_iff)
qed

lemma started_rank: "\<exists>a. prog_rank root (eval p) (started t root p) a"
  using started_live unfolding prog_rank_def by blast

section \<open>No thread is ever stuck in the middle\<close>

lemma live_can_step:
  assumes live: "live root v c os x ks tok stk w" and calls: "m_calls w t = y # st"
  shows "\<exists>w'. prog_step runs root t w w'"
proof (cases y)
  case (Running b)
  note r = live_running [OF live calls [unfolded Running]]
  obtain f where f: "m_frames w b = Some f" and inner: "innermost tok x f" using live r by (auto simp: live_def)
  then obtain p where p: "x = Do p" "f_point f = At p" using r(1) by (cases x) auto
  note step = calls [unfolded Running] f p(2)
  show ?thesis
  proof (cases "ends_with p (f_promise f)")
    case None
    then show ?thesis
    proof (cases p)
      case (Co_await q k)
      have "finite (insert 0 (dom (m_frames w)))" using live by (simp add: live_def)
      then obtain d where "d \<notin> insert 0 (dom (m_frames w))" by (meson ex_new_if_finite infinite_UNIV_nat)
      then show ?thesis using await_task [OF calls [unfolded Running] f, of q k d] p(2) Co_await by (auto simp: domIff)
    next
      case (Co_schedule n always q)
      then show ?thesis using schedule_stay [OF step [unfolded Co_schedule]] schedule_post [OF step [unfolded Co_schedule]] by blast
    qed simp_all
  next
    case (Some pr1)
    obtain whom pr2 where whom: "final_exchange pr1 = (whom, pr2)" by fastforce
    show ?thesis
    proof (cases whom)
      case None
      with end_first [OF step Some] whom show ?thesis by blast
    next
      case (Some cont)
      note ends = live_end_resumes [OF live [unfolded p r(1)] f [unfolded r(2)] \<open>ends_with p (f_promise f) = Some pr1\<close>
          whom [unfolded Some] refl]
      show ?thesis
      proof (cases "os = []")
        case True
        from ends(2) [OF this] show ?thesis
          using end_calls_back [OF step \<open>ends_with p (f_promise f) = Some pr1\<close> whom [unfolded Some]] r(2) by blast
      next
        case False
        from ends(1) [OF this] show ?thesis
          using end_resumes [OF step \<open>ends_with p (f_promise f) = Some pr1\<close> whom [unfolded Some]] r(2) by blast
      qed
    qed
  qed
next
  case (Suspending b d)
  note pending = live_pending [OF live calls [unfolded Suspending], simplified]
  have "links_ok (m_frames w) (links (c # os)) stk" using live by (simp add: live_def)
  from links_ok_link [OF this pending(3)] obtain g where g: "m_frames w d = Some g" by auto
  obtain stays pr where "try_set_continuation (continuation_of_awaiter b) (f_promise g) = (stays, pr)" by fastforce
  then consider "try_set_continuation (continuation_of_awaiter b) (f_promise g) = (True, pr)"
    | "try_set_continuation (continuation_of_awaiter b) (f_promise g) = (False, pr)" by (cases stays) auto
  then show ?thesis
  proof cases
    case 1
    from suspend_stays [OF calls [unfolded Suspending] g 1] show ?thesis by blast
  next
    case 2
    from live_suspend_goes [OF live calls [unfolded Suspending] g 2]
      suspend_goes [OF calls [unfolded Suspending] g 2] show ?thesis by blast
  qed
next
  case (Starting d)
  note pending = live_pending [OF live calls [unfolded Starting], simplified]
  have "links_ok (m_frames w) (links (c # os)) stk" using live by (simp add: live_def)
  from links_ok_link [OF this pending(3)] obtain g where g: "m_frames w d = Some g" by auto
  obtain stays pr where "try_set_continuation root_continuation (f_promise g) = (stays, pr)" by fastforce
  then consider "try_set_continuation root_continuation (f_promise g) = (True, pr)"
    | "try_set_continuation root_continuation (f_promise g) = (False, pr)" by (cases stays) auto
  then show ?thesis
  proof cases
    case 1
    from start_stays [OF calls [unfolded Starting] g 1] show ?thesis by blast
  next
    case 2
    from live_start_goes [OF live calls [unfolded Starting] g 2]
      start_goes [OF calls [unfolded Starting] g 2] show ?thesis by blast
  qed
qed

lemma live_goes_on:
  assumes live: "live root v c os x ks tok stk w" and served: "\<And>n. \<exists>t. runs t = Some n"
  shows "\<exists>w'. any_step runs root w w'"
proof -
  have "\<exists>t w'. prog_step runs root t w w'"
  proof (cases tok)
    case (On t)
    then have "m_calls w t = Running c # stk t" using live by (simp add: live_def)
    from live_can_step [OF live this] show ?thesis by blast
  next
    case (In n)
    obtain t where t: "runs t = Some n" using served by blast
    show ?thesis
    proof (cases "m_calls w t")
      case Nil
      moreover have "m_queue w n = [c]" using live In by (simp add: live_def)
      ultimately show ?thesis using resume_next [of w t runs n c "[]" root] t by blast
    next
      case (Cons y st)
      from live_can_step [OF live this] show ?thesis by blast
    qed
  next
    case Ended
    obtain f where f: "m_frames w c = Some f" "innermost tok x f" using live by (auto simp: live_def)
    then have final: "f_point f = At_final" using Ended by (cases x) auto
    obtain y where "link_ok f (still_pending stk y) y" by (rule live_innermost_link [OF live f(1)])
    with final have "still_pending stk y" by (simp add: link_ok_def split: if_splits)
    then obtain t where "y \<in> set (stk t)" by (auto simp: still_pending_def)
    then obtain z st where "m_calls w t = z # st" using live Ended by (cases "stk t") (auto simp: live_def)
    from live_can_step [OF live this] show ?thesis by blast
  qed
  then show ?thesis by (auto simp: any_step_def)
qed

section \<open>Properties\<close>

lemma reached_cases [consumes 1, case_names live over]:
  assumes "rtranclp (any_step runs root) (started t root p) w"
  obtains (live) c os x ks tok stk where "live root (eval p) c os x ks tok stk w"
  | (over) "over root (eval p) w"
  using programs.ranked.inv_steps [OF assms started_rank] unfolding prog_rank_def by blast

text \<open>
  C11: A program of tasks computes what it computes as a program of functions with exceptions, whichever
  schedulers its coroutines move to and however the threads interleave: the callback is called at most
  once, with that result; and when no thread can go on, it has been called, no call is pending, no
  coroutine is queued, and every frame but that of the first task has been destroyed.
\<close>

theorem program_computes:
  assumes "rtranclp (any_step runs root) (started t root p) w" and "\<And>n. \<exists>t. runs t = Some n"
  shows "m_answers w \<in> {[], [eval p]} \<and>
         ((\<forall>w'. \<not> any_step runs root w w') \<longrightarrow>
            m_answers w = [eval p] \<and> m_calls w = (\<lambda>_. []) \<and> m_queue w = (\<lambda>_. []) \<and> dom (m_frames w) = {root})"
  using assms(1)
proof (cases rule: reached_cases)
  case live
  then have "m_answers w = []" by (simp add: live_def)
  with live_goes_on [OF live assms(2)] show ?thesis by blast
next
  case over
  then show ?thesis by (simp add: over_def)
qed

text \<open>A task that moves to scheduler 1, returns 7 there, and is awaited by one that adds 1.\<close>

definition moving_task :: "(int, int) prog" where
  "moving_task = Co_schedule 1 False (Co_return 7)"

definition adding_task :: "(int, int) prog" where
  "adding_task = Co_await moving_task (case_sum Co_throw (\<lambda>v. Co_return (v + 1)))"

theorem program_computes_witness:
  "\<exists>w. rtranclp (any_step Some 1) (started 0 1 adding_task) w \<and> m_answers w = [Inr 8]"
proof -
  obtain a where "prog_rank 1 (eval adding_task) (started 0 1 adding_task) a"
    using started_rank [of 1 adding_task 0] by auto
  from programs.run_ends [OF this, of Some] obtain w where
    w: "rtranclp (any_step Some 1) (started 0 1 adding_task) w" "\<forall>u. \<not> any_step Some 1 w u" by blast
  have "m_answers w = [eval adding_task]" using program_computes [OF w(1)] w(2) by simp
  with w(1) show ?thesis by (auto simp: adding_task_def moving_task_def)
qed

text \<open>
  C12: Such a program ends, whatever the threads do: no run goes on for ever. And no thread is ever stuck
  in the middle of a call: no frame that is gone is used, no result is read and no value destroyed that
  was not built, and a coroutine is resumed only where it awaits.
\<close>

theorem program_ends:
  assumes "f 0 = started t root p"
  shows "(\<exists>i. \<not> any_step runs root (f i) (f (Suc i))) \<and>
         (rtranclp (any_step runs root) (f 0) w \<and> m_calls w u \<noteq> [] \<longrightarrow> (\<exists>w'. prog_step runs root u w w'))"
proof (intro conjI impI)
  show "\<exists>i. \<not> any_step runs root (f i) (f (Suc i))"
    using programs.no_endless_run [of root "eval p" f runs] started_rank [of root p t] assms by simp
  assume "rtranclp (any_step runs root) (f 0) w \<and> m_calls w u \<noteq> []"
  then have w: "rtranclp (any_step runs root) (started t root p) w" and "m_calls w u \<noteq> []" using assms by simp_all
  then obtain y st where calls: "m_calls w u = y # st" by (cases "m_calls w u") auto
  from w show "\<exists>w'. prog_step runs root u w w'"
  proof (cases rule: reached_cases)
    case live
    from live_can_step [OF live calls] show ?thesis .
  next
    case over
    with calls show ?thesis by (simp add: over_def)
  qed
qed

theorem program_ends_witness:
  "\<exists>w'. prog_step Some 1 0 (started 0 1 adding_task) w'"
  using program_ends [of "\<lambda>_. started 0 1 adding_task" 0 1 adding_task Some "started 0 1 adding_task" 0]
  by (simp add: started_def)

text \<open>
  Where a coroutine goes on after it awaited a task is settled by a race: here the task moves to the
  thread of scheduler 1 and ends there. Its awaiter goes on with it, if it was suspended in time, or else
  stays on the thread that it was on.
\<close>

lemma awaiter_goes_on_anywhere:
  defines "steps \<equiv> rtranclp (any_step ((\<lambda>n. Some n)(0 := None)) 1) (started 0 1 adding_task)"
    and "point \<equiv> At (Co_return 8) :: (int, int) point"
  shows "(\<exists>w f. steps w \<and> m_calls w 0 = [Running 1, Starting 1] \<and> m_frames w 1 = Some f \<and> f_point f = point) \<and>
    (\<exists>w f. steps w \<and> m_calls w 1 = [Running 1] \<and> m_frames w 1 = Some f \<and> f_point f = point)"
proof -
  let ?runs = "(\<lambda>n. Some n)(0 := None) :: nat \<Rightarrow> nat option"
  let ?inner = "Co_schedule 1 False (Co_return 7)"
  let ?rest = "case_sum Co_throw (\<lambda>v. Co_return (v + 1))"
  let ?one = "continuation_of_awaiter 1"
  let ?done = "new_promise\<lparr>p_value := Some 7, p_state := True\<rparr>"
  let ?left = "new_promise\<lparr>p_state := True, p_continuation := ?one\<rparr>"
  have go: "steps w \<Longrightarrow> prog_step ?runs 1 t w u \<Longrightarrow> steps u" for w t u
    unfolding steps_def any_step_def by (blast intro: rtranclp.rtrancl_into_rtrancl)
  have "steps (started 0 1 adding_task)" by (simp add: steps_def)
  note s0 = this [unfolded started_def new_frame_def adding_task_def moving_task_def]
  note s1 = go [OF s0 await_task [of _ 0 1 "[Starting 1]" _ ?inner ?rest 2], simplified, unfolded new_frame_def]
  note s2 = go [OF s1 schedule_post [of _ 0 2 "[Suspending 1 2, Starting 1]" _ 1 False "Co_return 7"],
      simplified, unfolded schedule_ready_def on_scheduler_def, simplified]
  note s3 = go [OF s2 resume_next [of _ 1 _ 1 2 "[]"], simplified]
  note promise = new_promise_def final_exchange_def return_value_def try_set_continuation_def set_continuation_def
    exchange_awaiter_def continuation_of_awaiter_def continuation_resume_def go_on_def promise_result_def
    promise_destroy_def
  note a4 = go [OF s3 end_first [of _ 1 2 "[]" _ "Co_return 7" _ ?done], simplified, unfolded promise, simplified]
  note a5 = go [OF a4 suspend_goes [of _ 0 1 2 "[Starting 1]" _ "?done\<lparr>p_continuation := ?one\<rparr>"], simplified, unfolded promise, simplified]
  note b4 = go [OF s3 suspend_stays [of _ 0 1 2 "[Starting 1]" _ ?left], simplified, unfolded promise, simplified]
  note b5 = go [OF b4 end_resumes [of _ 1 2 "[]" _ "Co_return 7" _ ?one "?done\<lparr>p_continuation := ?one\<rparr>" 1], simplified, unfolded promise, simplified]
  have "\<exists>w f. steps w \<and> m_calls w 0 = [Running 1, Starting 1] \<and> m_frames w 1 = Some f \<and> f_point f = point"
    by (intro exI conjI, rule a5) (simp add: point_def)+
  moreover have "\<exists>w f. steps w \<and> m_calls w 1 = [Running 1] \<and> m_frames w 1 = Some f \<and> f_point f = point"
    by (intro exI conjI, rule b5) (simp add: point_def)+
  ultimately show ?thesis ..
qed

end
