(* ===== verification/Exclusive_Sections.thy ===== *)
theory Exclusive_Sections
  imports Step_Systems Async_Mutex Async_Generator
begin

text \<open>
  What mutual exclusion is for: data that coroutines read and write, by plain accesses, only while they
  are inside an exclusive section. The contract of a provider of such sections is a locale; the mutex
  and the asynchronous generator of \<open>ice/async.hpp\<close> keep it.
\<close>

section \<open>Sections\<close>

text \<open>
  The system that provides the sections, the data, what each coroutine has loaded and not yet stored,
  and, as a ghost, the updates in the order of their stores.
\<close>

record ('s, 'd) sections =
  sys :: 's
  shared :: 'd
  loaded :: "nat \<Rightarrow> 'd option"
  updates :: "(nat \<times> ('d \<Rightarrow> 'd)) list"

definition new_sections :: "'s \<Rightarrow> 'd \<Rightarrow> ('s, 'd) sections" where
  "new_sections s d = \<lparr>sys = s, shared = d, loaded = (\<lambda>_. None), updates = []\<rparr>"

text \<open>
  A coroutine inside a section may load the data, and store what it computes of what it loaded, at any
  later time; it does not leave its section in between. Loads and stores of different coroutines
  interleave as they like.
\<close>

inductive section_step ::
    "('s \<Rightarrow> 's \<Rightarrow> bool) \<Rightarrow> ('s \<Rightarrow> nat \<Rightarrow> bool) \<Rightarrow> ('s, 'd) sections \<Rightarrow> ('s, 'd) sections \<Rightarrow> bool"
    for step inside where
  provider:
    "step (sys w) s \<Longrightarrow> (\<And>t. loaded w t \<noteq> None \<Longrightarrow> inside s t) \<Longrightarrow>
     section_step step inside w (w\<lparr>sys := s\<rparr>)"
| load:
    "inside (sys w) t \<Longrightarrow> loaded w t = None \<Longrightarrow>
     section_step step inside w (w\<lparr>loaded := (loaded w)(t \<mapsto> shared w)\<rparr>)"
| store:
    "loaded w t = Some d \<Longrightarrow>
     section_step step inside w
       (w\<lparr>shared := f d, loaded := (loaded w)(t := None), updates := updates w @ [(t, f)]\<rparr>)"

text \<open>What the updates come to when they are made one after the other.\<close>

definition in_turn :: "(nat \<times> ('d \<Rightarrow> 'd)) list \<Rightarrow> 'd \<Rightarrow> 'd" where
  "in_turn us = fold snd us"

lemma in_turn_simps [simp]: "in_turn [] d = d" "in_turn (us @ [(t, f)]) d = f (in_turn us d)"
  by (simp_all add: in_turn_def)

text \<open>What is loaded was loaded in the section the coroutine is in, and is the data as it is.\<close>

definition sections_ok ::
    "('s \<Rightarrow> bool) \<Rightarrow> ('s \<Rightarrow> nat \<Rightarrow> bool) \<Rightarrow> 'd \<Rightarrow> ('s, 'd) sections \<Rightarrow> bool" where
  "sections_ok good inside d0 w \<longleftrightarrow>
     good (sys w) \<and> (\<forall>t d. loaded w t = Some d \<longrightarrow> inside (sys w) t \<and> d = shared w) \<and>
     shared w = in_turn (updates w) d0"

section \<open>The contract\<close>

locale exclusion = invariant_system step inv
  for step :: "'s \<Rightarrow> 's \<Rightarrow> bool" and inv :: "'s \<Rightarrow> bool" +
  fixes inside :: "'s \<Rightarrow> nat \<Rightarrow> bool"
  assumes exclusive: "inv s \<Longrightarrow> inside s t \<Longrightarrow> inside s u \<Longrightarrow> t = u"
begin

lemma one_loaded:
  assumes "sections_ok inv inside d0 w" and "loaded w t = Some d"
  shows "loaded w u = (if u = t then Some (shared w) else None)"
proof (cases "loaded w u")
  case (Some e)
  with assms have "inv (sys w)" "inside (sys w) t" "inside (sys w) u" by (auto simp: sections_ok_def)
  from exclusive [OF this] Some assms show ?thesis by (auto simp: sections_ok_def)
next
  case None
  with assms show ?thesis by auto
qed

lemma sections_step:
  assumes "sections_ok inv inside d0 w" and "section_step step inside w w'"
  shows "sections_ok inv inside d0 w'"
  using assms(2)
proof cases
  case (provider s)
  with assms(1) inv_step show ?thesis by (fastforce simp: sections_ok_def)
next
  case (load t)
  with assms(1) show ?thesis by (auto simp: sections_ok_def)
next
  case (store t d f)
  with assms(1) one_loaded [OF assms(1) store(2)] show ?thesis by (auto simp: sections_ok_def)
qed

sublocale sections: invariant_system "section_step step inside" "sections_ok inv inside d0" for d0
  using sections_step by unfold_locales

text \<open>No update is lost: the data is what the updates come to, one after the other.\<close>

lemma no_lost_update:
  assumes "rtranclp (section_step step inside) (new_sections s d0) w" and "inv s"
  shows "shared w = in_turn (updates w) d0"
    and "loaded w t = Some d \<Longrightarrow> d = in_turn (updates w) d0"
    and "loaded w t \<noteq> None \<Longrightarrow> loaded w u \<noteq> None \<Longrightarrow> t = u"
proof -
  have "sections_ok inv inside d0 (new_sections s d0)"
    using assms(2) by (simp add: sections_ok_def new_sections_def)
  from sections.inv_steps [OF assms(1) this] have ok: "sections_ok inv inside d0 w" .
  then show s: "shared w = in_turn (updates w) d0" by (simp add: sections_ok_def)
  show "loaded w t = Some d \<Longrightarrow> d = in_turn (updates w) d0" using ok s by (auto simp: sections_ok_def)
  show "loaded w t \<noteq> None \<Longrightarrow> loaded w u \<noteq> None \<Longrightarrow> t = u"
    using one_loaded [OF ok, of t _ u] by (auto split: if_splits)
qed

end

section \<open>The mutex\<close>

text \<open>A coroutine is inside from the moment it owns the lock until it calls \<open>unlock\<close>.\<close>

definition owns_lock :: "mutex_sys \<Rightarrow> nat \<Rightarrow> bool" where
  "owns_lock s t \<longleftrightarrow> pc s t = M_owner"

interpretation mutex_sections: exclusion mutex_step mutex_inv owns_lock
proof
  show "mutex_inv s \<Longrightarrow> mutex_step s t \<Longrightarrow> mutex_inv t" for s t by (rule mutex_step_inv)
  show "mutex_inv s \<Longrightarrow> owns_lock s t \<Longrightarrow> owns_lock s u \<Longrightarrow> t = u" for s t u
    using mutex_holding [of s t] mutex_holding [of s u] by (simp add: owns_lock_def)
qed

text \<open>
  C8: Data that coroutines touch only while they own the asynchronous mutex is updated as if they took
  turns: no update is lost, no coroutine computes with a value that is out of date, and no two are in
  the middle of an update, however the accesses to the mutex and to the data interleave.
\<close>

theorem mutex_sections_serial:
  assumes "rtranclp (section_step mutex_step owns_lock) (new_sections new_mutex d0) w"
  shows "shared w = in_turn (updates w) d0 \<and>
         (\<forall>t d. loaded w t = Some d \<longrightarrow> d = in_turn (updates w) d0) \<and>
         (\<forall>t u. loaded w t \<noteq> None \<and> loaded w u \<noteq> None \<longrightarrow> t = u)"
  using mutex_sections.no_lost_update [OF assms mutex_inv_new] by blast

text \<open>Two coroutines that each add to a sum, the second after the first has unlocked.\<close>

abbreviation resting :: "'s \<Rightarrow> 'd \<Rightarrow> (nat \<times> ('d \<Rightarrow> 'd)) list \<Rightarrow> ('s, 'd) sections" where
  "resting s d us \<equiv> \<lparr>sys = s, shared = d, loaded = (\<lambda>_. None), updates = us\<rparr>"

lemma resting_move:
  assumes "rtranclp (section_step step inside) w0 (resting s d us)" and "step s s'"
  shows "rtranclp (section_step step inside) w0 (resting s' d us)"
proof -
  have "section_step step inside (resting s d us) (resting s' d us)"
    using provider [of step "resting s d us" s' inside] assms(2) by simp
  with assms(1) show ?thesis by (rule rtranclp.rtrancl_into_rtrancl)
qed

lemma resting_update:
  assumes "rtranclp (section_step step inside) w0 (resting s d us)" and "inside s t"
  shows "rtranclp (section_step step inside) w0 (resting s (f d) (us @ [(t, f)]))"
proof -
  let ?w = "resting s d us\<lparr>loaded := [t \<mapsto> d]\<rparr>"
  have "section_step step inside (resting s d us) ?w"
    using load [of inside "resting s d us" t] assms(2) by simp
  moreover have "section_step step inside ?w (resting s (f d) (us @ [(t, f)]))"
    using store [of ?w t d step inside f] by simp
  ultimately show ?thesis using assms(1) by (meson rtranclp.rtrancl_into_rtrancl)
qed

theorem mutex_sections_serial_witness:
  "\<exists>w. rtranclp (section_step mutex_step owns_lock) (new_sections new_mutex (10::int)) w \<and>
       map fst (updates w) = [1, 2] \<and> in_turn (updates w) 10 = 13"
proof -
  let ?run = "\<lambda>s d us. rtranclp (section_step mutex_step owns_lock) (new_sections new_mutex (10::int)) (resting s d us)"
  let ?s1 = "new_mutex\<lparr>m_state := locked_no_waiters, pc := (\<lambda>_. M_idle)(1 := M_owner), holder := Some 1\<rparr>"
  let ?s2 = "new_mutex\<lparr>m_state := locked_no_waiters, pc := (\<lambda>_. M_idle)(2 := M_owner), holder := Some 2\<rparr>"
  note move = resting_move [of mutex_step owns_lock]
  have idle: "(\<lambda>_. M_idle)(t := M_idle) = (\<lambda>_. M_idle)" for t :: nat by auto
  have "?run new_mutex 10 []" by (simp add: new_sections_def)
  then have "?run ?s1 10 []" by (rule move) (use try_lock_ok [of new_mutex 1] in \<open>simp add: new_mutex_def\<close>)
  from resting_update [OF this, of 1 "\<lambda>d. d + 1"] have "?run ?s1 11 [(1, \<lambda>d. d + 1)]"
    by (simp add: owns_lock_def)
  then have "?run (?s1\<lparr>pc := (\<lambda>_. M_idle)(1 := M_release)\<rparr>) 11 [(1, \<lambda>d. d + 1)]"
    by (rule move) (use unlock_no_waiters [of ?s1 1] in \<open>simp add: new_mutex_def\<close>)
  then have "?run new_mutex 11 [(1, \<lambda>d. d + 1)]"
    by (rule move) (use release_ok [of "?s1\<lparr>pc := (\<lambda>_. M_idle)(1 := M_release)\<rparr>" 1] in \<open>simp add: new_mutex_def idle\<close>)
  then have "?run ?s2 11 [(1, \<lambda>d. d + 1)]"
    by (rule move) (use try_lock_ok [of new_mutex 2] in \<open>simp add: new_mutex_def\<close>)
  from resting_update [OF this, of 2 "\<lambda>d. d + 2"] have "?run ?s2 13 [(1, \<lambda>d. d + 1), (2, \<lambda>d. d + 2)]"
    by (simp add: owns_lock_def)
  from mutex_sections_serial [OF this] this show ?thesis by (auto intro!: exI)
qed

section \<open>The asynchronous generator\<close>

text \<open>
  Coroutine 0, the producer, is inside while it runs its body, coroutine 1, the consumer, while it holds
  a value. The data is what the value refers to: a variable in the producer's frame.
\<close>

fun has_turn :: "('a, 'e) generator \<Rightarrow> nat \<Rightarrow> bool" where
  "has_turn s t = (t = 0 \<and> producer s = P_body \<or> t = 1 \<and> consumer s = C_value)"

definition gen_step :: "addr \<Rightarrow> ('a, 'e) generator \<Rightarrow> ('a, 'e) generator \<Rightarrow> bool" where
  "gen_step k s t \<longleftrightarrow> producer_step k s t \<or> consumer_step k s t"

lemma body_without_value: "control g P_body C_value \<Longrightarrow> False"
  by (cases g) (simp_all add: reading_def settled_def)

interpretation generator_sections: exclusion "gen_step k" "gen_inv k" has_turn for k
proof
  show "gen_inv k s \<Longrightarrow> gen_step k s t \<Longrightarrow> gen_inv k t" for s t :: "('a, 'e) generator"
    by (auto simp: gen_step_def intro: producer_step_inv consumer_step_inv)
  show "gen_inv k s \<Longrightarrow> has_turn s t \<Longrightarrow> has_turn s u \<Longrightarrow> t = u" for s :: "('a, 'e) generator" and t u
    using gen_control [of k s] body_without_value by auto
qed

text \<open>
  A variable of a generator's body that the body yields by reference is used by one side at a time:
  whatever the body does with it while it runs and the consumer while it holds the value, comes to the
  same as if they took turns, on whichever threads they run.
\<close>

lemma generator_values_serial:
  assumes "rtranclp (section_step (gen_step k) has_turn) (new_sections new_generator d0) w"
  shows "shared w = in_turn (updates w) d0 \<and>
         (\<forall>t d. loaded w t = Some d \<longrightarrow> d = in_turn (updates w) d0) \<and>
         (\<forall>t u. loaded w t \<noteq> None \<and> loaded w u \<noteq> None \<longrightarrow> t = u)"
  using generator_sections.no_lost_update [OF assms gen_inv_new] by blast

end
