(* ===== verification/Generator_Types.thy ===== *)
theory Generator_Types
  imports Result_Copies
begin

text \<open>
  For which types the generators of \<open>ice/async.hpp\<close> can be used: which values a coroutine of type
  \<open>generator<T>\<close> or \<open>async_generator<T>\<close> can yield and whether its iterators can be dereferenced, by the
  rules of the language for references. Member functions of templates count only when they are used.
\<close>

section \<open>References\<close>

text \<open>A type is an object type, with or without \<open>const\<close>, or a reference to one.\<close>

datatype ref_kind = No_ref | Lvalue_ref | Rvalue_ref

record cpp_type =
  is_const :: bool
  ref :: ref_kind

text \<open>\<open>T&\<close> and \<open>T&&\<close>, by reference collapsing; \<open>remove_reference\<close>.\<close>

definition add_lref :: "cpp_type \<Rightarrow> cpp_type" where
  "add_lref T = T\<lparr>ref := Lvalue_ref\<rparr>"

definition add_rref :: "cpp_type \<Rightarrow> cpp_type" where
  "add_rref T = (if ref T = Lvalue_ref then T else T\<lparr>ref := Rvalue_ref\<rparr>)"

definition remove_ref :: "cpp_type \<Rightarrow> cpp_type" where
  "remove_ref T = T\<lparr>ref := No_ref\<rparr>"

text \<open>
  Whether a variable or a return value of a type can be initialised by an expression of its object type,
  of which the category says whether it is constant. The expression \<open>*p\<close>; a call of a function with a
  given return type.
\<close>

fun binds :: "cpp_type \<Rightarrow> category \<Rightarrow> bool" where
  "binds T c =
     (case ref T of
        No_ref \<Rightarrow> True
      | Lvalue_ref \<Rightarrow> is_const T \<or> c = Lvalue
      | Rvalue_ref \<Rightarrow> c = Rvalue \<or> is_const T \<and> c = Const_rvalue)"

definition pointee :: "cpp_type \<Rightarrow> category" where
  "pointee T = (if is_const T then Const_lvalue else Lvalue)"

definition call_category :: "cpp_type \<Rightarrow> category" where
  "call_category T =
     (if ref T = Lvalue_ref then pointee T else if is_const T \<and> ref T = Rvalue_ref then Const_rvalue else Rvalue)"

section \<open>Synchronous generators\<close>

text \<open>
  \<open>yield_value\<close> has a template for \<open>U&\<close>, where \<open>U\<close> is deduced from the argument and has to be \<open>T\<close>, and an
  overload for \<open>T&&\<close>.
\<close>

definition deduced :: "category \<Rightarrow> cpp_type" where
  "deduced c = \<lparr>is_const = (c = Const_lvalue \<or> c = Const_rvalue), ref = No_ref\<rparr>"

definition can_yield :: "cpp_type \<Rightarrow> category \<Rightarrow> bool" where
  "can_yield T c \<longleftrightarrow> binds (add_lref (deduced c)) c \<and> deduced c = T \<or> binds (add_rref T) c"

text \<open>\<open>value\<close> returns \<open>*m_value\<close> as \<open>reference_type\<close>, and \<open>operator*\<close> that as \<open>value_type&\<close>.\<close>

definition reference_type :: "cpp_type \<Rightarrow> cpp_type" where
  "reference_type T = (if ref T \<noteq> No_ref then T else add_lref T)"

definition dereferences :: "cpp_type \<Rightarrow> bool" where
  "dereferences T \<longleftrightarrow>
     binds (reference_type T) (pointee T) \<and> binds (add_lref (remove_ref T)) (call_category (reference_type T))"

section \<open>Asynchronous generators\<close>

text \<open>
  For \<open>T&&\<close> there is a specialisation with one \<open>yield_value\<close>; otherwise an overload for lvalues and one for
  rvalues, which calls the first. All store the address in a \<open>void*\<close>.
\<close>

definition void_pointer_to :: "cpp_type \<Rightarrow> bool" where
  "void_pointer_to T \<longleftrightarrow> \<not> is_const T"

definition async_yields :: "cpp_type \<Rightarrow> category \<Rightarrow> bool" where
  "async_yields T c \<longleftrightarrow>
     (binds (add_lref (remove_ref T)) c \<or> binds (add_rref (remove_ref T)) c) \<and> void_pointer_to T"

definition async_yields_moved :: "cpp_type \<Rightarrow> category \<Rightarrow> bool" where
  "async_yields_moved T c \<longleftrightarrow> binds T c \<and> void_pointer_to T"

text \<open>
  \<open>value\<close> casts to \<open>T*\<close>, which does not exist for a reference \<open>T\<close>; that of the specialisation returns an
  rvalue. The iterator returns what \<open>value\<close> returns as \<open>add_lvalue_reference_t<T>\<close>.
\<close>

definition pointer_exists :: "cpp_type \<Rightarrow> bool" where
  "pointer_exists T \<longleftrightarrow> ref T = No_ref"

definition async_value :: "cpp_type \<Rightarrow> cpp_type option" where
  "async_value T = (if pointer_exists T then Some (add_lref T) else None)"

definition async_value_moved :: "cpp_type \<Rightarrow> cpp_type option" where
  "async_value_moved T = Some T"

definition async_dereferences :: "cpp_type \<Rightarrow> bool" where
  "async_dereferences T \<longleftrightarrow>
     (case (if ref T = Rvalue_ref then async_value_moved T else async_value T) of
        None \<Rightarrow> False
      | Some R \<Rightarrow> binds (add_lref T) (call_category R))"

section \<open>Which generators can be used\<close>

lemmas type_defs =
  add_lref_def add_rref_def remove_ref_def pointee_def call_category_def deduced_def can_yield_def reference_type_def
  dereferences_def void_pointer_to_def async_yields_def async_yields_moved_def pointer_exists_def
  async_value_def async_value_moved_def async_dereferences_def

text \<open>
  What a \<open>generator<T>\<close> can yield; for an object type, an lvalue only if it is constant exactly when \<open>T\<close>
  is.
\<close>

lemma can_yield_iff:
  "can_yield T c \<longleftrightarrow>
     (case ref T of
        No_ref \<Rightarrow> c = Rvalue \<or> c = Lvalue \<and> \<not> is_const T \<or> is_const T \<and> c \<noteq> Lvalue
      | Lvalue_ref \<Rightarrow> c = Lvalue \<or> is_const T
      | Rvalue_ref \<Rightarrow> c = Rvalue \<or> c = Const_rvalue \<and> is_const T)"
  by (cases T; cases "ref T"; cases c) (auto simp: type_defs)

text \<open>
  A \<open>generator\<close> can be used, to yield and to read values, for every type but rvalue references. An
  \<open>async_generator\<close> can be used for types that are not references and not constant only.
\<close>

theorem usable_generators:
  "((\<exists>c. can_yield T c) \<and> dereferences T \<longleftrightarrow> ref T \<noteq> Rvalue_ref) \<and>
   ((\<exists>c. if ref T = Rvalue_ref then async_yields_moved T c else async_yields T c) \<and> async_dereferences T \<longleftrightarrow>
      ref T = No_ref \<and> \<not> is_const T)"
proof -
  have "can_yield T Rvalue \<or> can_yield T Lvalue" by (cases "ref T") (simp_all add: can_yield_iff)
  moreover have "dereferences T \<longleftrightarrow> ref T \<noteq> Rvalue_ref" by (cases "ref T") (simp_all add: type_defs)
  moreover have "async_yields T Lvalue" if "\<not> is_const T" using that by (simp add: type_defs)
  ultimately show ?thesis by (cases "ref T") (auto simp: type_defs)
qed

end
