(* ===== verification/Coroutine_Queue.thy ===== *)
theory Coroutine_Queue
  imports Scheduler
begin

text \<open>
  What the scheduler (\<open>ice/scheduler.hpp\<close>) promises to the context, the service and the programs that use
  it, as an interface: coroutines are posted, and whoever runs takes all that were posted, oldest first.
  The linked stack keeps the contract, and so does the plain list by which the other theories model it,
  so the two can not be told apart.
\<close>

section \<open>Using a queue\<close>

datatype queue_op = Post addr | Take

text \<open>What a sequence of operations takes out, round by round, and the queue it leaves.\<close>

fun queue_run ::
    "(addr \<Rightarrow> 'q \<Rightarrow> 'q) \<Rightarrow> ('q \<Rightarrow> (addr list \<times> 'q) option) \<Rightarrow> queue_op list \<Rightarrow> 'q \<Rightarrow>
     (addr list list \<times> 'q) option" where
  "queue_run put grab [] q = Some ([], q)"
| "queue_run put grab (Post a # ops) q = queue_run put grab ops (put a q)"
| "queue_run put grab (Take # ops) q =
     (case grab q of
        None \<Rightarrow> None
      | Some (xs, q') \<Rightarrow> map_option (apfst (Cons xs)) (queue_run put grab ops q'))"

text \<open>An awaitable is posted when it is not in the queue, as its coroutine is not suspended on it twice.\<close>

fun sensible :: "queue_op list \<Rightarrow> addr list \<Rightarrow> bool" where
  "sensible [] xs = True"
| "sensible (Post a # ops) xs = (a \<noteq> 0 \<and> a \<notin> set xs \<and> sensible ops (xs @ [a]))"
| "sensible (Take # ops) xs = sensible ops []"

text \<open>The rounds that are promised, for a queue that holds \<open>xs\<close>, and what is left.\<close>

fun rounds :: "queue_op list \<Rightarrow> addr list \<Rightarrow> addr list list" where
  "rounds [] xs = []"
| "rounds (Post a # ops) xs = rounds ops (xs @ [a])"
| "rounds (Take # ops) xs = xs # rounds ops []"

fun left_over :: "queue_op list \<Rightarrow> addr list \<Rightarrow> addr list" where
  "left_over [] xs = xs"
| "left_over (Post a # ops) xs = left_over ops (xs @ [a])"
| "left_over (Take # ops) xs = left_over ops []"

fun posts :: "queue_op list \<Rightarrow> addr list" where
  "posts [] = []"
| "posts (Post a # ops) = a # posts ops"
| "posts (Take # ops) = posts ops"

lemma rounds_posts: "concat (rounds ops xs) @ left_over ops xs = xs @ posts ops"
  by (induction ops xs rule: rounds.induct) simp_all

section \<open>The contract\<close>

locale coroutine_queue =
  fixes holds :: "'q \<Rightarrow> addr list \<Rightarrow> bool"
    and put :: "addr \<Rightarrow> 'q \<Rightarrow> 'q"
    and grab :: "'q \<Rightarrow> (addr list \<times> 'q) option"
  assumes holds_post: "holds q xs \<Longrightarrow> a \<noteq> 0 \<Longrightarrow> a \<notin> set xs \<Longrightarrow> holds (put a q) (xs @ [a])"
    and take_all: "holds q xs \<Longrightarrow> \<exists>q'. grab q = Some (xs, q') \<and> holds q' []"
begin

lemma run_rounds:
  "holds q xs \<Longrightarrow> sensible ops xs \<Longrightarrow>
   \<exists>q'. queue_run put grab ops q = Some (rounds ops xs, q') \<and> holds q' (left_over ops xs)"
proof (induction ops arbitrary: q xs)
  case (Cons x ops)
  show ?case
  proof (cases x)
    case (Post a)
    with Cons.prems holds_post have "holds (put a q) (xs @ [a])" by simp
    from Cons.IH [OF this] Cons.prems Post show ?thesis by simp
  next
    case Take
    from take_all [OF Cons.prems(1)] obtain q' where t: "grab q = Some (xs, q')" "holds q' []" by blast
    from Cons.IH [OF t(2)] Cons.prems Take t(1) show ?thesis by auto
  qed
qed simp

text \<open>Nothing is lost, added or reordered.\<close>

lemma run_in_order:
  assumes "holds q []" and "sensible ops []"
  obtains out q' rest where "queue_run put grab ops q = Some (out, q')" and "holds q' rest"
    and "concat out @ rest = posts ops"
  using run_rounds [OF assms] rounds_posts [of ops "[]"] by fastforce

end

section \<open>The stack and the list\<close>

text \<open>
  Taking the stack and following its links is \<^const>\<open>process\<close> with coroutines that only log that they were
  resumed. The exchanges of \<^const>\<open>Scheduler.post\<close> may fail, for each node as \<open>fails\<close> says.
\<close>

definition drain :: "sched \<Rightarrow> (addr list \<times> sched) option" where
  "drain s = map_option prod.swap (process log_resume (s, []))"

lemma log_resume_fold: "fold log_resume xs p = (fst p, snd p @ xs)"
  by (induction xs arbitrary: p) (simp_all add: log_resume_def)

lemma drain_queued:
  assumes "queued s xs"
  shows "\<exists>t. drain s = Some (xs, t) \<and> queued t []"
proof -
  obtain head t where t: "acquire s = Some (head, t)" "chain (snext t) head xs" "queued t []"
    using acquire_queued [OF assms] by blast
  have "keeps_waiting log_resume xs" by (simp add: keeps_waiting_def log_resume_def)
  with t process_loop_fold [of "(t, [])" head xs log_resume] show ?thesis
    by (simp add: drain_def process_def log_resume_fold)
qed

definition post_node :: "(addr \<Rightarrow> bool list) \<Rightarrow> addr \<Rightarrow> sched \<Rightarrow> sched" where
  "post_node fails a = Scheduler.post (fails a) a"

interpretation stack: coroutine_queue queued "post_node fails" drain for fails
  by unfold_locales (simp_all add: post_node_def post_queued drain_queued)

definition post_last :: "addr \<Rightarrow> addr list \<Rightarrow> addr list" where
  "post_last a q = q @ [a]"

definition take_list :: "addr list \<Rightarrow> (addr list \<times> addr list) option" where
  "take_list q = Some (q, [])"

interpretation plain: coroutine_queue "(=)" post_last take_list
  by unfold_locales (simp_all add: post_last_def take_list_def)

text \<open>
  So a program sees the same rounds whether its scheduler is the linked stack or a list of coroutines,
  and they are the posts in order.
\<close>

theorem stack_is_queue:
  assumes "sensible ops []"
  shows "map_option fst (queue_run (post_node fails) drain ops new_sched) =
           map_option fst (queue_run post_last take_list ops [])"
    and "\<exists>out rest. map_option fst (queue_run (post_node fails) drain ops new_sched) = Some out \<and>
           concat out @ rest = posts ops"
  using stack.run_rounds [OF queued_new assms, of fails] plain.run_rounds [OF refl assms]
    rounds_posts [of ops "[]"] by auto

end
