(* ===== verification/Spec2Isabelle.thy ===== *)
theory Spec2Isabelle
  imports System_Messages Result_Copies Process_Path Handle Scheduler_Threads Async_Await Async_Mutex Async_Generator Sync_Generator Context Parser Tcp_Platforms Socket_Options Event_Loop Service_Port Ssh_Exchange Ssh_Objects Ssh_Errors Log_Api Log_Queue Utility Schedule Owning_Objects Handle_View Option_Calls Async_Programs Exclusive_Sections Generator_Types Coroutine_Queue
begin

text \<open>
  A model of \<open>ice\<close>, a C++ library of coroutines for network programs, with the theorems that make its
  parts correct. Paths below are relative to \<open>src/src\<close>: the core library is in \<open>ice\<close>, two transports are
  in \<open>serial\<close> and \<open>ssh\<close>.

  \<^bold>\<open>The program.\<close> A coroutine of type \<open>async<T>\<close> (\<open>ice/async.hpp\<close>) is started when it is awaited and continues
  its awaiter at its end; \<open>async_generator\<close> yields values to a consumer, \<open>async_mutex\<close> excludes coroutines
  from each other. A scheduler (\<open>ice/scheduler.hpp\<close>) is a lock-free stack of suspended coroutines; a
  \<open>context\<close> (\<open>ice/context.hpp\<close>) runs one on threads that sleep on a condition variable, the network service
  (\<open>ice/net/service.cpp\<close>) runs one on a thread that waits for the operating system. Sockets, serial devices
  and SSH sessions await events of the service. The logger runs a context on a thread of its own.

  \<^bold>\<open>Theories, from the bottom up.\<close>
  \<^item> \<^theory_text>\<open>Prelude\<close>, \<^theory_text>\<open>Cpp_Strings\<close>: C++ integers, addresses, \<open>std::string\<close>, the collections of rules.
  \<^item> \<^theory_text>\<open>Errors\<close>, \<^theory_text>\<open>System_Messages\<close>, \<^theory_text>\<open>Ssh_Errors\<close>: \<open>ice/error.hpp\<close>, \<open>ice/error.cpp\<close>, \<open>ice/net/ssh/error.cpp\<close>. Error
    codes, their categories and texts; a text is canonical, and which numbers share a text is settled.
  \<^item> \<^theory_text>\<open>Result\<close>: \<open>ice/result.hpp\<close>. The union with the member that is alive; reading a dead member is
    \<^const>\<open>None\<close>. Assignment copies, except to itself. \<^theory_text>\<open>Result_Copies\<close>: which copies and moves exist, by the
    base classes of \<open>ice/utility.hpp\<close>, and which constructor a copy selects.
  \<^item> \<^theory_text>\<open>Handle\<close>, \<^theory_text>\<open>Owning_Objects\<close>: \<open>ice/handle.hpp\<close> and the owners of \<open>ice/async.hpp\<close>; \<^theory_text>\<open>Handle_View\<close>: comparisons,
    conversions and views of handles. Objects by address and the calls of the close functor. For every sequence of operations: no leak, nothing closed twice.
  \<^item> \<^theory_text>\<open>Chain\<close>, \<^theory_text>\<open>Scheduler\<close>, \<^theory_text>\<open>Scheduler_Threads\<close>: \<open>ice/scheduler.hpp\<close>. Pointer chains on a heap and their
    reversal; the operations run by one thread (the loops are partial functions, proved to return); the
    same at the level of atomic accesses by any number of threads, with the queue it refines.
    \<^theory_text>\<open>Coroutine_Queue\<close>: the locale of what a scheduler promises, kept by the stack and by the list that stands
    for it in the theories of its users.
  \<^item> \<^theory_text>\<open>Rendezvous\<close>: the locale of two sides that meet at one atomic flag. It is interpreted for the promise
    of a task and for the overlapped event.
  \<^item> \<^theory_text>\<open>Async_Task\<close>, \<^theory_text>\<open>Async_Await\<close>: the promise, the ownership of the frame, and the step relation of a task
    awaited while its body runs on other threads.
  \<^item> \<^theory_text>\<open>Exclusive_Sections\<close>: the locale of systems with exclusive sections, and that data touched only in
    them is updated as if in turn; the mutex and the generator are interpretations.
  \<^item> \<^theory_text>\<open>Step_Systems\<close>: the locales of step relations with an invariant, and with a rank that every step lowers.
  \<^item> \<^theory_text>\<open>Async_Programs\<close>: promises, frames, schedulers and threads put together. A program of coroutines that
    await each other and move between schedulers computes what it does as a program of functions with
    exceptions, ends, and destroys every frame but the first. There a scheduler is a queue that some thread
    serves again and again; how one comes to do so is the matter of \<^theory_text>\<open>Context\<close> and \<^theory_text>\<open>Service\<close>.
  \<^item> \<^theory_text>\<open>Async_Mutex\<close>, \<^theory_text>\<open>Async_Generator\<close>: step relations at the level of atomic accesses. Exclusion, order, no
    lost wake-up, and that no coroutine is resumed, and no frame destroyed, at the wrong time.
  \<^item> \<^theory_text>\<open>Async_Objects\<close>: what surrounds them: \<open>task\<close>, the promises of \<open>void\<close> and of references, the three ways to
    await, the iterators of an asynchronous generator. \<^theory_text>\<open>Sync_Generator\<close>: \<open>generator<T>\<close>, its frame and its
    owners; a range-based loop over it, as the language writes it out, ends and sees every value.
    \<^theory_text>\<open>Generator_Types\<close>: for which types generators can be used, by the rules for references.
  \<^item> \<^theory_text>\<open>Context\<close>, \<^theory_text>\<open>Service\<close>: the two ways to run a scheduler. A wake-up of the context can be lost, but
    only between a thread's predicate and its falling asleep; one of the service is lost only when the system
    call that interrupts it fails, which \<open>schedule\<close> ignores. \<^theory_text>\<open>Schedule\<close>: the awaitable \<open>schedule\<close> with the thread-local mark of a running
    scheduler. \<^theory_text>\<open>Service_Port\<close>: the Windows service on a completion port.
  \<^item> \<^theory_text>\<open>Parser\<close>: \<open>ice/parser.hpp\<close>. Characters to lines to handlers.
  \<^item> \<^theory_text>\<open>System_Calls\<close>, \<^theory_text>\<open>Net_Event\<close>, \<^theory_text>\<open>Endpoint\<close>, \<^theory_text>\<open>Socket_Options\<close>: results of system calls, and \<open>event.hpp\<close>,
    \<open>endpoint.cpp\<close> and \<open>option.hpp\<close> of \<open>ice/net\<close>; \<^theory_text>\<open>Option_Calls\<close>: the accessors of the options and the calls
    that read and write them.
  \<^item> \<^theory_text>\<open>Byte_Stream\<close>: the locale of streams, with the helper \<open>ice::send\<close> proved once in it. \<^theory_text>\<open>Tcp_Socket\<close>,
    \<^theory_text>\<open>Overlapped_Streams\<close> and \<^theory_text>\<open>Ssh_Session\<close> interpret it on TCP sockets, serial devices and SSH channels.
    \<^theory_text>\<open>Ssh_Exchange\<close>: the buffer between libssh2 and the socket in the Windows build. \<^theory_text>\<open>Ssh_Objects\<close>: session
    and channel objects as they move, with the pointer libssh2 keeps to the session.
  \<^item> \<^theory_text>\<open>Tcp_Platforms\<close>: \<open>create\<close>, \<open>accept\<close> and \<open>connect\<close> of Windows and FreeBSD. \<^theory_text>\<open>Event_Loop\<close>: coroutines on sockets,
    the events they await and the interest list of epoll in one step relation; each call returns what its
    functional model in \<^theory_text>\<open>Tcp_Socket\<close> computes.
  \<^item> \<^theory_text>\<open>Terminal\<close>, \<^theory_text>\<open>Log_Text\<close>, \<^theory_text>\<open>Log_Queue\<close>: \<open>ice/terminal.cpp\<close>, \<open>ice/log.cpp\<close>. Formats and escape sequences,
    the text of an entry, and the queue of the logger as a step relation. \<^theory_text>\<open>Log_Api\<close>: the functions a program
    calls and the entries they queue.
  \<^item> \<^theory_text>\<open>Utility\<close>: \<open>ice/utility.hpp\<close>. Scope guards, thread-local storage, thread affinity, \<open>xorstr\<close>.
  \<^item> \<^theory_text>\<open>Process_Path\<close>: \<open>ice/process.cpp\<close> on the three systems.

  \<^bold>\<open>How code becomes a model.\<close> Objects that a program may alias are named by addresses, 0 being the null
  pointer, and operations work on a record that holds them. Undefined behaviour and a call that does not
  return are \<^const>\<open>None\<close>. Concurrent code is an inductive step relation with one step per atomic access, or
  per region that one thread runs alone; the constructors of the program counters stand between two such
  accesses. Memory is sequentially consistent; the memory orders of the source are not modelled.
  Compare-and-exchange in its weak form may fail at any time. Fields called ghost record history and are
  read by no guard. What the operating system, libssh2 or fmt answer is an argument: a list of results
  for calls that are repeated, a function otherwise. A loop over such a list is \<^const>\<open>None\<close> when the list
  ends first; theorems that say such a loop returns name the results that make it return. No fuel is
  used; the sequential \<open>post\<close> takes the number of times its exchange fails.

  \<^bold>\<open>Platform.\<close> Linux with exceptions enabled. What differs in structure on the other systems is modelled
  beside it: on Windows the overlapped events and streams, the completion port, \<open>AcceptEx\<close> and \<open>ConnectEx\<close>,
  and the console; on FreeBSD the events of kqueue and the connection of a socket.

  \<^bold>\<open>Flaws that are stated as theorems.\<close> A notification of the context can be lost; a failed
  interruption of the service leaves a coroutine queued with nobody to wake the thread; a call that waits for the
  logger can sleep for ever; a frame destroyed at the wrong moment destroys a value that was never built;
  a \<open>task\<close> that throws leaks its frame; assigning a result to itself reads a destroyed member, and copying
  a \<open>result<bool>\<close> can replace its value; sending tests a stale \<open>errno\<close>; two coroutines can not await one
  socket, and closing it leaves its awaiter asleep; a scheduler that runs inside another run of itself
  clears the thread's mark; moving an SSH session that is not connected is undefined, and assigning to one
  releases its channel after its session; IPv6 endpoints are never recognised; linger times wrap around;
  formats lose two styles; a serial device that can not be opened goes unnoticed; asynchronous generators of
  references and of constant values can not be used.

  \<^bold>\<open>Not modelled.\<close> \<open>ice/net/types.cpp\<close>, assertions on types; benchmarks and tests. Of modelled files: the macros
  and aliases of \<open>ice/utility.hpp\<close>, and declarations without code.
\<close>

end
